(* ===== verification/Prelude.thy ===== *)
theory Prelude
  imports Main "HOL-Library.Word"
begin

text \<open>
  Shared vocabulary of the development: the machine types of the sources, the two kinds of
  pointers the transactional layer stores, the ways an operation can leave the normal path, and the
  facts about lists and 64-bit words that several components use.

  \<^item> \<open>u64\<close>, \<open>u32\<close>: \<^verbatim>\<open>uint64_t\<close> and \<^verbatim>\<open>uint32_t\<close>, wrapping as in C++.
  \<^item> \<open>vptr\<close>: a \<^verbatim>\<open>uint64_t*\<close> that points to a record's bytes. Only its numeric value matters to
    the transaction code, which compares it with \<^verbatim>\<open>(uint64_t*)NULL\<close> and \<^verbatim>\<open>(uint64_t*)-1\<close>.
  \<^item> \<open>nptr\<close>: a \<^verbatim>\<open>Memstore::MemNode*\<close>, an address in the node heap; 0 is NULL.
\<close>

unbundle bit_operations_syntax

type_synonym u64 = "64 word"
type_synonym u32 = "32 word"
type_synonym vptr = u64
type_synonym nptr = nat

abbreviation (input) NULLP :: nptr where
  "NULLP \<equiv> 0"

text \<open>
  How an operation can fail to return normally: \<open>Exit\<close> is a call of \<^verbatim>\<open>exit(1)\<close>, \<open>AssertFail\<close> an
  \<^verbatim>\<open>assert(0)\<close> that marks a branch the authors take to be dead, \<open>OutOfBounds\<close> an array access
  outside the array, \<open>NullDeref\<close> a dereference of NULL, and \<open>Spin\<close> a wait that does not end as long
  as the other threads stand still.
\<close>

datatype fault = Exit | AssertFail | OutOfBounds | NullDeref | Spin

text \<open>Sequencing of operations that may fault: a fault skips what follows.\<close>

definition and_then :: "fault + 'a \<Rightarrow> ('a \<Rightarrow> fault + 'b) \<Rightarrow> fault + 'b" where
  "and_then r f = (case r of Inl e \<Rightarrow> Inl e | Inr x \<Rightarrow> f x)"

lemma and_then_simps [simp]:
  "and_then (Inl e) f = Inl e"
  "and_then (Inr x) f = f x"
  by (simp_all add: and_then_def)

lemma and_then_eq_Inr: "and_then r f = Inr y \<longleftrightarrow> (\<exists>x. r = Inr x \<and> f x = Inr y)"
  by (cases r) auto

text \<open>A loop over the entries of an array that may fault and threads a state.\<close>

fun map_state :: "('a \<Rightarrow> 's \<Rightarrow> fault + ('a \<times> 's)) \<Rightarrow> 'a list \<Rightarrow> 's \<Rightarrow> fault + ('a list \<times> 's)" where
  "map_state f [] s = Inr ([], s)"
| "map_state f (x # xs) s =
     and_then (f x s) (\<lambda>(x', s'). and_then (map_state f xs s') (\<lambda>(xs', s''). Inr (x' # xs', s'')))"

lemma map_state_length: "map_state f xs s = Inr (ys, s') \<Longrightarrow> length ys = length xs"
  by (induction xs arbitrary: s ys) (auto simp: and_then_eq_Inr)

named_theorems heap_simps \<open>reading back after an update of the node heap\<close>
named_theorems ring_simps \<open>arithmetic of circular indices\<close>

section \<open>Words\<close>

text \<open>The top bit of a 64-bit word as an offset of \<open>2 ^ 63\<close>.\<close>

definition top_bit :: u64 where
  "top_bit = push_bit 63 1"

lemma top_bit_eq: "top_bit = 0x8000000000000000"
  by (simp add: top_bit_def)

lemma unat_top_bit: "unat top_bit = 2 ^ 63"
  by (simp add: top_bit_eq)

lemma not_top_bit_mask: "NOT top_bit = mask 63"
  by (simp add: top_bit_eq mask_eq_decr_exp)

lemma unat_and_not_top_bit: "unat (c AND NOT top_bit) = unat c mod 2 ^ 63"
  for c :: u64
proof -
  have "c AND NOT top_bit = take_bit 63 c"
    by (simp only: not_top_bit_mask take_bit_eq_mask)
  then have "unat (c AND NOT top_bit) = take_bit 63 (unat c)"
    by (simp only: unsigned_take_bit_eq)
  then show ?thesis by (simp only: take_bit_eq_mod)
qed

lemma word_neq_SucI: "(x::u64) + 1 \<noteq> x"
  by simp

section \<open>Lists\<close>

lemma take_Suc_update: "n < length xs \<Longrightarrow> take (Suc n) (xs[n := x]) = take n xs @ [x]"
  by (simp add: take_Suc_conv_app_nth)

lemma find_append:
  "find P (xs @ ys) = (case find P xs of None \<Rightarrow> find P ys | Some y \<Rightarrow> Some y)"
  by (induction xs) auto

lemma find_SomeD: "find P xs = Some x \<Longrightarrow> x \<in> set xs \<and> P x"
  by (induction xs) (auto split: if_splits)

end
