(* ===== verification/Rcu.thy ===== *)
theory Rcu
  imports Prelude
begin

text \<open>
  \<^verbatim>\<open>db/rcu.h\<close> and \<^verbatim>\<open>db/rcu.cc\<close>: the read-copy-update state of the transactional layer. Every thread
  owns a 64-bit counter: the low 63 bits count the transactions it has begun, the top bit is set
  while it runs none. \<open>WaitForGracePeriod\<close> copies the counters and waits until each of the other
  threads has moved past its copy.

  The wait is a loop that other threads run beside, so it is modelled as a machine (\<open>waiter\<close>) whose
  steps interleave with the \<open>BeginTX\<close> and \<open>EndTX\<close> calls of the other threads; both the copying loop
  of \<open>GetStatesCopy\<close> and the waiting loop take one thread per step, as in the code.
\<close>

section \<open>The counters\<close>

definition ENDMASK :: u64 where
  "ENDMASK = top_bit"

definition BEGMASK :: u64 where
  "BEGMASK = NOT top_bit"

definition State_init :: u64 where
  "State_init = ENDMASK"

definition State_BeginTX :: "u64 \<Rightarrow> u64" where
  "State_BeginTX counter = (counter + 1) AND BEGMASK"

definition State_EndTX :: "u64 \<Rightarrow> u64" where
  "State_EndTX counter = counter OR ENDMASK"

definition State_Safe :: "u64 \<Rightarrow> u64 \<Rightarrow> bool" where
  "State_Safe counter c \<longleftrightarrow> counter > c"

record RCU =
  states :: "u64 list"
  thrs_num :: nat
  sync :: bool

definition RCU_new :: "nat \<Rightarrow> RCU" where
  "RCU_new thrs = \<lparr>states = replicate thrs State_init, thrs_num = thrs, sync = False\<rparr>"

definition RCU_BeginTX :: "nat \<Rightarrow> RCU \<Rightarrow> RCU" where
  "RCU_BeginTX tid r = r\<lparr>states := (states r)[tid := State_BeginTX (states r ! tid)]\<rparr>"

definition RCU_EndTX :: "nat \<Rightarrow> RCU \<Rightarrow> RCU" where
  "RCU_EndTX tid r = r\<lparr>states := (states r)[tid := State_EndTX (states r ! tid)]\<rparr>"

definition GetStatesCopy :: "RCU \<Rightarrow> u64 list" where
  "GetStatesCopy r = map (\<lambda>i. (states r ! i) AND BEGMASK) [0..<thrs_num r]"

section \<open>The waiting thread\<close>

datatype waiter =
    Copying "u64 list"
  | Waiting nat "u64 list"
  | Returned

fun WaitForGracePeriod_step :: "nat \<Rightarrow> RCU \<Rightarrow> waiter \<Rightarrow> waiter" where
  "WaitForGracePeriod_step tid r (Copying cs) =
     (if length cs < thrs_num r then Copying (cs @ [(states r ! length cs) AND BEGMASK])
      else Waiting 0 cs)"
| "WaitForGracePeriod_step tid r (Waiting i cs) =
     (if i < thrs_num r then
        (if i = tid then Waiting (Suc i) cs
         else if State_Safe (states r ! i) (cs ! i) then Waiting (Suc i) cs
         else Waiting i cs)
      else Returned)"
| "WaitForGracePeriod_step tid r Returned = Returned"

text \<open>
  When nobody else moves, the wait returns iff every other thread is past its own copy already;
  otherwise it spins. \<open>WaitForGracePeriod_returns\<close> is that test.
\<close>

definition WaitForGracePeriod_returns :: "nat \<Rightarrow> RCU \<Rightarrow> bool" where
  "WaitForGracePeriod_returns tid r \<longleftrightarrow>
     (\<forall>i \<in> set [0..<thrs_num r]. i \<noteq> tid \<longrightarrow> State_Safe (states r ! i) (GetStatesCopy r ! i))"

text \<open>
  The events around a wait of thread \<open>tid\<close>. The transaction code calls \<open>BeginTX\<close> only outside a
  transaction, which is the guard of \<open>EvBegin\<close>; \<open>EndTX\<close> may be called twice (\<open>End\<close> and then
  \<open>Abort\<close>) and needs none.
\<close>

datatype rcu_event = EvBegin nat | EvEnd nat | EvWait

definition in_tx :: "u64 \<Rightarrow> bool" where
  "in_tx counter \<longleftrightarrow> counter AND ENDMASK = 0"

fun rcu_apply :: "nat \<Rightarrow> rcu_event \<Rightarrow> RCU \<times> waiter \<Rightarrow> (RCU \<times> waiter) option" where
  "rcu_apply tid (EvBegin j) (r, w) =
     (if j < thrs_num r \<and> \<not> in_tx (states r ! j) then Some (RCU_BeginTX j r, w) else None)"
| "rcu_apply tid (EvEnd j) (r, w) = (if j < thrs_num r then Some (RCU_EndTX j r, w) else None)"
| "rcu_apply tid EvWait (r, w) = Some (r, WaitForGracePeriod_step tid r w)"

fun rcu_exec :: "nat \<Rightarrow> rcu_event list \<Rightarrow> RCU \<times> waiter \<Rightarrow> (RCU \<times> waiter) option" where
  "rcu_exec tid [] s = Some s"
| "rcu_exec tid (e # es) s =
     (case rcu_apply tid e s of None \<Rightarrow> None | Some s' \<Rightarrow> rcu_exec tid es s')"

definition RCU_wf :: "RCU \<Rightarrow> bool" where
  "RCU_wf r \<longleftrightarrow> length (states r) = thrs_num r"

section \<open>Arithmetic of the counters\<close>

lemma unat_BeginTX: "unat (State_BeginTX c) = (unat c + 1) mod 2 ^ 63"
proof -
  have "unat (c + 1) = (unat c + 1) mod 2 ^ 64"
    by (simp add: unat_word_ariths)
  then show ?thesis
    by (simp add: State_BeginTX_def BEGMASK_def unat_and_not_top_bit mod_mod_cancel)
qed

lemma EndTX_split: "State_EndTX c = (c AND NOT top_bit) + top_bit"
proof -
  have "State_EndTX c = (c AND NOT top_bit) OR top_bit"
    by (simp add: State_EndTX_def ENDMASK_def bit_eq_iff bit_simps) blast
  also have "\<dots> = (c AND NOT top_bit) + top_bit"
    by (rule disjunctive_add_eq_or [symmetric]) (simp add: bit_eq_iff bit_simps)
  finally show ?thesis .
qed

lemma unat_EndTX: "unat (State_EndTX c) = unat c mod 2 ^ 63 + 2 ^ 63"
proof -
  have "unat c mod 2 ^ 63 < 2 ^ 63" by simp
  then have "unat (c AND NOT top_bit) + unat top_bit < 2 ^ 64"
    by (simp add: unat_and_not_top_bit unat_top_bit)
  then show ?thesis
    by (simp add: EndTX_split unat_word_ariths unat_and_not_top_bit unat_top_bit)
qed

lemma in_tx_iff: "in_tx c \<longleftrightarrow> unat c < 2 ^ 63"
proof -
  have "in_tx c \<longleftrightarrow> c AND NOT top_bit = c"
    by (auto simp: in_tx_def ENDMASK_def bit_eq_iff bit_simps)
  also have "\<dots> \<longleftrightarrow> unat c mod 2 ^ 63 = unat c"
    by (simp add: word_unat_eq_iff unat_and_not_top_bit)
  also have "\<dots> \<longleftrightarrow> unat c < 2 ^ 63"
    by (metis mod_less mod_less_divisor zero_less_numeral zero_less_power)
  finally show ?thesis .
qed

lemma State_Safe_iff: "State_Safe a b \<longleftrightarrow> unat b < unat a"
  by (simp add: State_Safe_def word_less_nat_alt)

lemma and_BEGMASK_in_tx: "in_tx c \<Longrightarrow> c AND BEGMASK = c"
  by (simp add: in_tx_iff BEGMASK_def unat_and_not_top_bit word_unat_eq_iff)

lemma in_tx_not_Safe: "in_tx c \<Longrightarrow> \<not> State_Safe c (c AND BEGMASK)"
  by (simp add: and_BEGMASK_in_tx State_Safe_iff)

lemma idle_Safe: "\<not> in_tx c \<Longrightarrow> State_Safe c (c AND BEGMASK)"
proof -
  assume "\<not> in_tx c"
  then have "2 ^ 63 \<le> unat c" by (simp add: in_tx_iff)
  moreover have "unat c mod 2 ^ 63 < 2 ^ 63" by simp
  ultimately show ?thesis
    by (simp add: State_Safe_iff BEGMASK_def unat_and_not_top_bit)
qed

lemma in_tx_BeginTX: "in_tx (State_BeginTX c)"
  by (simp add: in_tx_iff unat_BeginTX)

lemma not_in_tx_EndTX: "\<not> in_tx (State_EndTX c)"
  by (simp add: in_tx_iff unat_EndTX)

section \<open>Grace periods\<close>

lemma RCU_wf_BeginTX [simp]: "RCU_wf (RCU_BeginTX j r) = RCU_wf r"
  by (simp add: RCU_wf_def RCU_BeginTX_def)

lemma RCU_wf_EndTX [simp]: "RCU_wf (RCU_EndTX j r) = RCU_wf r"
  by (simp add: RCU_wf_def RCU_EndTX_def)

lemma thrs_num_Begin_End [simp]:
  "thrs_num (RCU_BeginTX j r) = thrs_num r" "thrs_num (RCU_EndTX j r) = thrs_num r"
  by (simp_all add: RCU_BeginTX_def RCU_EndTX_def)

text \<open>
  What a wait knows of a thread \<open>j\<close> that has stayed in the transaction \<open>c\<close> since the wait started:
  its copy of the counter, once taken, is \<open>c\<close>, and the waiting loop has not passed \<open>j\<close>.
\<close>

fun held_by :: "nat \<Rightarrow> u64 \<Rightarrow> waiter \<Rightarrow> bool" where
  "held_by j c (Copying cs) \<longleftrightarrow> (j < length cs \<longrightarrow> cs ! j = c)"
| "held_by j c (Waiting i cs) \<longleftrightarrow> i \<le> j \<and> cs ! j = c"
| "held_by j c Returned \<longleftrightarrow> False"

lemma held_by_step:
  assumes "held_by j c w" and "in_tx c" and "states r ! j = c" and "j < thrs_num r" and "j \<noteq> tid"
  shows "held_by j c (WaitForGracePeriod_step tid r w)"
proof (cases w)
  case (Copying cs)
  with assms show ?thesis
    by (auto simp: and_BEGMASK_in_tx nth_append less_Suc_eq)
next
  case (Waiting i cs)
  moreover have "\<not> State_Safe c c" by (simp add: State_Safe_def)
  ultimately show ?thesis
    using assms by (auto simp: Suc_le_eq le_less)
next
  case Returned
  with assms show ?thesis by simp
qed

lemma held_by_exec:
  assumes "rcu_exec tid es (r, w) = Some (r', w')" and "EvEnd j \<notin> set es"
    and "RCU_wf r" and "held_by j c w" and "in_tx c" and "states r ! j = c"
    and "j < thrs_num r" and "j \<noteq> tid"
  shows "held_by j c w'"
  using assms
proof (induction es arbitrary: r w)
  case Nil
  then show ?case by simp
next
  case (Cons e es)
  show ?case
  proof (cases e)
    case (EvBegin k)
    with Cons.prems have k: "k < thrs_num r" "k \<noteq> j"
      and rest: "rcu_exec tid es (RCU_BeginTX k r, w) = Some (r', w')"
      by (auto split: if_splits)
    show ?thesis
      by (rule Cons.IH [OF rest]) (use Cons.prems k in \<open>auto simp: RCU_BeginTX_def RCU_wf_def\<close>)
  next
    case (EvEnd k)
    with Cons.prems have k: "k < thrs_num r" "k \<noteq> j"
      and rest: "rcu_exec tid es (RCU_EndTX k r, w) = Some (r', w')"
      by (auto split: if_splits)
    show ?thesis
      by (rule Cons.IH [OF rest]) (use Cons.prems k in \<open>auto simp: RCU_EndTX_def RCU_wf_def\<close>)
  next
    case EvWait
    with Cons.prems(1)
    have rest: "rcu_exec tid es (r, WaitForGracePeriod_step tid r w) = Some (r', w')"
      by simp
    show ?thesis
      by (rule Cons.IH [OF rest]) (use Cons.prems held_by_step in auto)
  qed
qed

lemma grace_period_core:
  assumes "rcu_exec tid es (r, Copying []) = Some (r', Returned)" and "RCU_wf r"
    and "j < thrs_num r" and "j \<noteq> tid" and "in_tx (states r ! j)"
  shows "EvEnd j \<in> set es"
proof (rule ccontr)
  assume "EvEnd j \<notin> set es"
  then have "held_by j (states r ! j) Returned"
    using assms by (intro held_by_exec [OF assms(1)]) auto
  then show False by simp
qed

subsection \<open>The wait returns when the other threads are idle\<close>

lemma copy_phase:
  assumes "length cs + n = thrs_num r"
    and "cs = take (length cs) (GetStatesCopy r)"
  shows "rcu_exec tid (replicate n EvWait) (r, Copying cs) = Some (r, Copying (GetStatesCopy r))"
  using assms
proof (induction n arbitrary: cs)
  case 0
  then show ?case by (simp add: GetStatesCopy_def)
next
  case (Suc n)
  let ?cs = "cs @ [(states r ! length cs) AND BEGMASK]"
  have "length ?cs + n = thrs_num r" using Suc.prems(1) by simp
  moreover have "?cs = take (length ?cs) (GetStatesCopy r)"
    using Suc.prems by (simp add: take_Suc_conv_app_nth GetStatesCopy_def)
  ultimately have "rcu_exec tid (replicate n EvWait) (r, Copying ?cs)
      = Some (r, Copying (GetStatesCopy r))"
    by (rule Suc.IH)
  with Suc.prems(1) show ?case by simp
qed

lemma wait_phase:
  assumes "i + n = thrs_num r" and "WaitForGracePeriod_returns tid r"
  shows "rcu_exec tid (replicate n EvWait) (r, Waiting i (GetStatesCopy r))
       = Some (r, Waiting (thrs_num r) (GetStatesCopy r))"
  using assms
proof (induction n arbitrary: i)
  case 0
  then show ?case by simp
next
  case (Suc n)
  then have "i < thrs_num r" by simp
  with Suc.prems have "i = tid \<or> State_Safe (states r ! i) (GetStatesCopy r ! i)"
    by (auto simp: WaitForGracePeriod_returns_def)
  with Suc \<open>i < thrs_num r\<close> show ?case by auto
qed

lemma rcu_exec_append:
  "rcu_exec tid (es @ fs) s = (case rcu_exec tid es s of None \<Rightarrow> None | Some s' \<Rightarrow> rcu_exec tid fs s')"
  by (induction es arbitrary: s) (auto split: option.splits)

lemma wait_returns_core:
  assumes "WaitForGracePeriod_returns tid r"
  shows "rcu_exec tid (replicate (2 * thrs_num r + 2) EvWait) (r, Copying []) = Some (r, Returned)"
proof -
  let ?n = "thrs_num r"
  have split: "replicate (2 * ?n + 2) EvWait
      = replicate ?n EvWait @ [EvWait] @ replicate ?n EvWait @ [EvWait]"
    by (simp add: replicate_append_same flip: replicate_add replicate_Suc)
  have len: "length (GetStatesCopy r) = ?n" by (simp add: GetStatesCopy_def)
  show ?thesis
    unfolding split rcu_exec_append
    using copy_phase [of "[]" ?n r tid] wait_phase [of 0 ?n r tid] assms len by simp
qed

lemma returns_iff_idle:
  "WaitForGracePeriod_returns tid r \<longleftrightarrow> (\<forall>i < thrs_num r. i \<noteq> tid \<longrightarrow> \<not> in_tx (states r ! i))"
  using in_tx_not_Safe idle_Safe
  by (auto simp: WaitForGracePeriod_returns_def GetStatesCopy_def)

lemma wait_spins_core:
  assumes "RCU_wf r" and "j < thrs_num r" and "j \<noteq> tid" and "in_tx (states r ! j)"
  shows "rcu_exec tid (replicate n EvWait) (r, Copying []) \<noteq> Some (r', Returned)"
  using grace_period_core [OF _ assms, of "replicate n EvWait" r'] by auto

subsection \<open>A thread that moved on stays safe\<close>

text \<open>The counter after \<open>n\<close> further transactions of a thread that was in transaction \<open>c\<close>.\<close>

definition after_txs :: "nat \<Rightarrow> u64 \<Rightarrow> u64" where
  "after_txs n c = ((State_BeginTX \<circ> State_EndTX) ^^ n) c"

lemma unat_next_tx: "unat (State_BeginTX (State_EndTX c)) = (unat c + 1) mod 2 ^ 63"
proof -
  have "(a mod M + M + 1) mod M = (a + 1) mod M" for a M :: nat
    by (metis add.commute add.left_commute mod_add_left_eq mod_add_self2)
  then show ?thesis by (simp only: unat_BeginTX unat_EndTX)
qed

lemma unat_after_txs: "unat c + n < 2 ^ 63 \<Longrightarrow> unat (after_txs n c) = unat c + n"
  by (induction n) (simp_all add: after_txs_def unat_next_tx)

section \<open>Properties\<close>

text \<open>
  C4. RCU safety. When a call of \<open>WaitForGracePeriod\<close> by thread \<open>tid\<close> returns, every other thread
  that was inside a transaction when the call started has called \<open>EndTX\<close> in between, whatever the
  interleaving of the copying loop, the waiting loop and the other threads' transactions.
\<close>

theorem grace_period:
  assumes "rcu_exec tid es (r, Copying []) = Some (r', Returned)" and "RCU_wf r"
    and "j < thrs_num r" and "j \<noteq> tid" and "in_tx (states r ! j)"
  shows "EvEnd j \<in> set es"
  using assms by (rule grace_period_core)

theorem grace_period_witness:
  "\<exists>es r'. rcu_exec 1 es (RCU_BeginTX 0 (RCU_new 2), Copying []) = Some (r', Returned)
     \<and> in_tx (states (RCU_BeginTX 0 (RCU_new 2)) ! 0) \<and> EvEnd 0 \<in> set es"
proof -
  let ?r = "RCU_BeginTX 0 (RCU_new 2)"
  let ?es = "[EvWait, EvWait, EvWait, EvWait, EvEnd 0, EvBegin 0, EvWait, EvWait, EvWait]"
  have run: "rcu_exec 1 ?es (?r, Copying []) = Some (RCU_BeginTX 0 (RCU_EndTX 0 ?r), Returned)"
    by code_simp
  have wf: "RCU_wf ?r" and lt: "0 < thrs_num ?r" and ne: "(0::nat) \<noteq> 1" and tx: "in_tx (states ?r ! 0)"
    by code_simp+
  show ?thesis using grace_period [OF run wf lt ne tx] run tx by blast
qed

text \<open>
  C5. RCU progress. With the other threads standing still, \<open>WaitForGracePeriod\<close> returns after its
  \<open>2 n + 2\<close> loop steps exactly when none of them is inside a transaction; otherwise it spins. Two
  threads that both wait outside a transaction therefore never block each other.
\<close>

theorem wait_returns_iff_idle:
  assumes "RCU_wf r"
  shows "rcu_exec tid (replicate (2 * thrs_num r + 2) EvWait) (r, Copying []) = Some (r, Returned)
     \<longleftrightarrow> (\<forall>i < thrs_num r. i \<noteq> tid \<longrightarrow> \<not> in_tx (states r ! i))"
  using assms wait_returns_core wait_spins_core returns_iff_idle by blast

theorem wait_returns_iff_idle_witness:
  "RCU_wf (RCU_new 3) \<and>
   rcu_exec 2 (replicate 8 EvWait) (RCU_new 3, Copying []) = Some (RCU_new 3, Returned)"
proof -
  have wf: "RCU_wf (RCU_new 3)" and idle: "\<forall>i < thrs_num (RCU_new 3). i \<noteq> 2 \<longrightarrow> \<not> in_tx (states (RCU_new 3) ! i)"
    by (simp_all add: RCU_wf_def RCU_new_def in_tx_def State_init_def ENDMASK_def top_bit_eq)
  have "thrs_num (RCU_new 3) = 3" by (simp add: RCU_new_def)
  with wait_returns_iff_idle [OF wf, of 2] idle wf show ?thesis by simp
qed

text \<open>
  C6. A thread that has left the transaction a wait copied stays past that copy through any number
  of later transactions, inside and outside them, as long as the 63-bit transaction count has not
  wrapped around; at the wrap the copied value is reached again and the thread looks unsafe.
\<close>

theorem Safe_until_wrap:
  "(unat c + n < 2 ^ 63 \<longrightarrow> State_Safe (State_EndTX (after_txs n c)) c
      \<and> (0 < n \<longrightarrow> State_Safe (after_txs n c) c))
   \<and> (unat c = 2 ^ 63 - 1 \<longrightarrow> \<not> State_Safe (after_txs 1 c) c)"
proof (intro conjI impI)
  assume b: "unat c + n < 2 ^ 63"
  show "State_Safe (State_EndTX (after_txs n c)) c"
    using b by (simp add: State_Safe_iff unat_EndTX unat_after_txs)
  assume "0 < n"
  with b show "State_Safe (after_txs n c) c"
    by (simp add: State_Safe_iff unat_after_txs)
next
  assume "unat c = 2 ^ 63 - 1"
  then show "\<not> State_Safe (after_txs 1 c) c"
    by (simp add: State_Safe_iff after_txs_def unat_BeginTX unat_EndTX)
qed

theorem Safe_until_wrap_witness:
  "State_Safe (after_txs 3 5) 5 \<and> \<not> State_Safe (after_txs 1 0x7FFFFFFFFFFFFFFF) 0x7FFFFFFFFFFFFFFF"
  using Safe_until_wrap [of 5 3] Safe_until_wrap [of "0x7FFFFFFFFFFFFFFF" 1] by simp

end
