(* ===== verification/Obj_Pool.thy ===== *)
theory Obj_Pool
  imports Prelude
begin

text \<open>
  \<^verbatim>\<open>db/objpool.h\<close> and \<^verbatim>\<open>db/objpool.cc\<close>: the per-thread pool that recycles value buffers and memory
  nodes. An object carries a \<open>next\<close> field in front of its bytes; garbage is pushed on the list of
  the current \<open>Header\<close> (one header per serial number), and \<open>GC\<close> splices every header's list in front
  of the free list.

  The object links are an explicit store (\<open>onext\<close>) that the operations update pointer by pointer.
  Headers form a singly linked list that only grows at its end, so it is a list here, and
  \<open>curlist\<close>, which points at one of its elements, is an index into it. Objects are identified with
  their addresses, of an arbitrary type \<open>'p\<close>: the pool never looks at their bytes.
\<close>

section \<open>Model\<close>

record 'p Header =
  h_sn :: u64
  h_head :: "'p option"
  h_tail :: "'p option"
  h_gcnum :: nat

record 'p OBJPool =
  onext :: "'p \<Rightarrow> 'p option"
  gclists :: "'p Header list"
  curlist :: "nat option"
  freenum :: nat
  freelist :: "'p option"

definition Header_new :: "u64 \<Rightarrow> 'p Header" where
  "Header_new sn = \<lparr>h_sn = sn, h_head = None, h_tail = None, h_gcnum = 0\<rparr>"

definition OBJPool_new :: "'p OBJPool" where
  "OBJPool_new = \<lparr>onext = (\<lambda>_. None), gclists = [], curlist = None, freenum = 0, freelist = None\<rparr>"

text \<open>The header that receives an object with serial number \<open>sn\<close>, created when needed.\<close>

definition AddGCObj_header :: "u64 \<Rightarrow> 'p OBJPool \<Rightarrow> 'p OBJPool" where
  "AddGCObj_header sn P =
     (case curlist P of
        None \<Rightarrow> P\<lparr>gclists := [Header_new sn], curlist := Some 0\<rparr>
      | Some i \<Rightarrow>
          if h_sn (gclists P ! i) \<noteq> sn
          then P\<lparr>gclists := take (Suc i) (gclists P) @ [Header_new sn], curlist := Some (Suc i)\<rparr>
          else P)"

definition Header_push :: "'p \<Rightarrow> 'p Header \<Rightarrow> 'p Header" where
  "Header_push ob h =
     h\<lparr>h_tail := (case h_tail h of None \<Rightarrow> Some ob | Some t \<Rightarrow> Some t),
       h_head := Some ob, h_gcnum := h_gcnum h + 1\<rparr>"

definition AddGCObj :: "'p \<Rightarrow> u64 \<Rightarrow> 'p OBJPool \<Rightarrow> 'p OBJPool" where
  "AddGCObj ob sn P =
     (let P1 = AddGCObj_header sn P; i = the (curlist P1); h = gclists P1 ! i
      in P1\<lparr>onext := (onext P1)(ob := h_head h),
            gclists := (gclists P1)[i := Header_push ob h]\<rparr>)"

definition GetFreeObj :: "'p OBJPool \<Rightarrow> 'p option \<times> 'p OBJPool" where
  "GetFreeObj P =
     (if freenum P = 0 then (None, P)
      else let r = the (freelist P)
           in (Some r, P\<lparr>freelist := onext P r, freenum := freenum P - 1,
                          onext := (onext P)(r := None)\<rparr>))"

definition GCList :: "'p Header \<Rightarrow> 'p OBJPool \<Rightarrow> 'p OBJPool" where
  "GCList h P =
     P\<lparr>onext := (onext P)(the (h_tail h) := freelist P),
       freelist := h_head h,
       freenum := freenum P + h_gcnum h\<rparr>"

fun OBJPool_GC_loop :: "'p Header list \<Rightarrow> 'p OBJPool \<Rightarrow> 'p OBJPool" where
  "OBJPool_GC_loop [] P = P\<lparr>gclists := []\<rparr>"
| "OBJPool_GC_loop (cur # rest) P =
     (let P1 = P\<lparr>gclists := rest,
                 curlist := (case curlist P of Some (Suc i) \<Rightarrow> Some i | _ \<Rightarrow> None)\<rparr>
      in OBJPool_GC_loop rest (GCList cur P1))"

text \<open>The serial number \<open>safesn\<close> is an argument that the loop of \<open>GC\<close> ignores.\<close>

definition OBJPool_GC :: "u64 \<Rightarrow> 'p OBJPool \<Rightarrow> 'p OBJPool" where
  "OBJPool_GC safesn P = (if gclists P = [] then P else OBJPool_GC_loop (gclists P) P)"

text \<open>Walking \<open>n\<close> links: the objects of a list, and the whole content of a pool.\<close>

fun chain :: "nat \<Rightarrow> ('p \<Rightarrow> 'p option) \<Rightarrow> 'p option \<Rightarrow> 'p list" where
  "chain 0 n p = []"
| "chain (Suc k) n p = (case p of None \<Rightarrow> [] | Some x \<Rightarrow> x # chain k n (n x))"

definition free_objs :: "'p OBJPool \<Rightarrow> 'p list" where
  "free_objs P = chain (freenum P) (onext P) (freelist P)"

definition header_objs :: "('p \<Rightarrow> 'p option) \<Rightarrow> 'p Header \<Rightarrow> 'p list" where
  "header_objs n h = chain (h_gcnum h) n (h_head h)"

definition pending_objs :: "'p OBJPool \<Rightarrow> 'p list" where
  "pending_objs P = concat (map (header_objs (onext P)) (gclists P))"

section \<open>Linked lists in the store\<close>

fun lseg :: "('p \<Rightarrow> 'p option) \<Rightarrow> 'p option \<Rightarrow> 'p list \<Rightarrow> 'p option \<Rightarrow> bool" where
  "lseg n p [] q \<longleftrightarrow> p = q"
| "lseg n p (x # xs) q \<longleftrightarrow> p = Some x \<and> lseg n (n x) xs q"

lemma lseg_update_other [simp]: "x \<notin> set xs \<Longrightarrow> lseg (n(x := v)) p xs q = lseg n p xs q"
  by (induction xs arbitrary: p) auto

lemma lseg_append: "lseg n p (xs @ ys) q \<longleftrightarrow> (\<exists>r. lseg n p xs r \<and> lseg n r ys q)"
  by (induction xs arbitrary: p) auto

lemma lseg_splice:
  assumes "lseg n p xs None" and "xs \<noteq> []" and "distinct xs" and "lseg n q ys None"
    and "last xs \<notin> set ys"
  shows "lseg (n(last xs := q)) p (xs @ ys) None"
proof -
  from assms(2) obtain bs l where xs: "xs = bs @ [l]" by (metis rev_exhaust)
  with assms(3) have l: "l \<notin> set bs" by simp
  from assms(1) xs obtain r where "lseg n p bs r" and "r = Some l"
    by (auto simp: lseg_append)
  with l assms(4,5) xs show ?thesis
    by (auto simp: lseg_append)
qed

lemma chain_lseg: "lseg n p xs None \<Longrightarrow> chain (length xs) n p = xs"
  by (induction xs arbitrary: p) auto

lemma header_objs_lseg: "lseg n (h_head h) xs None \<Longrightarrow> h_gcnum h = length xs \<Longrightarrow> header_objs n h = xs"
  by (simp add: header_objs_def chain_lseg)

section \<open>Well-formed pools\<close>

text \<open>
  Every header holds a non-empty, NULL-terminated list with the right tail and count, the free list
  is NULL-terminated with the right count, no object is on two lists or twice on one, and
  \<open>curlist\<close> is the last header.
\<close>

definition header_ok :: "('p \<Rightarrow> 'p option) \<Rightarrow> 'p Header \<Rightarrow> bool" where
  "header_ok n h \<longleftrightarrow> (let xs = header_objs n h in
     xs \<noteq> [] \<and> lseg n (h_head h) xs None \<and> h_tail h = Some (last xs) \<and> h_gcnum h = length xs)"

definition pool_inv :: "'p OBJPool \<Rightarrow> bool" where
  "pool_inv P \<longleftrightarrow>
     (\<forall>h \<in> set (gclists P). header_ok (onext P) h) \<and>
     lseg (onext P) (freelist P) (free_objs P) None \<and> freenum P = length (free_objs P) \<and>
     distinct (pending_objs P @ free_objs P) \<and>
     curlist P = (if gclists P = [] then None else Some (length (gclists P) - 1))"

lemma header_okI:
  assumes "lseg n (h_head h) xs None" and "xs \<noteq> []" and "h_tail h = Some (last xs)"
    and "h_gcnum h = length xs"
  shows "header_ok n h" and "header_objs n h = xs"
  using assms header_objs_lseg [OF assms(1,4)] by (auto simp: header_ok_def Let_def)

lemma header_ok_lseg: "header_ok n h \<Longrightarrow> lseg n (h_head h) (header_objs n h) None"
  by (simp add: header_ok_def Let_def)

lemma header_upd_other:
  assumes "header_ok n h" and "x \<notin> set (header_objs n h)"
  shows "header_ok (n(x := v)) h" and "header_objs (n(x := v)) h = header_objs n h"
  using header_okI [of "n(x := v)" h "header_objs n h"] assms
  by (auto simp: header_ok_def Let_def)

lemma headers_upd_other:
  assumes "\<forall>h \<in> set hs. header_ok n h" and "x \<notin> set (concat (map (header_objs n) hs))"
  shows "(\<forall>h \<in> set hs. header_ok (n(x := v)) h)"
    and "concat (map (header_objs (n(x := v))) hs) = concat (map (header_objs n) hs)"
  using assms by (induction hs) (auto simp: header_upd_other)

lemma free_objsI:
  "lseg (onext P) (freelist P) xs None \<Longrightarrow> freenum P = length xs \<Longrightarrow> free_objs P = xs"
  by (simp add: free_objs_def chain_lseg)

lemma pool_inv_distinct: "pool_inv P \<Longrightarrow> distinct (pending_objs P @ free_objs P)"
  by (simp add: pool_inv_def)

lemma pool_inv_new: "pool_inv OBJPool_new"
  by (simp add: pool_inv_def OBJPool_new_def free_objs_def pending_objs_def)

section \<open>The operations\<close>

lemma GetFreeObj_empty: "pool_inv P \<Longrightarrow> free_objs P = [] \<Longrightarrow> GetFreeObj P = (None, P)"
  by (simp add: pool_inv_def GetFreeObj_def)

lemma GetFreeObj_Cons:
  assumes inv: "pool_inv P" and fr: "free_objs P = x # xs"
  obtains P' where "GetFreeObj P = (Some x, P')" and "pool_inv P'" and "free_objs P' = xs"
    and "pending_objs P' = pending_objs P"
proof -
  let ?n = "(onext P)(x := None)"
  let ?P = "P\<lparr>freelist := onext P x, freenum := freenum P - 1, onext := ?n\<rparr>"
  from inv fr have l: "freelist P = Some x" "lseg (onext P) (onext P x) xs None"
    and num: "freenum P = Suc (length xs)"
    and dis: "distinct (pending_objs P @ x # xs)"
    and hs: "\<forall>h \<in> set (gclists P). header_ok (onext P) h"
    by (auto simp: pool_inv_def)
  from dis have nin: "x \<notin> set (concat (map (header_objs (onext P)) (gclists P)))" "x \<notin> set xs"
    by (auto simp: pending_objs_def)
  have pend: "pending_objs ?P = pending_objs P"
    using headers_upd_other [OF hs nin(1), of None] by (simp add: pending_objs_def)
  have fo: "free_objs ?P = xs"
    by (rule free_objsI) (use l nin num in auto)
  have "pool_inv ?P"
    unfolding pool_inv_def fo pend
    using headers_upd_other(1) [OF hs nin(1)] l nin num dis inv by (auto simp: pool_inv_def)
  moreover have "GetFreeObj P = (Some x, ?P)"
    using l num by (simp add: GetFreeObj_def Let_def)
  ultimately show thesis using pend fo that by blast
qed

text \<open>The part of the invariant that allocation needs: only the free list.\<close>

definition free_inv :: "'p OBJPool \<Rightarrow> bool" where
  "free_inv P \<longleftrightarrow> lseg (onext P) (freelist P) (free_objs P) None \<and> freenum P = length (free_objs P)
     \<and> distinct (free_objs P)"

lemma pool_inv_free_inv: "pool_inv P \<Longrightarrow> free_inv P"
  by (simp add: pool_inv_def free_inv_def)

lemma free_inv_Nil: "free_inv P \<Longrightarrow> free_objs P = [] \<Longrightarrow> GetFreeObj P = (None, P)"
  by (simp add: free_inv_def GetFreeObj_def)

lemma free_inv_Cons:
  assumes inv: "free_inv P" and fr: "free_objs P = x # xs"
  obtains P' where "GetFreeObj P = (Some x, P')" and "free_inv P'" and "free_objs P' = xs" and "x \<notin> set xs"
proof -
  let ?P = "P\<lparr>freelist := onext P x, freenum := freenum P - 1, onext := (onext P)(x := None)\<rparr>"
  from inv fr have l: "freelist P = Some x" "lseg (onext P) (onext P x) xs None"
    and num: "freenum P = Suc (length xs)" and dis: "distinct xs" "x \<notin> set xs"
    by (auto simp: free_inv_def)
  have fo: "free_objs ?P = xs" by (rule free_objsI) (use l dis num in auto)
  have "free_inv ?P" unfolding free_inv_def fo using l dis num by auto
  moreover have "GetFreeObj P = (Some x, ?P)" using l num by (simp add: GetFreeObj_def Let_def)
  ultimately show thesis using fo dis that by blast
qed

lemma AddGCObj_free:
  assumes inv: "free_inv P" and new: "ob \<notin> set (free_objs P)"
  shows "free_inv (AddGCObj ob sn P)" and "free_objs (AddGCObj ob sn P) = free_objs P"
proof -
  let ?P = "AddGCObj_header sn P"
  have H: "freelist ?P = freelist P" "freenum ?P = freenum P" "onext ?P = onext P"
    by (auto simp: AddGCObj_header_def split: option.splits)
  have A: "freelist (AddGCObj ob sn P) = freelist P" "freenum (AddGCObj ob sn P) = freenum P"
      "onext (AddGCObj ob sn P) = (onext P)(ob := h_head (gclists ?P ! the (curlist ?P)))"
    by (simp_all add: AddGCObj_def H Let_def)
  show fo: "free_objs (AddGCObj ob sn P) = free_objs P"
    by (rule free_objsI) (use inv new in \<open>auto simp: A free_inv_def\<close>)
  show "free_inv (AddGCObj ob sn P)"
    unfolding free_inv_def fo using inv new by (auto simp: A free_inv_def)
qed

lemma AddGCObj_header_split:
  assumes "pool_inv P"
  obtains hs h where "gclists (AddGCObj_header sn P) = hs @ [h]"
    and "curlist (AddGCObj_header sn P) = Some (length hs)"
    and "\<forall>g \<in> set hs. header_ok (onext P) g" and "header_ok (onext P) h \<or> h = Header_new sn"
    and "concat (map (header_objs (onext P)) (hs @ [h])) = pending_objs P"
    and "h_sn h = sn"
    and "AddGCObj_header sn P = P\<lparr>gclists := hs @ [h], curlist := Some (length hs)\<rparr>"
proof (cases "gclists P = []")
  case True
  with assms have "curlist P = None" by (simp add: pool_inv_def)
  with True show thesis
    by (intro that [of "[]" "Header_new sn"])
       (auto simp: AddGCObj_header_def Header_new_def pending_objs_def header_objs_def)
next
  case False
  then obtain hs h where g: "gclists P = hs @ [h]" by (metis rev_exhaust)
  with assms have c: "curlist P = Some (length hs)" and ok: "\<forall>g \<in> set (hs @ [h]). header_ok (onext P) g"
    by (auto simp: pool_inv_def)
  show thesis
  proof (cases "h_sn h = sn")
    case True
    with g c ok show thesis
      by (intro that [of hs h]) (auto simp: AddGCObj_header_def pending_objs_def)
  next
    case False
    with g c ok show thesis
      by (intro that [of "hs @ [h]" "Header_new sn"])
         (auto simp: AddGCObj_header_def pending_objs_def header_objs_def Header_new_def)
  qed
qed

lemma Header_push_ok:
  assumes "header_ok n h \<or> h = Header_new sn" and "ob \<notin> set (header_objs n h)"
  shows "header_ok (n(ob := h_head h)) (Header_push ob h)"
    and "header_objs (n(ob := h_head h)) (Header_push ob h) = ob # header_objs n h"
proof -
  let ?n = "n(ob := h_head h)" and ?h = "Header_push ob h" and ?xs = "header_objs n h"
  from assms(1) have l: "lseg n (h_head h) ?xs None"
    and t: "h_tail h = (if ?xs = [] then None else Some (last ?xs))" and g: "h_gcnum h = length ?xs"
    by (auto simp: header_ok_def Header_new_def header_objs_def Let_def)
  have 1: "lseg ?n (h_head ?h) (ob # ?xs) None"
    using l assms(2) by (simp add: Header_push_def)
  have 2: "h_tail ?h = Some (last (ob # ?xs))" and 3: "h_gcnum ?h = length (ob # ?xs)"
    using t g by (auto simp: Header_push_def)
  show "header_ok ?n ?h" and "header_objs ?n ?h = ob # ?xs"
    using header_okI [OF 1 _ 2 3] by auto
qed

lemma AddGCObj_correct:
  assumes inv: "pool_inv P" and new: "ob \<notin> set (pending_objs P @ free_objs P)"
  shows "pool_inv (AddGCObj ob sn P)" and "free_objs (AddGCObj ob sn P) = free_objs P"
    and "set (pending_objs (AddGCObj ob sn P)) = insert ob (set (pending_objs P))"
proof -
  obtain hs h where P1: "AddGCObj_header sn P = P\<lparr>gclists := hs @ [h], curlist := Some (length hs)\<rparr>"
    and hs: "\<forall>g \<in> set hs. header_ok (onext P) g" and h: "header_ok (onext P) h \<or> h = Header_new sn"
    and pend: "concat (map (header_objs (onext P)) (hs @ [h])) = pending_objs P"
    by (rule AddGCObj_header_split [OF inv, of sn])
  let ?n = "(onext P)(ob := h_head h)" and ?h = "Header_push ob h"
  have A: "AddGCObj ob sn P =
      P\<lparr>gclists := hs @ [?h], curlist := Some (length hs), onext := ?n\<rparr>"
    by (simp add: AddGCObj_def P1 Let_def)
  from pend new have nin: "ob \<notin> set (header_objs (onext P) h)"
      "ob \<notin> set (concat (map (header_objs (onext P)) hs))" "ob \<notin> set (free_objs P)"
    by (auto simp flip: pend)
  note hs' = headers_upd_other [OF hs nin(2), of "h_head h"]
  note h' = Header_push_ok [OF h nin(1)]
  have pend': "pending_objs (AddGCObj ob sn P)
      = concat (map (header_objs (onext P)) hs) @ ob # header_objs (onext P) h"
    using hs'(2) h'(2) by (simp add: A pending_objs_def)
  show fo: "free_objs (AddGCObj ob sn P) = free_objs P"
    by (rule free_objsI) (use inv nin in \<open>auto simp: A pool_inv_def\<close>)
  show set': "set (pending_objs (AddGCObj ob sn P)) = insert ob (set (pending_objs P))"
    by (auto simp: pend' simp flip: pend)
  have "distinct (pending_objs (AddGCObj ob sn P) @ free_objs P)"
    using inv new unfolding pool_inv_def pend' by (auto simp flip: pend)
  then show "pool_inv (AddGCObj ob sn P)"
    using inv hs'(1) h'(1) nin(3) unfolding pool_inv_def fo by (auto simp: A)
qed

lemma GC_loop_correct:
  assumes "\<forall>h \<in> set hs. header_ok (onext P) h"
    and "lseg (onext P) (freelist P) (free_objs P) None" and "freenum P = length (free_objs P)"
    and "distinct (concat (map (header_objs (onext P)) hs) @ free_objs P)"
    and "curlist P = (if hs = [] then None else Some (length hs - 1))"
  shows "pool_inv (OBJPool_GC_loop hs P) \<and> pending_objs (OBJPool_GC_loop hs P) = []
    \<and> free_objs (OBJPool_GC_loop hs P)
      = concat (map (header_objs (onext P)) (rev hs)) @ free_objs P"
  using assms
proof (induction hs arbitrary: P)
  case Nil
  moreover have "free_objs (P\<lparr>gclists := []\<rparr>) = free_objs P" by (simp add: free_objs_def)
  ultimately show ?case by (simp add: pool_inv_def pending_objs_def)
next
  case (Cons h hs)
  let ?xs = "header_objs (onext P) h"
  let ?n = "(onext P)(last ?xs := freelist P)"
  let ?P = "P\<lparr>gclists := hs, curlist := (if hs = [] then None else Some (length hs - 1)),
               onext := ?n, freelist := h_head h, freenum := freenum P + h_gcnum h\<rparr>"
  from Cons.prems(1) have ok: "?xs \<noteq> []" "lseg (onext P) (h_head h) ?xs None"
      "h_tail h = Some (last ?xs)" "h_gcnum h = length ?xs"
    by (auto simp: header_ok_def Let_def)
  from ok(1) have l: "last ?xs \<in> set ?xs" by simp
  have c: "(case curlist P of Some (Suc i) \<Rightarrow> Some i | _ \<Rightarrow> None)
      = (if hs = [] then None else Some (length hs - 1))"
    using Cons.prems(5) by (cases hs) simp_all
  have P': "GCList h (P\<lparr>gclists := hs, curlist := (case curlist P of Some (Suc i) \<Rightarrow> Some i | _ \<Rightarrow> None)\<rparr>) = ?P"
    unfolding c GCList_def using ok(3) by simp
  from Cons.prems(1,4) l have hs: "\<forall>g \<in> set hs. header_ok (onext P) g"
      "last ?xs \<notin> set (concat (map (header_objs (onext P)) hs))" "last ?xs \<notin> set (free_objs P)"
    by auto
  note hs' = headers_upd_other [OF hs(1,2), of "freelist P"]
  have seg: "lseg ?n (h_head h) (?xs @ free_objs P) None"
    by (rule lseg_splice) (use ok Cons.prems hs(3) in auto)
  have fo: "free_objs ?P = ?xs @ free_objs P"
    by (rule free_objsI) (use seg ok(4) Cons.prems(3) in auto)
  have "pool_inv (OBJPool_GC_loop hs ?P) \<and> pending_objs (OBJPool_GC_loop hs ?P) = []
    \<and> free_objs (OBJPool_GC_loop hs ?P) = concat (map (header_objs (onext ?P)) (rev hs)) @ free_objs ?P"
  proof (rule Cons.IH)
    have n: "onext ?P = ?n" by simp
    show "\<forall>h \<in> set hs. header_ok (onext ?P) h" unfolding n by (rule hs'(1))
    show "lseg (onext ?P) (freelist ?P) (free_objs ?P) None" using seg unfolding fo by simp
    show "freenum ?P = length (free_objs ?P)" using ok(4) Cons.prems(3) unfolding fo by simp
    show "distinct (concat (map (header_objs (onext ?P)) hs) @ free_objs ?P)"
      using Cons.prems(4) unfolding n hs'(2) fo by auto
  qed simp
  moreover have "concat (map (header_objs (onext ?P)) (rev hs)) = concat (map (header_objs (onext P)) (rev hs))"
    using headers_upd_other(2) [of "rev hs" "onext P" "last ?xs" "freelist P"] hs by simp
  ultimately show ?case using P' fo by simp
qed

lemma GC_correct:
  assumes "pool_inv P"
  shows "pool_inv (OBJPool_GC s P)" and "pending_objs (OBJPool_GC s P) = []"
    and "set (free_objs (OBJPool_GC s P)) = set (pending_objs P) \<union> set (free_objs P)"
proof -
  have *: "pool_inv (OBJPool_GC s P) \<and> pending_objs (OBJPool_GC s P) = []
    \<and> free_objs (OBJPool_GC s P) = concat (map (header_objs (onext P)) (rev (gclists P))) @ free_objs P"
  proof (cases "gclists P = []")
    case True
    with assms show ?thesis by (simp add: OBJPool_GC_def pending_objs_def)
  next
    case False
    then show ?thesis
      using GC_loop_correct [of "gclists P" P] assms
      by (auto simp: OBJPool_GC_def pool_inv_def pending_objs_def)
  qed
  show "pool_inv (OBJPool_GC s P)" "pending_objs (OBJPool_GC s P) = []"
    "set (free_objs (OBJPool_GC s P)) = set (pending_objs P) \<union> set (free_objs P)"
    using * by (auto simp: pending_objs_def)
qed

section \<open>The interface of a recycler\<close>

text \<open>
  What the transaction code relies on: retired objects are pending until a collection, only then
  free, and a free object is handed out once. \<open>pool_run\<close> runs a sequence of retirements and
  allocations and lists the objects handed out.
\<close>

datatype 'p pool_op = Retire 'p u64 | Alloc

fun pool_run :: "('p \<Rightarrow> u64 \<Rightarrow> 'q \<Rightarrow> 'q) \<Rightarrow> ('q \<Rightarrow> 'p option \<times> 'q) \<Rightarrow> 'p pool_op list \<Rightarrow> 'q \<Rightarrow> 'p list \<times> 'q" where
  "pool_run add get [] P = ([], P)"
| "pool_run add get (Retire ob sn # ops) P = pool_run add get ops (add ob sn P)"
| "pool_run add get (Alloc # ops) P =
     (case get P of (res, P1) \<Rightarrow>
      case pool_run add get ops P1 of (outs, P2) \<Rightarrow> ((case res of None \<Rightarrow> outs | Some x \<Rightarrow> x # outs), P2))"

text \<open>Objects are retired only while they are outside the pool.\<close>

fun retire_ok :: "('p \<Rightarrow> u64 \<Rightarrow> 'q \<Rightarrow> 'q) \<Rightarrow> ('q \<Rightarrow> 'p option \<times> 'q) \<Rightarrow> ('q \<Rightarrow> 'p list) \<Rightarrow> 'p pool_op list \<Rightarrow> 'q \<Rightarrow> bool" where
  "retire_ok add get objs [] P = True"
| "retire_ok add get objs (Retire ob sn # ops) P \<longleftrightarrow>
     ob \<notin> set (objs P) \<and> retire_ok add get objs ops (add ob sn P)"
| "retire_ok add get objs (Alloc # ops) P \<longleftrightarrow> retire_ok add get objs ops (snd (get P))"

locale recycler =
  fixes add :: "'p \<Rightarrow> u64 \<Rightarrow> 'q \<Rightarrow> 'q" and get :: "'q \<Rightarrow> 'p option \<times> 'q" and collect :: "u64 \<Rightarrow> 'q \<Rightarrow> 'q"
    and pending :: "'q \<Rightarrow> 'p list" and free :: "'q \<Rightarrow> 'p list" and inv :: "'q \<Rightarrow> bool"
  assumes disjoint: "inv P \<Longrightarrow> distinct (pending P @ free P)"
    and add_inv: "inv P \<Longrightarrow> ob \<notin> set (pending P @ free P) \<Longrightarrow> inv (add ob sn P)"
    and add_free: "inv P \<Longrightarrow> ob \<notin> set (pending P @ free P) \<Longrightarrow> free (add ob sn P) = free P"
    and add_pending: "inv P \<Longrightarrow> ob \<notin> set (pending P @ free P) \<Longrightarrow>
          set (pending (add ob sn P)) = insert ob (set (pending P))"
    and get_None: "inv P \<Longrightarrow> free P = [] \<Longrightarrow> get P = (None, P)"
    and get_Some: "inv P \<Longrightarrow> free P = x # xs \<Longrightarrow>
          \<exists>P'. get P = (Some x, P') \<and> inv P' \<and> free P' = xs \<and> pending P' = pending P"
    and collect_inv: "inv P \<Longrightarrow> inv (collect s P)"
    and collect_pending: "inv P \<Longrightarrow> pending (collect s P) = []"
    and collect_free: "inv P \<Longrightarrow> set (free (collect s P)) = set (pending P) \<union> set (free P)"
begin

lemma run_takes_free:
  assumes "inv P" and "retire_ok add get (\<lambda>P. pending P @ free P) ops P"
    and "pool_run add get ops P = (outs, P')"
  shows "inv P' \<and> free P = outs @ free P' \<and> set (pending P) \<subseteq> set (pending P')"
  using assms
proof (induction ops arbitrary: P outs)
  case Nil
  then show ?case by simp
next
  case (Cons op ops)
  show ?case
  proof (cases op)
    case (Retire ob sn)
    with Cons.prems have nin: "ob \<notin> set (pending P @ free P)" by auto
    with Cons.prems Retire have "inv P' \<and> free (add ob sn P) = outs @ free P'
        \<and> set (pending (add ob sn P)) \<subseteq> set (pending P')"
      by (intro Cons.IH) (auto intro: add_inv)
    with nin Cons.prems(1) show ?thesis by (auto simp: add_free add_pending)
  next
    case Alloc
    show ?thesis
    proof (cases "free P")
      case Nil
      with Cons.prems Alloc have "pool_run add get ops P = (outs, P')"
        and "retire_ok add get (\<lambda>P. pending P @ free P) ops P"
        by (auto simp: get_None split: prod.splits)
      with Cons.IH [OF Cons.prems(1)] show ?thesis by blast
    next
      case (Cons x xs)
      then obtain P1 where g: "get P = (Some x, P1)" "inv P1" "free P1 = xs" "pending P1 = pending P"
        using get_Some Cons.prems(1) by blast
      obtain outs1 where o1: "pool_run add get ops P1 = (outs1, P')" and "outs = x # outs1"
        using Cons.prems(3) Alloc g(1) by (auto split: prod.splits)
      moreover have "inv P' \<and> free P1 = outs1 @ free P' \<and> set (pending P1) \<subseteq> set (pending P')"
        using Cons.prems(2) Alloc g o1 by (intro Cons.IH) auto
      ultimately show ?thesis using g Cons by auto
    qed
  qed
qed

lemma no_reuse_before_collect:
  assumes "inv P" and "retire_ok add get (\<lambda>P. pending P @ free P) ops P"
    and "pool_run add get ops P = (outs, P')"
  shows "distinct outs \<and> set outs \<subseteq> set (free P) \<and> set outs \<inter> set (pending P) = {}
    \<and> set (pending P) \<subseteq> set (pending P')"
  using run_takes_free [OF assms] disjoint [OF assms(1)] by auto

end

interpretation objpool: recycler AddGCObj GetFreeObj OBJPool_GC pending_objs free_objs pool_inv
proof unfold_locales
  fix P :: "'p OBJPool" and x :: 'p and xs
  assume "pool_inv P" and "free_objs P = x # xs"
  then show "\<exists>P'. GetFreeObj P = (Some x, P') \<and> pool_inv P' \<and> free_objs P' = xs
      \<and> pending_objs P' = pending_objs P"
    by (metis GetFreeObj_Cons)
qed (fact pool_inv_distinct AddGCObj_correct GetFreeObj_empty GC_correct)+

section \<open>Properties\<close>

text \<open>
  C7. The pointer operations of a pool implement an abstract recycler with a set of pending objects
  and a list of free ones. Retiring an object adds it to the pending ones, a collection makes every
  pending object free and forgets no free one, and an allocation takes the first free object and
  returns NULL exactly when none is free; the invariant that no object is linked twice is kept.
\<close>

theorem OBJPool_refines_recycler:
  assumes "pool_inv P"
  shows "(ob \<notin> set (pending_objs P @ free_objs P) \<longrightarrow>
      pool_inv (AddGCObj ob sn P) \<and> free_objs (AddGCObj ob sn P) = free_objs P
      \<and> set (pending_objs (AddGCObj ob sn P)) = insert ob (set (pending_objs P)))
    \<and> (pool_inv (OBJPool_GC s P) \<and> pending_objs (OBJPool_GC s P) = []
      \<and> set (free_objs (OBJPool_GC s P)) = set (pending_objs P) \<union> set (free_objs P))
    \<and> (case GetFreeObj P of
        (None, P') \<Rightarrow> free_objs P = [] \<and> P' = P
      | (Some x, P') \<Rightarrow> pool_inv P' \<and> free_objs P = x # free_objs P' \<and> pending_objs P' = pending_objs P)"
    (is "?add \<and> ?gc \<and> ?get")
proof (intro conjI)
  show ?add using assms by (simp add: AddGCObj_correct)
  show ?get
  proof (cases "free_objs P")
    case Nil
    with assms show ?thesis by (simp add: GetFreeObj_empty)
  next
    case (Cons x xs)
    with objpool.get_Some [OF assms] show ?thesis by fastforce
  qed
qed (use assms in \<open>simp_all add: GC_correct\<close>)

theorem OBJPool_refines_recycler_witness:
  "pool_inv (AddGCObj 7 0 (AddGCObj 3 0 OBJPool_new :: nat OBJPool))
   \<and> set (free_objs (OBJPool_GC 0 (AddGCObj 7 0 (AddGCObj 3 0 OBJPool_new)))) = {3, 7 :: nat}"
proof -
  let ?P = "AddGCObj 3 0 OBJPool_new :: nat OBJPool"
  have n: "set (pending_objs (OBJPool_new :: nat OBJPool) @ free_objs OBJPool_new) = {}" by code_simp
  have p: "set (pending_objs ?P) = {3}" "free_objs ?P = []" by code_simp+
  have q: "pending_objs (AddGCObj 7 0 ?P) = [7, 3]" "free_objs (AddGCObj 7 0 ?P) = []" by code_simp+
  have i: "pool_inv ?P"
    using OBJPool_refines_recycler [OF pool_inv_new, of "3 :: nat" 0] n by auto
  have j: "pool_inv (AddGCObj 7 0 ?P)"
    using OBJPool_refines_recycler [OF i, of 7 0] p by auto
  show ?thesis
    using OBJPool_refines_recycler [OF j, of _ _ 0] j q by auto
qed

text \<open>
  C8. Between two collections a pool never hands out an object that was retired after the first
  of them: every object it returns was free at the start, it returns none twice, and everything
  pending stays pending.
\<close>

theorem OBJPool_no_reuse_before_GC:
  assumes "pool_inv P"
    and "retire_ok AddGCObj GetFreeObj (\<lambda>P. pending_objs P @ free_objs P) ops P"
    and "pool_run AddGCObj GetFreeObj ops P = (outs, P')"
  shows "distinct outs \<and> set outs \<subseteq> set (free_objs P) \<and> set outs \<inter> set (pending_objs P) = {}
    \<and> set (pending_objs P) \<subseteq> set (pending_objs P')"
  using assms by (rule objpool.no_reuse_before_collect)

theorem OBJPool_no_reuse_before_GC_witness:
  "\<exists>outs P'. pool_run AddGCObj GetFreeObj [Retire 5 0, Alloc, Retire 3 1, Alloc, Alloc]
      (OBJPool_GC 0 (AddGCObj 3 0 OBJPool_new :: nat OBJPool)) = (outs, P') \<and> outs = [3] \<and> distinct outs"
proof -
  let ?P = "OBJPool_GC 0 (AddGCObj 3 0 OBJPool_new :: nat OBJPool)"
  let ?ops = "[Retire 5 0, Alloc, Retire 3 1, Alloc, Alloc] :: nat pool_op list"
  have "pool_inv (AddGCObj (3::nat) 0 OBJPool_new)"
    by (rule AddGCObj_correct(1) [OF pool_inv_new]) code_simp
  then have i: "pool_inv ?P" by (rule GC_correct(1))
  have r: "retire_ok AddGCObj GetFreeObj (\<lambda>P. pending_objs P @ free_objs P) ?ops ?P" by code_simp
  have o: "fst (pool_run AddGCObj GetFreeObj ?ops ?P) = [3]" by code_simp
  obtain outs P' where run: "pool_run AddGCObj GetFreeObj ?ops ?P = (outs, P')" by fastforce
  show ?thesis
    using OBJPool_no_reuse_before_GC [OF i r run] run o by auto
qed

end
