(* ===== verification/Mem_Store.thy ===== *)
theory Mem_Store
  imports Prelude
begin

text \<open>
  \<^verbatim>\<open>memstore/memstore.h\<close>: the memory nodes that hold a record's current version, the heap they live
  in, and the interface of the ordered index (\<open>Memstore\<close>) that maps keys to nodes.

  The trees the program runs on (\<^verbatim>\<open>libmemstore_eunotree.a\<close>, \<^verbatim>\<open>libmemstore_bplustree.a\<close>) come as
  binaries, so the index is a parameter of everything built on it: \<open>'ix\<close> is its state, and the
  locale \<open>memstore\<close> states what the transaction code needs of \<open>GetWithInsert\<close>, \<open>Get\<close> and
  \<open>GetWithDelete\<close>. The theory \<open>Skip_List\<close> interprets it on the skip list of the repository.
\<close>

section \<open>Memory nodes and their heap\<close>

definition LOGICALDELETE :: vptr where
  "LOGICALDELETE = 0"

definition HAVEREMOVED :: vptr where
  "HAVEREMOVED = - 1"

record MemNode =
  mn_seq :: u64
  mn_counter :: u64
  mn_value :: vptr
  mn_oldVersions :: nptr
  mn_gcRef :: u32

definition MemNode_new :: MemNode where
  "MemNode_new = \<lparr>mn_seq = 0, mn_counter = 0, mn_value = 0, mn_oldVersions = NULLP, mn_gcRef = 0\<rparr>"

text \<open>
  Addresses of 64-bit words that a read set may point at: the sequence number of a node, or any
  other word (the sequence number of a secondary-index entry, the link word of a tree leaf).
\<close>

datatype addr = NullAddr | SeqOf nptr | WordAt nat

text \<open>
  The heap. Nodes at addresses \<open>1 ..< brk\<close> are allocated; \<open>words\<close> are the other words. An
  allocation returns the next address, which no live pointer equals.
\<close>

record mem =
  nodes :: "nptr \<Rightarrow> MemNode"
  brk :: nat
  words :: "nat \<Rightarrow> u64"

definition load :: "mem \<Rightarrow> addr \<Rightarrow> fault + u64" where
  "load m a = (case a of NullAddr \<Rightarrow> Inl NullDeref | SeqOf p \<Rightarrow> Inr (mn_seq (nodes m p))
                | WordAt w \<Rightarrow> Inr (words m w))"

definition upd_node :: "nptr \<Rightarrow> (MemNode \<Rightarrow> MemNode) \<Rightarrow> mem \<Rightarrow> mem" where
  "upd_node p f m = m\<lparr>nodes := (nodes m)(p := f (nodes m p))\<rparr>"

definition GetMemNode :: "mem \<Rightarrow> nptr \<times> mem" where
  "GetMemNode m = (brk m, m\<lparr>nodes := (nodes m)(brk m := MemNode_new), brk := Suc (brk m)\<rparr>)"

definition ValidateValue :: "vptr \<Rightarrow> bool" where
  "ValidateValue v \<longleftrightarrow> v \<noteq> LOGICALDELETE \<and> v \<noteq> HAVEREMOVED"

lemma upd_node_same [simp, heap_simps]: "nodes (upd_node p f m) p = f (nodes m p)"
  by (simp add: upd_node_def)

lemma upd_node_other [simp, heap_simps]: "q \<noteq> p \<Longrightarrow> nodes (upd_node p f m) q = nodes m q"
  by (simp add: upd_node_def)

lemma upd_node_frame [simp, heap_simps]:
  "brk (upd_node p f m) = brk m" "words (upd_node p f m) = words m"
  by (simp_all add: upd_node_def)

lemma nodes_upd_node: "nodes (upd_node p f m) q = (if q = p then f (nodes m p) else nodes m q)"
  by simp

lemma LD_neq_HR [simp]: "LOGICALDELETE \<noteq> HAVEREMOVED" "HAVEREMOVED \<noteq> LOGICALDELETE"
  by (simp_all add: LOGICALDELETE_def HAVEREMOVED_def)

section \<open>The interface of an index\<close>

text \<open>
  The base class leaves \<open>GetWithDelete\<close> as \<^verbatim>\<open>assert(0)\<close>. The classes of the repository (skip list,
  and the declarations of both trees) do not override it.
\<close>

definition Memstore_GetWithDelete :: "u64 \<Rightarrow> 'ix \<times> mem \<Rightarrow> fault + (nptr \<times> 'ix \<times> mem)" where
  "Memstore_GetWithDelete k s = Inl AssertFail"

text \<open>Nothing but fresh nodes differs between two heaps, and those are as the constructor leaves them.\<close>

definition extends :: "mem \<Rightarrow> mem \<Rightarrow> bool" where
  "extends m m' \<longleftrightarrow> brk m \<le> brk m' \<and> (\<forall>q < brk m. nodes m' q = nodes m q) \<and> words m' = words m
     \<and> (\<forall>q. brk m \<le> q \<and> q < brk m' \<longrightarrow> nodes m' q = MemNode_new)"

lemma extends_refl [simp]: "extends m m"
  by (auto simp: extends_def)

lemma extends_trans [trans]:
  assumes "extends a b" and "extends b c"
  shows "extends a c"
proof -
  have "nodes c q = MemNode_new" if "brk a \<le> q" "q < brk c" for q
    using assms that by (cases "q < brk b") (auto simp: extends_def)
  then show ?thesis using assms by (auto simp: extends_def)
qed

lemma extends_GetMemNode: "extends m (snd (GetMemNode m))"
  by (auto simp: extends_def GetMemNode_def)

text \<open>
  \<open>look\<close> is the mapping an index state represents. \<open>GetWithInsert\<close> returns the node of a key and
  creates a new empty one where there is none; \<open>GetWithDelete\<close>, where it returns, unlinks the
  node of the key and returns it. Neither changes a node.
\<close>

locale memstore =
  fixes getins :: "u64 \<Rightarrow> 'ix \<times> mem \<Rightarrow> nptr \<times> 'ix \<times> mem"
    and getk :: "u64 \<Rightarrow> 'ix \<Rightarrow> nptr"
    and getdel :: "u64 \<Rightarrow> 'ix \<times> mem \<Rightarrow> fault + (nptr \<times> 'ix \<times> mem)"
    and look :: "'ix \<Rightarrow> u64 \<Rightarrow> nptr option"
    and inv :: "'ix \<Rightarrow> nat \<Rightarrow> bool"
  assumes look_range: "inv ix b \<Longrightarrow> look ix k = Some p \<Longrightarrow> 0 < p \<and> p < b"
    and look_inj: "inv ix b \<Longrightarrow> look ix k = Some p \<Longrightarrow> look ix k' = Some p \<Longrightarrow> k = k'"
    and inv_mono: "inv ix b \<Longrightarrow> b \<le> b' \<Longrightarrow> inv ix b'"
    and getk_look: "inv ix b \<Longrightarrow> getk k ix = (case look ix k of None \<Rightarrow> NULLP | Some p \<Rightarrow> p)"
    and getins_inv: "inv ix (brk m) \<Longrightarrow> getins k (ix, m) = (p, ix', m') \<Longrightarrow> inv ix' (brk m')"
    and getins_extends: "inv ix (brk m) \<Longrightarrow> getins k (ix, m) = (p, ix', m') \<Longrightarrow> extends m m'"
    and getins_look: "inv ix (brk m) \<Longrightarrow> getins k (ix, m) = (p, ix', m') \<Longrightarrow>
          look ix' = (look ix)(k \<mapsto> p)"
    and getins_hit: "inv ix (brk m) \<Longrightarrow> getins k (ix, m) = (p, ix', m') \<Longrightarrow>
          look ix k = Some q \<Longrightarrow> p = q"
    and getins_miss: "inv ix (brk m) \<Longrightarrow> getins k (ix, m) = (p, ix', m') \<Longrightarrow>
          look ix k = None \<Longrightarrow> brk m \<le> p \<and> p < brk m'"
    and getdel_inv: "inv ix (brk m) \<Longrightarrow> getdel k (ix, m) = Inr (p, ix', m') \<Longrightarrow> inv ix' (brk m')"
    and getdel_extends: "inv ix (brk m) \<Longrightarrow> getdel k (ix, m) = Inr (p, ix', m') \<Longrightarrow> extends m m'"
    and getdel_look: "inv ix (brk m) \<Longrightarrow> getdel k (ix, m) = Inr (p, ix', m') \<Longrightarrow>
          look ix k = Some q \<Longrightarrow> p = q \<and> look ix' = (look ix)(k := None)"

section \<open>A reference index\<close>

text \<open>
  The plainest index that meets the contract, an association list from keys to nodes. It gives the
  examples of this development an index with a working \<open>GetWithDelete\<close>.
\<close>

type_synonym list_index = "(u64 \<times> nptr) list"

definition li_get :: "u64 \<Rightarrow> list_index \<Rightarrow> nptr" where
  "li_get k ix = (case map_of ix k of None \<Rightarrow> NULLP | Some p \<Rightarrow> p)"

definition li_getins :: "u64 \<Rightarrow> list_index \<times> mem \<Rightarrow> nptr \<times> list_index \<times> mem" where
  "li_getins k = (\<lambda>(ix, m).
     case map_of ix k of Some p \<Rightarrow> (p, ix, m)
     | None \<Rightarrow> (case GetMemNode m of (p, m') \<Rightarrow> (p, (k, p) # ix, m')))"

definition li_getdel :: "u64 \<Rightarrow> list_index \<times> mem \<Rightarrow> fault + (nptr \<times> list_index \<times> mem)" where
  "li_getdel k = (\<lambda>(ix, m). Inr (li_get k ix, filter (\<lambda>e. fst e \<noteq> k) ix, m))"

definition li_inv :: "list_index \<Rightarrow> nat \<Rightarrow> bool" where
  "li_inv ix b \<longleftrightarrow> 0 < b \<and> distinct (map fst ix) \<and> distinct (map snd ix) \<and> (\<forall>p \<in> set (map snd ix). 0 < p \<and> p < b)"

lemma li_map_of_inj:
  assumes "distinct (map snd ix)" and "map_of ix k = Some p" and "map_of ix k' = Some p"
  shows "k = k'"
proof -
  have "(k, p) \<in> set ix" "(k', p) \<in> set ix" using assms(2,3) by (auto dest: map_of_SomeD)
  moreover have "inj_on snd (set ix)" using assms(1) by (simp add: distinct_map)
  ultimately have "(k, p) = (k', p)" by (intro inj_onD [of snd "set ix"]) simp_all
  then show ?thesis by simp
qed

lemma map_of_filter_key: "map_of (filter (\<lambda>e. fst e \<noteq> k) ix) = (map_of ix)(k := None)"
  by (induction ix) (auto simp: fun_eq_iff)

lemma list_index_memstore: "memstore li_getins li_get li_getdel map_of li_inv"
proof
  fix ix b k p
  assume "li_inv ix b" and "map_of ix k = Some p"
  then show "0 < p \<and> p < b" by (auto simp: li_inv_def dest!: map_of_SomeD)
next
  fix ix b k k' p
  assume "li_inv ix b" and "map_of ix k = Some p" and "map_of ix k' = Some p"
  then show "k = k'" by (intro li_map_of_inj [of ix]) (simp_all add: li_inv_def)
next
  fix ix b b'
  assume "li_inv ix b" and "b \<le> b'"
  then show "li_inv ix b'" by (auto simp: li_inv_def)
next
  fix ix b k
  show "li_get k ix = (case map_of ix k of None \<Rightarrow> NULLP | Some p \<Rightarrow> p)" by (simp add: li_get_def)
next
  fix ix m k p ix' m'
  assume inv: "li_inv ix (brk m)" and get: "li_getins k (ix, m) = (p, ix', m')"
  show "li_inv ix' (brk m')"
  proof (cases "map_of ix k")
    case None
    then have "k \<notin> fst ` set ix" by (simp add: map_of_eq_None_iff)
    moreover have "brk m \<notin> snd ` set ix" using inv by (auto simp: li_inv_def)
    moreover have "p = brk m" "ix' = (k, p) # ix" "brk m' = Suc (brk m)"
      using get None by (auto simp: li_getins_def GetMemNode_def)
    moreover have "p < Suc (brk m)" if "p \<in> snd ` set ix" for p
      using inv that unfolding li_inv_def by (metis less_SucI list.set_map)
    ultimately show ?thesis using inv by (simp add: li_inv_def)
  qed (use inv get in \<open>simp add: li_getins_def\<close>)
  show "extends m m'"
    using get extends_GetMemNode [of m] by (auto simp: li_getins_def split: option.splits prod.splits)
  show "map_of ix' = (map_of ix)(k \<mapsto> p)"
    using get by (auto simp: li_getins_def fun_eq_iff split: option.splits prod.splits)
  show "map_of ix k = Some q \<Longrightarrow> p = q" for q
    using get by (auto simp: li_getins_def)
  show "map_of ix k = None \<Longrightarrow> brk m \<le> p \<and> p < brk m'"
    using get by (auto simp: li_getins_def GetMemNode_def)
next
  fix ix m k p ix' m'
  assume inv: "li_inv ix (brk m)" and get: "li_getdel k (ix, m) = Inr (p, ix', m')"
  then show "li_inv ix' (brk m')"
    by (auto simp: li_inv_def li_getdel_def distinct_map_filter)
  show "extends m m'" using get by (simp add: li_getdel_def)
  show "p = q \<and> map_of ix' = (map_of ix)(k := None)" if "map_of ix k = Some q" for q
    using get that by (auto simp: li_getdel_def li_get_def map_of_filter_key)
qed

end
