(* ===== verification/Tx_Sets.thy ===== *)
theory Tx_Sets
  imports Mem_Store Obj_Pool
begin

text \<open>
  The thread-local sets of a transaction: \<open>DBTX::ReadSet\<close> and \<open>DBTX::WriteSet\<close> (\<^verbatim>\<open>db/dbtx.h\<close>,
  \<^verbatim>\<open>db/dbtx.cc\<close>) and \<open>DELSet\<close> (\<^verbatim>\<open>db/delset.h\<close>, \<^verbatim>\<open>db/delset.cc\<close>). Arrays are lists of their allocated
  length with an element count beside them, as in the code; \<open>rs_entries\<close>, \<open>rs_links\<close>, \<open>ws_entries\<close> and
  \<open>ds_entries\<close> are the used prefixes. Slots past the count keep whatever an earlier transaction left.
  The build is the one of the Makefile and the header: asserts compiled out, no global lock
  (\<^verbatim>\<open>GLOBALOCK 0\<close>), no secondary index in transactions (\<^verbatim>\<open>USESECONDINDEX 0\<close>), \<^verbatim>\<open>PERSISTENT 0\<close>.
\<close>

section \<open>Read set\<close>

definition MAXSIZE :: nat where
  "MAXSIZE = 1024"

definition NO_CONFLICT :: int where
  "NO_CONFLICT = - 1"

record RSSeqPair =
  rs_seq :: u64
  rs_seqptr :: addr
  rs_label :: int

record RSSuccPair =
  rs_next :: u64
  rs_nextptr :: addr

record ReadSet =
  rs_max_length :: nat
  rs_elems :: nat
  rs_seqs :: "RSSeqPair list"
  rs_rangeElems :: nat
  rs_nexts :: "RSSuccPair list"

definition RSSeqPair_blank :: RSSeqPair where
  "RSSeqPair_blank = \<lparr>rs_seq = 0, rs_seqptr = NullAddr, rs_label = 0\<rparr>"

definition RSSuccPair_blank :: RSSuccPair where
  "RSSuccPair_blank = \<lparr>rs_next = 0, rs_nextptr = NullAddr\<rparr>"

definition ReadSet_alloc :: "nat \<Rightarrow> ReadSet" where
  "ReadSet_alloc n = \<lparr>rs_max_length = n, rs_elems = 0, rs_seqs = replicate n RSSeqPair_blank,
     rs_rangeElems = 0, rs_nexts = replicate n RSSuccPair_blank\<rparr>"

definition ReadSet_new :: ReadSet where
  "ReadSet_new = ReadSet_alloc MAXSIZE"

definition ReadSet_Reset :: "ReadSet \<Rightarrow> ReadSet" where
  "ReadSet_Reset rs = rs\<lparr>rs_elems := 0, rs_rangeElems := 0\<rparr>"

definition ReadSet_Resize :: "ReadSet \<Rightarrow> ReadSet" where
  "ReadSet_Resize rs =
     (let n = rs_max_length rs * 2 in
      rs\<lparr>rs_max_length := n,
         rs_seqs := take (rs_elems rs) (rs_seqs rs) @ replicate (n - rs_elems rs) RSSeqPair_blank,
         rs_nexts := take (rs_rangeElems rs) (rs_nexts rs)
                     @ replicate (n - rs_rangeElems rs) RSSuccPair_blank\<rparr>)"

definition ReadSet_AddNext :: "addr \<Rightarrow> u64 \<Rightarrow> ReadSet \<Rightarrow> ReadSet" where
  "ReadSet_AddNext ptr value rs0 =
     (let rs = (if rs_rangeElems rs0 = rs_max_length rs0 then ReadSet_Resize rs0 else rs0);
          cur = rs_rangeElems rs
      in rs\<lparr>rs_rangeElems := cur + 1,
            rs_nexts := (rs_nexts rs)[cur := \<lparr>rs_next = value, rs_nextptr = ptr\<rparr>]\<rparr>)"

definition ReadSet_Add :: "addr \<Rightarrow> int \<Rightarrow> mem \<Rightarrow> ReadSet \<Rightarrow> fault + ReadSet" where
  "ReadSet_Add ptr label m rs0 =
     (let rs = (if rs_elems rs0 = rs_max_length rs0 then ReadSet_Resize rs0 else rs0);
          cur = rs_elems rs
      in and_then (load m ptr) (\<lambda>v.
         Inr (rs\<lparr>rs_elems := cur + 1,
                 rs_seqs := (rs_seqs rs)[cur := \<lparr>rs_seq = v, rs_seqptr = ptr, rs_label = label\<rparr>]\<rparr>)))"

fun Validate_seqs :: "mem \<Rightarrow> RSSeqPair list \<Rightarrow> fault + int option" where
  "Validate_seqs m [] = Inr None"
| "Validate_seqs m (e # es) =
     and_then (load m (rs_seqptr e))
       (\<lambda>v. if rs_seq e \<noteq> v then Inr (Some (rs_label e)) else Validate_seqs m es)"

fun Validate_nexts :: "mem \<Rightarrow> RSSuccPair list \<Rightarrow> fault + int option" where
  "Validate_nexts m [] = Inr None"
| "Validate_nexts m (e # es) =
     and_then (load m (rs_nextptr e))
       (\<lambda>v. if rs_next e \<noteq> v then Inr (Some 0) else Validate_nexts m es)"

definition ReadSet_Validate :: "mem \<Rightarrow> ReadSet \<Rightarrow> fault + int" where
  "ReadSet_Validate m rs =
     and_then (Validate_seqs m (take (rs_elems rs) (rs_seqs rs))) (\<lambda>r1.
       case r1 of Some l \<Rightarrow> Inr l
       | None \<Rightarrow> and_then (Validate_nexts m (take (rs_rangeElems rs) (rs_nexts rs))) (\<lambda>r2.
           case r2 of Some l \<Rightarrow> Inr l | None \<Rightarrow> Inr NO_CONFLICT))"

definition rs_entries :: "ReadSet \<Rightarrow> RSSeqPair list" where
  "rs_entries rs = take (rs_elems rs) (rs_seqs rs)"

definition rs_links :: "ReadSet \<Rightarrow> RSSuccPair list" where
  "rs_links rs = take (rs_rangeElems rs) (rs_nexts rs)"

definition ReadSet_wf :: "ReadSet \<Rightarrow> bool" where
  "ReadSet_wf rs \<longleftrightarrow> 0 < rs_max_length rs
     \<and> length (rs_seqs rs) = rs_max_length rs \<and> length (rs_nexts rs) = rs_max_length rs
     \<and> rs_elems rs \<le> rs_max_length rs \<and> rs_rangeElems rs \<le> rs_max_length rs"

section \<open>Delete set\<close>

record DELElement =
  de_tableid :: nat
  de_key :: u64
  de_node :: nptr
  de_delay :: bool
  de_seq :: u64

record DELSet =
  ds_qsize :: nat
  ds_queue :: "DELElement list"
  ds_elems :: nat
  ds_delayNum :: nat

definition DELElement_blank :: DELElement where
  "DELElement_blank = \<lparr>de_tableid = 0, de_key = 0, de_node = NULLP, de_delay = False, de_seq = 0\<rparr>"

definition DELSet_new :: DELSet where
  "DELSet_new = \<lparr>ds_qsize = 64, ds_queue = replicate 64 DELElement_blank, ds_elems = 0, ds_delayNum = 0\<rparr>"

definition DELSet_Reset :: "DELSet \<Rightarrow> DELSet" where
  "DELSet_Reset d = d\<lparr>ds_elems := 0, ds_delayNum := 0\<rparr>"

definition DELSet_Add :: "nat \<Rightarrow> u64 \<Rightarrow> nptr \<Rightarrow> bool \<Rightarrow> mem \<Rightarrow> DELSet \<Rightarrow> fault + DELSet" where
  "DELSet_Add t k n delay m d =
     (if length (ds_queue d) \<le> ds_elems d then Inl OutOfBounds
      else let e = \<lparr>de_tableid = t, de_key = k, de_node = n, de_delay = delay,
                     de_seq = mn_seq (nodes m n) + 1\<rparr>;
               d' = d\<lparr>ds_queue := (ds_queue d)[ds_elems d := e],
                      ds_delayNum := (if delay then ds_delayNum d + 1 else ds_delayNum d),
                      ds_elems := ds_elems d + 1\<rparr>
           in if ds_elems d' = ds_qsize d' then Inl Exit else Inr d')"

definition ds_entries :: "DELSet \<Rightarrow> DELElement list" where
  "ds_entries d = take (ds_elems d) (ds_queue d)"

text \<open>
  \<open>getGCNodes\<close> and \<open>getDelayNodes\<close> hand over the nodes of the elements without and with the delay
  flag and clear their slots; an empty answer is NULL.
\<close>

fun getGCNodes_loop :: "DELElement list \<Rightarrow> nptr list \<times> DELElement list" where
  "getGCNodes_loop [] = ([], [])"
| "getGCNodes_loop (e # es) =
     (case getGCNodes_loop es of (ns, es') \<Rightarrow>
      if de_delay e then (ns, e # es') else (de_node e # ns, e\<lparr>de_node := NULLP\<rparr> # es'))"

definition getGCNodes :: "DELSet \<Rightarrow> nptr list option \<times> DELSet" where
  "getGCNodes d =
     (if ds_elems d - ds_delayNum d = 0 then (None, d)
      else case getGCNodes_loop (ds_entries d) of (ns, es) \<Rightarrow>
        (Some ns, d\<lparr>ds_queue := es @ drop (ds_elems d) (ds_queue d)\<rparr>))"

fun getDelayNodes_loop :: "DELElement list \<Rightarrow> (nat \<times> u64 \<times> nptr \<times> u64) list \<times> DELElement list" where
  "getDelayNodes_loop [] = ([], [])"
| "getDelayNodes_loop (e # es) =
     (case getDelayNodes_loop es of (ns, es') \<Rightarrow>
      if de_delay e
      then ((de_tableid e, de_key e, de_node e, de_seq e) # ns, e\<lparr>de_node := NULLP\<rparr> # es')
      else (ns, e # es'))"

definition getDelayNodes :: "DELSet \<Rightarrow> (nat \<times> u64 \<times> nptr \<times> u64) list option \<times> DELSet" where
  "getDelayNodes d =
     (if ds_delayNum d = 0 then (None, d)
      else case getDelayNodes_loop (ds_entries d) of (ns, es) \<Rightarrow>
        (Some ns, d\<lparr>ds_queue := es @ drop (ds_elems d) (ds_queue d)\<rparr>))"

definition DELSet_wf :: "DELSet \<Rightarrow> bool" where
  "DELSet_wf d \<longleftrightarrow> length (ds_queue d) = ds_qsize d \<and> ds_elems d < ds_qsize d
     \<and> ds_delayNum d = length (filter de_delay (ds_entries d))"

section \<open>Write set\<close>

record WSKV =
  kv_tableid :: nat
  kv_key :: u64
  kv_val :: vptr
  kv_commitval :: vptr
  kv_commitseq :: u64
  kv_node :: nptr
  kv_dummy :: nptr

record WriteSet =
  ws_max_length :: nat
  ws_elems :: nat
  ws_commitSN :: u64
  ws_kvs :: "WSKV list"

definition WSKV_blank :: WSKV where
  "WSKV_blank = \<lparr>kv_tableid = 0, kv_key = 0, kv_val = 0, kv_commitval = 0, kv_commitseq = 0,
     kv_node = NULLP, kv_dummy = NULLP\<rparr>"

definition WriteSet_alloc :: "nat \<Rightarrow> WriteSet" where
  "WriteSet_alloc n = \<lparr>ws_max_length = n, ws_elems = 0, ws_commitSN = 0, ws_kvs = replicate n WSKV_blank\<rparr>"

definition WriteSet_new :: WriteSet where
  "WriteSet_new = WriteSet_alloc MAXSIZE"

definition WriteSet_Resize :: "WriteSet \<Rightarrow> WriteSet" where
  "WriteSet_Resize w =
     (let n = ws_max_length w * 2 in
      w\<lparr>ws_max_length := n,
        ws_kvs := take (ws_elems w) (ws_kvs w) @ replicate (n - ws_elems w) WSKV_blank\<rparr>)"

definition WriteSet_Reset :: "WriteSet \<Rightarrow> WriteSet" where
  "WriteSet_Reset w = w\<lparr>ws_elems := 0, ws_commitSN := 0\<rparr>"

definition WriteSet_Add :: "nat \<Rightarrow> u64 \<Rightarrow> vptr \<Rightarrow> nptr \<Rightarrow> WriteSet \<Rightarrow> WriteSet" where
  "WriteSet_Add t k v n w0 =
     (let w = (if ws_elems w0 = ws_max_length w0 then WriteSet_Resize w0 else w0);
          cur = ws_elems w
      in w\<lparr>ws_elems := cur + 1,
           ws_kvs := (ws_kvs w)[cur := (ws_kvs w ! cur)\<lparr>kv_tableid := t, kv_key := k, kv_val := v,
                                                        kv_node := n, kv_dummy := NULLP\<rparr>]\<rparr>)"

fun Lookup_loop :: "nat \<Rightarrow> u64 \<Rightarrow> WSKV list \<Rightarrow> vptr option \<Rightarrow> vptr option" where
  "Lookup_loop t k [] res = res"
| "Lookup_loop t k (e # es) res =
     Lookup_loop t k es (if kv_tableid e = t \<and> kv_key e = k then Some (kv_val e) else res)"

definition WriteSet_Lookup :: "nat \<Rightarrow> u64 \<Rightarrow> WriteSet \<Rightarrow> vptr option" where
  "WriteSet_Lookup t k w = Lookup_loop t k (take (ws_elems w) (ws_kvs w)) None"

definition CheckWriteSet :: "mem \<Rightarrow> WriteSet \<Rightarrow> bool" where
  "CheckWriteSet m w \<longleftrightarrow>
     list_all (\<lambda>e. mn_value (nodes m (kv_node e)) \<noteq> HAVEREMOVED) (take (ws_elems w) (ws_kvs w))"

definition ws_entries :: "WriteSet \<Rightarrow> WSKV list" where
  "ws_entries w = take (ws_elems w) (ws_kvs w)"

definition WriteSet_wf :: "WriteSet \<Rightarrow> bool" where
  "WriteSet_wf w \<longleftrightarrow> 0 < ws_max_length w \<and> length (ws_kvs w) = ws_max_length w
     \<and> ws_elems w \<le> ws_max_length w"

subsection \<open>Installing the writes\<close>

text \<open>
  \<open>DBTables::GetMemNode\<close>: a node from the table's pool, reinitialised, or a new one.
\<close>

definition DBTables_GetMemNode :: "nat \<Rightarrow> mem \<times> nptr OBJPool list \<Rightarrow> nptr \<times> mem \<times> nptr OBJPool list" where
  "DBTables_GetMemNode t = (\<lambda>(m, ps).
     case GetFreeObj (ps ! t) of
       (None, P) \<Rightarrow> (case GetMemNode m of (n, m') \<Rightarrow> (n, m', ps[t := P]))
     | (Some n, P) \<Rightarrow> (n, upd_node n (\<lambda>_. MemNode_new) m, ps[t := P]))"

text \<open>
  One iteration of \<open>WriteSet::Write\<close>. The state is the heap, the transaction's delete set and the
  thread's node pools.
\<close>

type_synonym write_state = "mem \<times> DELSet \<times> nptr OBJPool list"

definition Write_elem :: "u64 \<Rightarrow> WSKV \<Rightarrow> write_state \<Rightarrow> fault + (WSKV \<times> write_state)" where
  "Write_elem gcounter e = (\<lambda>(m, d, ps).
     let n = kv_node e;
         m1 = (if mn_counter (nodes m n) = 0 then upd_node n (\<lambda>x. x\<lparr>mn_counter := gcounter\<rparr>) m else m);
         c = mn_counter (nodes m1 n);
         old = mn_value (nodes m1 n);
         del = (if kv_val e = LOGICALDELETE \<and> old \<noteq> LOGICALDELETE
                then DELSet_Add (kv_tableid e) (kv_key e) n True m1 d else Inr d)
     in if c = gcounter then
          and_then del (\<lambda>d1.
            let m2 = upd_node n (\<lambda>x. x\<lparr>mn_value := kv_val e, mn_seq := mn_seq x + 1\<rparr>) m1
            in Inr (e\<lparr>kv_commitval := kv_val e, kv_val := old, kv_commitseq := mn_seq (nodes m2 n)\<rparr>,
                    m2, d1, ps))
        else if c < gcounter then
          and_then del (\<lambda>d1.
            case DBTables_GetMemNode (kv_tableid e) (m1, ps) of (dm, m2, ps1) \<Rightarrow>
            let cur = nodes m2 n;
                m3 = upd_node dm (\<lambda>x. x\<lparr>mn_value := mn_value cur, mn_counter := mn_counter cur,
                        mn_seq := mn_seq cur, mn_oldVersions := mn_oldVersions cur\<rparr>) m2;
                m4 = upd_node n (\<lambda>x. x\<lparr>mn_oldVersions := dm, mn_counter := gcounter,
                        mn_value := kv_val e, mn_seq := mn_seq x + 1\<rparr>) m3
            in Inr (e\<lparr>kv_dummy := dm, kv_commitseq := mn_seq (nodes m4 n), kv_commitval := kv_val e,
                      kv_val := 0\<rparr>, m4, d1, ps1))
        else Inl AssertFail)"

definition WriteSet_Write :: "u64 \<Rightarrow> WriteSet \<Rightarrow> write_state \<Rightarrow> fault + (WriteSet \<times> write_state)" where
  "WriteSet_Write gcounter w st =
     and_then (map_state (Write_elem gcounter) (ws_entries w) st) (\<lambda>(es, st').
       Inr (w\<lparr>ws_kvs := es @ drop (ws_elems w) (ws_kvs w)\<rparr>, st'))"

text \<open>\<open>GetOldVersions\<close> and \<open>GetDeletedValues\<close>; NULL for an empty answer.\<close>

definition GetOldVersions :: "WriteSet \<Rightarrow> nptr list option" where
  "GetOldVersions w =
     (let ov = filter (\<lambda>n. n \<noteq> NULLP) (map kv_dummy (ws_entries w))
      in if ws_elems w = 0 \<or> ov = [] then None else Some ov)"

definition GetDeletedValues :: "WriteSet \<Rightarrow> vptr list option \<times> WriteSet" where
  "GetDeletedValues w =
     (if ws_elems w = 0 then (None, w)
      else let es = map (\<lambda>e. if kv_val e = 0 \<or> \<not> ValidateValue (kv_val e) then e\<lparr>kv_val := 0\<rparr> else e)
                      (ws_entries w);
               dv = filter (\<lambda>v. v \<noteq> 0) (map kv_val es);
               w' = w\<lparr>ws_kvs := es @ drop (ws_elems w) (ws_kvs w)\<rparr>
           in if dv = [] then (None, w') else (Some dv, w'))"

section \<open>The arrays behave as lists\<close>

lemma ReadSet_wf_new: "ReadSet_wf ReadSet_new" "rs_entries ReadSet_new = []" "rs_links ReadSet_new = []"
  by (simp_all add: ReadSet_wf_def ReadSet_new_def ReadSet_alloc_def MAXSIZE_def rs_entries_def rs_links_def)

lemma ReadSet_Reset_correct:
  "ReadSet_wf rs \<Longrightarrow> ReadSet_wf (ReadSet_Reset rs)"
  "rs_entries (ReadSet_Reset rs) = []" "rs_links (ReadSet_Reset rs) = []"
  by (auto simp: ReadSet_wf_def ReadSet_Reset_def rs_entries_def rs_links_def)

lemma ReadSet_Resize_correct:
  assumes "ReadSet_wf rs"
  shows "ReadSet_wf (ReadSet_Resize rs)" and "rs_entries (ReadSet_Resize rs) = rs_entries rs"
    and "rs_links (ReadSet_Resize rs) = rs_links rs"
    and "rs_elems (ReadSet_Resize rs) = rs_elems rs" and "rs_rangeElems (ReadSet_Resize rs) = rs_rangeElems rs"
    and "rs_max_length (ReadSet_Resize rs) = 2 * rs_max_length rs"
  using assms by (auto simp: ReadSet_wf_def ReadSet_Resize_def rs_entries_def rs_links_def Let_def)

lemma ReadSet_Add_correct:
  assumes wf: "ReadSet_wf rs" and ld: "load m a = Inr v"
  obtains rs' where "ReadSet_Add a l m rs = Inr rs'" and "ReadSet_wf rs'"
    and "rs_entries rs' = rs_entries rs @ [\<lparr>rs_seq = v, rs_seqptr = a, rs_label = l\<rparr>]"
    and "rs_links rs' = rs_links rs"
proof -
  let ?rs = "if rs_elems rs = rs_max_length rs then ReadSet_Resize rs else rs"
  have r: "ReadSet_wf ?rs" "rs_entries ?rs = rs_entries rs" "rs_links ?rs = rs_links rs"
    and room: "rs_elems ?rs < rs_max_length ?rs"
    using wf ReadSet_Resize_correct [OF wf] by (auto simp: ReadSet_wf_def)
  let ?e = "\<lparr>rs_seq = v, rs_seqptr = a, rs_label = l\<rparr>"
  let ?r = "?rs\<lparr>rs_elems := rs_elems ?rs + 1, rs_seqs := (rs_seqs ?rs)[rs_elems ?rs := ?e]\<rparr>"
  have "ReadSet_Add a l m rs = Inr ?r"
    by (simp add: ReadSet_Add_def ld Let_def)
  moreover have "ReadSet_wf ?r" using r(1) room by (simp add: ReadSet_wf_def)
  moreover have "rs_entries ?r = rs_entries ?rs @ [?e]"
    using r(1) room by (simp add: rs_entries_def ReadSet_wf_def take_Suc_update)
  moreover have "rs_links ?r = rs_links ?rs" by (simp add: rs_links_def)
  ultimately show thesis using r that by auto
qed

lemma ReadSet_AddNext_correct:
  assumes wf: "ReadSet_wf rs"
  shows "ReadSet_wf (ReadSet_AddNext a v rs)"
    and "rs_links (ReadSet_AddNext a v rs) = rs_links rs @ [\<lparr>rs_next = v, rs_nextptr = a\<rparr>]"
    and "rs_entries (ReadSet_AddNext a v rs) = rs_entries rs"
proof -
  let ?rs = "if rs_rangeElems rs = rs_max_length rs then ReadSet_Resize rs else rs"
  have r: "ReadSet_wf ?rs" "rs_entries ?rs = rs_entries rs" "rs_links ?rs = rs_links rs"
    and room: "rs_rangeElems ?rs < rs_max_length ?rs"
    using wf ReadSet_Resize_correct [OF wf] by (auto simp: ReadSet_wf_def)
  let ?e = "\<lparr>rs_next = v, rs_nextptr = a\<rparr>"
  let ?r = "?rs\<lparr>rs_rangeElems := rs_rangeElems ?rs + 1, rs_nexts := (rs_nexts ?rs)[rs_rangeElems ?rs := ?e]\<rparr>"
  have eq: "ReadSet_AddNext a v rs = ?r"
    by (simp add: ReadSet_AddNext_def Let_def)
  show "ReadSet_wf (ReadSet_AddNext a v rs)"
    unfolding eq using r(1) room by (simp add: ReadSet_wf_def)
  have "rs_links ?r = rs_links ?rs @ [?e]"
    using r(1) room by (simp add: rs_links_def ReadSet_wf_def take_Suc_update)
  then show "rs_links (ReadSet_AddNext a v rs) = rs_links rs @ [?e]"
    unfolding eq using r(3) by simp
  have "rs_entries ?r = rs_entries ?rs" by (simp add: rs_entries_def)
  then show "rs_entries (ReadSet_AddNext a v rs) = rs_entries rs"
    unfolding eq using r(2) by simp
qed

lemma WriteSet_wf_new: "WriteSet_wf WriteSet_new" "ws_entries WriteSet_new = []"
  by (simp_all add: WriteSet_wf_def WriteSet_new_def WriteSet_alloc_def MAXSIZE_def ws_entries_def)

lemma WriteSet_Reset_correct:
  "WriteSet_wf w \<Longrightarrow> WriteSet_wf (WriteSet_Reset w)" "ws_entries (WriteSet_Reset w) = []"
  by (auto simp: WriteSet_wf_def WriteSet_Reset_def ws_entries_def)

lemma WriteSet_Resize_correct:
  assumes "WriteSet_wf w"
  shows "WriteSet_wf (WriteSet_Resize w)" and "ws_entries (WriteSet_Resize w) = ws_entries w"
    and "ws_elems (WriteSet_Resize w) = ws_elems w"
    and "ws_max_length (WriteSet_Resize w) = 2 * ws_max_length w"
  using assms by (auto simp: WriteSet_wf_def WriteSet_Resize_def ws_entries_def Let_def)

lemma WriteSet_Add_correct:
  assumes wf: "WriteSet_wf w"
  obtains e where "WriteSet_wf (WriteSet_Add t k v n w)"
    and "ws_entries (WriteSet_Add t k v n w) = ws_entries w @ [e]"
    and "kv_tableid e = t" and "kv_key e = k" and "kv_val e = v" and "kv_node e = n" and "kv_dummy e = NULLP"
proof -
  let ?w = "if ws_elems w = ws_max_length w then WriteSet_Resize w else w"
  have r: "WriteSet_wf ?w" "ws_entries ?w = ws_entries w" and room: "ws_elems ?w < ws_max_length ?w"
    using wf WriteSet_Resize_correct [OF wf] by (auto simp: WriteSet_wf_def)
  let ?e = "(ws_kvs ?w ! ws_elems ?w)\<lparr>kv_tableid := t, kv_key := k, kv_val := v, kv_node := n, kv_dummy := NULLP\<rparr>"
  let ?r = "?w\<lparr>ws_elems := ws_elems ?w + 1, ws_kvs := (ws_kvs ?w)[ws_elems ?w := ?e]\<rparr>"
  have eq: "WriteSet_Add t k v n w = ?r"
    by (simp add: WriteSet_Add_def Let_def)
  have "ws_entries ?r = ws_entries ?w @ [?e]"
    using r(1) room by (simp add: ws_entries_def WriteSet_wf_def take_Suc_update)
  then have E: "ws_entries (WriteSet_Add t k v n w) = ws_entries w @ [?e]"
    unfolding eq r(2) .
  have W: "WriteSet_wf (WriteSet_Add t k v n w)"
    unfolding eq using r(1) room by (simp add: WriteSet_wf_def)
  show thesis by (rule that [OF W E]) simp_all
qed

section \<open>Validation and lookup\<close>

lemma Validate_seqs_None:
  "Validate_seqs m es = Inr None \<longleftrightarrow> (\<forall>e \<in> set es. load m (rs_seqptr e) = Inr (rs_seq e))"
  by (induction es) (auto simp: and_then_eq_Inr)

lemma Validate_nexts_None:
  "Validate_nexts m es = Inr None \<longleftrightarrow> (\<forall>e \<in> set es. load m (rs_nextptr e) = Inr (rs_next e))"
  by (induction es) (auto simp: and_then_eq_Inr)

lemma Validate_seqs_label: "Validate_seqs m es = Inr (Some l) \<Longrightarrow> \<exists>e \<in> set es. l = rs_label e"
  by (induction es) (auto simp: and_then_eq_Inr split: if_splits)

lemma Validate_nexts_label: "Validate_nexts m es = Inr (Some l) \<Longrightarrow> l = 0"
  by (induction es) (auto simp: and_then_eq_Inr split: if_splits)

lemma Validate_iff:
  assumes "\<forall>e \<in> set (rs_entries rs). rs_label e \<noteq> NO_CONFLICT"
  shows "ReadSet_Validate m rs = Inr NO_CONFLICT \<longleftrightarrow>
     (\<forall>e \<in> set (rs_entries rs). load m (rs_seqptr e) = Inr (rs_seq e))
   \<and> (\<forall>e \<in> set (rs_links rs). load m (rs_nextptr e) = Inr (rs_next e))"
proof -
  have "ReadSet_Validate m rs = Inr NO_CONFLICT \<longleftrightarrow>
      Validate_seqs m (rs_entries rs) = Inr None \<and> Validate_nexts m (rs_links rs) = Inr None"
    using assms Validate_seqs_label [of m "rs_entries rs"] Validate_nexts_label [of m "rs_links rs"]
    by (auto simp: ReadSet_Validate_def and_then_eq_Inr NO_CONFLICT_def rs_entries_def rs_links_def
        split: option.splits) fastforce+
  then show ?thesis by (simp add: Validate_seqs_None Validate_nexts_None)
qed

lemma Lookup_loop_find:
  "Lookup_loop t k es res =
     (case find (\<lambda>e. kv_tableid e = t \<and> kv_key e = k) (rev es) of None \<Rightarrow> res | Some e \<Rightarrow> Some (kv_val e))"
  by (induction es arbitrary: res) (auto simp: find_append split: option.splits)

lemma Lookup_find:
  "WriteSet_Lookup t k w =
     map_option kv_val (find (\<lambda>e. kv_tableid e = t \<and> kv_key e = k) (rev (ws_entries w)))"
  by (simp add: WriteSet_Lookup_def Lookup_loop_find ws_entries_def map_option_case)

lemma Lookup_Add:
  assumes "WriteSet_wf w"
  shows "WriteSet_Lookup t' k' (WriteSet_Add t k v n w) =
     (if t' = t \<and> k' = k then Some v else WriteSet_Lookup t' k' w)"
proof -
  obtain e where "ws_entries (WriteSet_Add t k v n w) = ws_entries w @ [e]"
    and "kv_tableid e = t" "kv_key e = k" "kv_val e = v"
    using WriteSet_Add_correct [OF assms] by metis
  then show ?thesis by (simp add: Lookup_find)
qed

end
