(* ===== verification/Tx_Write.thy ===== *)
theory Tx_Write
  imports Tx_Sets
begin

text \<open>
  Correctness of \<open>WriteSet::Write\<close>: what installing a write set does to the nodes, to the version
  chains and to the delete set.
\<close>

section \<open>What the writes do to the heap\<close>

definition pools_ok :: "'p OBJPool list \<Rightarrow> bool" where
  "pools_ok ps \<longleftrightarrow> (\<forall>P \<in> set ps. free_inv P)"

definition pools_free :: "'p OBJPool list \<Rightarrow> 'p set" where
  "pools_free ps = (\<Union>P \<in> set ps. set (free_objs P))"

lemma pools_update:
  assumes "pools_ok ps" and "free_inv P" and "set (free_objs P) \<subseteq> set (free_objs (ps ! t))" and "t < length ps"
  shows "pools_ok (ps[t := P])" and "pools_free (ps[t := P]) \<subseteq> pools_free ps"
proof -
  have "set (ps[t := P]) \<subseteq> insert P (set ps)" by (rule set_update_subset_insert)
  moreover have "set (free_objs P) \<subseteq> pools_free ps"
    using assms(3,4) by (force simp: pools_free_def)
  ultimately show "pools_ok (ps[t := P])" and "pools_free (ps[t := P]) \<subseteq> pools_free ps"
    using assms(1,2) by (auto simp: pools_ok_def pools_free_def)
qed

lemma GetMemNode_correct:
  assumes ok: "pools_ok ps" and t: "t < length ps"
    and get: "DBTables_GetMemNode t (m, ps) = (dm, m', ps')"
  shows "pools_ok ps'" and "pools_free ps' \<subseteq> pools_free ps" and "length ps' = length ps"
    and "dm \<in> pools_free ps \<or> dm = brk m" and "nodes m' dm = MemNode_new"
    and "q \<noteq> dm \<Longrightarrow> nodes m' q = nodes m q" and "brk m \<le> brk m'" and "words m' = words m"
    and "dm \<in> pools_free ps \<or> dm < brk m'"
proof -
  have inv: "free_inv (ps ! t)" using ok t by (simp add: pools_ok_def)
  have sub: "set (free_objs (ps ! t)) \<subseteq> pools_free ps" using t by (force simp: pools_free_def)
  have "pools_ok ps' \<and> pools_free ps' \<subseteq> pools_free ps \<and> length ps' = length ps
    \<and> (dm \<in> pools_free ps \<or> dm = brk m) \<and> nodes m' dm = MemNode_new
    \<and> (q \<noteq> dm \<longrightarrow> nodes m' q = nodes m q) \<and> brk m \<le> brk m' \<and> words m' = words m
    \<and> (dm \<in> pools_free ps \<or> dm < brk m')"
  proof (cases "free_objs (ps ! t)")
    case Nil
    then have "GetFreeObj (ps ! t) = (None, ps ! t)" using inv by (simp add: free_inv_Nil)
    then show ?thesis
      using get ok by (auto simp: DBTables_GetMemNode_def GetMemNode_def)
  next
    case (Cons x xs)
    then obtain P where P: "GetFreeObj (ps ! t) = (Some x, P)" "free_inv P" "free_objs P = xs"
      using free_inv_Cons [OF inv] by metis
    then have "set (free_objs P) \<subseteq> set (free_objs (ps ! t))" using Cons by auto
    note upd = pools_update [OF ok P(2) this t]
    show ?thesis
      using get P upd sub Cons by (auto simp: DBTables_GetMemNode_def)
  qed
  then show "pools_ok ps'" "pools_free ps' \<subseteq> pools_free ps" "length ps' = length ps"
    "dm \<in> pools_free ps \<or> dm = brk m" "nodes m' dm = MemNode_new"
    "q \<noteq> dm \<Longrightarrow> nodes m' q = nodes m q" "brk m \<le> brk m'" "words m' = words m"
    "dm \<in> pools_free ps \<or> dm < brk m'"
    by auto
qed

text \<open>
  A node may be written when it is allocated and not on a free list, and when its version is not
  from the future: the snapshot counter only grows, so a node's counter never exceeds it.
\<close>

definition writable :: "u64 \<Rightarrow> mem \<Rightarrow> nptr OBJPool list \<Rightarrow> WSKV \<Rightarrow> bool" where
  "writable g m ps e \<longleftrightarrow> kv_node e < brk m \<and> kv_node e \<notin> pools_free ps
     \<and> mn_counter (nodes m (kv_node e)) \<le> g \<and> kv_tableid e < length ps"

text \<open>The delete-set part of an iteration, and the two ways an iteration installs its value.\<close>

definition Write_del :: "WSKV \<Rightarrow> mem \<Rightarrow> DELSet \<Rightarrow> fault + DELSet" where
  "Write_del e m d =
     (if kv_val e = LOGICALDELETE \<and> mn_value (nodes m (kv_node e)) \<noteq> LOGICALDELETE
      then DELSet_Add (kv_tableid e) (kv_key e) (kv_node e) True m d else Inr d)"

lemma upd_node_cong: "f (nodes m p) = h (nodes m p) \<Longrightarrow> upd_node p f m = upd_node p h m"
  by (simp add: upd_node_def)

lemma upd_node_twice: "upd_node p f (upd_node p h m) = upd_node p (\<lambda>x. f (h x)) m"
  by (simp add: upd_node_def)

lemma Write_elem_inplace:
  assumes c: "mn_counter (nodes m (kv_node e)) = 0 \<or> mn_counter (nodes m (kv_node e)) = g"
  shows "Write_elem g e (m, d, ps) = and_then (Write_del e m d) (\<lambda>d1.
     Inr (e\<lparr>kv_commitval := kv_val e, kv_val := mn_value (nodes m (kv_node e)),
            kv_commitseq := mn_seq (nodes m (kv_node e)) + 1\<rparr>,
          upd_node (kv_node e) (\<lambda>x. x\<lparr>mn_counter := g, mn_value := kv_val e, mn_seq := mn_seq x + 1\<rparr>) m,
          d1, ps))"
proof (cases "mn_counter (nodes m (kv_node e)) = 0")
  case True
  then show ?thesis
    by (simp add: Write_elem_def Write_del_def Let_def DELSet_Add_def upd_node_twice)
next
  case False
  with c have g: "mn_counter (nodes m (kv_node e)) = g" by simp
  then have "upd_node (kv_node e) (\<lambda>x. x\<lparr>mn_counter := g, mn_value := kv_val e, mn_seq := mn_seq x + 1\<rparr>) m
      = upd_node (kv_node e) (\<lambda>x. x\<lparr>mn_value := kv_val e, mn_seq := mn_seq x + 1\<rparr>) m"
    by (intro upd_node_cong) (cases "nodes m (kv_node e)", simp)
  with False g show ?thesis
    by (simp add: Write_elem_def Write_del_def Let_def)
qed

lemma Write_elem_newversion:
  assumes c0: "mn_counter (nodes m (kv_node e)) \<noteq> 0" and lt: "mn_counter (nodes m (kv_node e)) < g"
    and gm: "DBTables_GetMemNode (kv_tableid e) (m, ps) = (dm, m2, ps1)"
  shows "Write_elem g e (m, d, ps) = and_then (Write_del e m d) (\<lambda>d1.
     let cur = nodes m2 (kv_node e);
         m3 = upd_node dm (\<lambda>x. x\<lparr>mn_value := mn_value cur, mn_counter := mn_counter cur,
                 mn_seq := mn_seq cur, mn_oldVersions := mn_oldVersions cur\<rparr>) m2;
         m4 = upd_node (kv_node e) (\<lambda>x. x\<lparr>mn_oldVersions := dm, mn_counter := g,
                 mn_value := kv_val e, mn_seq := mn_seq x + 1\<rparr>) m3
     in Inr (e\<lparr>kv_dummy := dm, kv_commitseq := mn_seq (nodes m4 (kv_node e)),
               kv_commitval := kv_val e, kv_val := 0\<rparr>, m4, d1, ps1))"
proof -
  have ne: "mn_counter (nodes m (kv_node e)) \<noteq> g" using lt by auto
  show ?thesis
    using c0 lt ne gm by (simp add: Write_elem_def Write_del_def Let_def)
qed

text \<open>
  The effect of one iteration: the node carries the new value and the next sequence number, a saved
  version, when one is made, sits in a node that was free or unallocated, and every other node in
  use is unchanged.
\<close>

definition write_effect :: "u64 \<Rightarrow> WSKV \<Rightarrow> mem \<Rightarrow> nptr OBJPool list \<Rightarrow> WSKV \<Rightarrow> mem \<Rightarrow> nptr OBJPool list \<Rightarrow> bool" where
  "write_effect g e m ps e' m' ps' \<longleftrightarrow>
     pools_ok ps' \<and> pools_free ps' \<subseteq> pools_free ps \<and> length ps' = length ps
   \<and> brk m \<le> brk m' \<and> words m' = words m
   \<and> mn_value (nodes m' (kv_node e)) = kv_val e
   \<and> mn_seq (nodes m' (kv_node e)) = mn_seq (nodes m (kv_node e)) + 1
   \<and> mn_counter (nodes m' (kv_node e)) = g
   \<and> mn_gcRef (nodes m' (kv_node e)) = mn_gcRef (nodes m (kv_node e))
   \<and> (\<forall>q. q \<noteq> kv_node e \<longrightarrow> q < brk m \<longrightarrow> q \<notin> pools_free ps \<longrightarrow> nodes m' q = nodes m q)
   \<and> kv_node e' = kv_node e \<and> kv_tableid e' = kv_tableid e \<and> kv_key e' = kv_key e
   \<and> kv_commitval e' = kv_val e \<and> kv_commitseq e' = mn_seq (nodes m' (kv_node e))"

lemma Write_elem_correct:
  assumes ok: "pools_ok ps" and w: "writable g m ps e"
    and wr: "Write_elem g e (m, d, ps) = Inr (e', m', d', ps')"
  shows "write_effect g e m ps e' m' ps'" and "Write_del e m d = Inr d'"
proof -
  let ?n = "kv_node e"
  have t: "kv_tableid e < length ps" and n: "?n < brk m" "?n \<notin> pools_free ps"
    and le: "mn_counter (nodes m ?n) \<le> g"
    using w by (auto simp: writable_def)
  have "write_effect g e m ps e' m' ps' \<and> Write_del e m d = Inr d'"
  proof (cases "mn_counter (nodes m ?n) = 0 \<or> mn_counter (nodes m ?n) = g")
    case True
    with wr ok show ?thesis
      by (auto simp: Write_elem_inplace and_then_eq_Inr write_effect_def)
  next
    case False
    with le have c0: "mn_counter (nodes m ?n) \<noteq> 0" and lt: "mn_counter (nodes m ?n) < g" by auto
    obtain dm m2 ps1 where gm: "DBTables_GetMemNode (kv_tableid e) (m, ps) = (dm, m2, ps1)"
      by (metis prod_cases3)
    note g = GetMemNode_correct [OF ok t gm]
    have ne: "dm \<noteq> ?n" using g(4) n by auto
    note eq = Write_elem_newversion [OF c0 lt gm, of d]
    have same: "nodes m2 q = nodes m q" if "q < brk m" "q \<notin> pools_free ps" for q
      using g(4) g(6) that by (cases "q = dm") auto
    from wr eq have d: "Write_del e m d = Inr d'" and p: "ps' = ps1"
      by (auto simp: and_then_eq_Inr Let_def)
    from wr eq ne have m': "nodes m' q = (if q = ?n then (nodes m2 ?n)\<lparr>mn_oldVersions := dm,
        mn_counter := g, mn_value := kv_val e, mn_seq := mn_seq (nodes m2 ?n) + 1\<rparr>
        else if q = dm then (nodes m2 dm)\<lparr>mn_value := mn_value (nodes m2 ?n),
          mn_counter := mn_counter (nodes m2 ?n), mn_seq := mn_seq (nodes m2 ?n),
          mn_oldVersions := mn_oldVersions (nodes m2 ?n)\<rparr> else nodes m2 q)" for q
      by (auto simp: and_then_eq_Inr Let_def)
    from wr eq ne have fr: "brk m' = brk m2" "words m' = words m2" "kv_node e' = ?n"
        "kv_tableid e' = kv_tableid e" "kv_key e' = kv_key e" "kv_commitval e' = kv_val e"
        "kv_commitseq e' = mn_seq (nodes m2 ?n) + 1"
      by (auto simp: and_then_eq_Inr Let_def)
    have out: "nodes m' q = nodes m q" if "q \<noteq> ?n" "q < brk m" "q \<notin> pools_free ps" for q
    proof -
      have "q \<noteq> dm" using g(4) that by auto
      with that same show ?thesis by (simp add: m')
    qed
    have "write_effect g e m ps e' m' ps'"
      unfolding write_effect_def using g(1-3,7,8) p fr out same [OF n] by (simp add: m')
    with d show ?thesis by blast
  qed
  then show "write_effect g e m ps e' m' ps'" and "Write_del e m d = Inr d'" by blast+
qed

lemma Write_elem_fault:
  assumes "writable g m ps e" and "Write_elem g e (m, d, ps) = Inl f"
  shows "Write_del e m d = Inl f"
proof -
  obtain dm m2 ps1 where gm: "DBTables_GetMemNode (kv_tableid e) (m, ps) = (dm, m2, ps1)"
    by (metis prod_cases3)
  show ?thesis
    using assms Write_elem_inplace [of m e g d ps] Write_elem_newversion [OF _ _ gm, of g d]
    by (cases "Write_del e m d") (auto simp: writable_def Let_def le_less)
qed

section \<open>Installing a whole write set\<close>

definition n_writes :: "nptr \<Rightarrow> WSKV list \<Rightarrow> nat" where
  "n_writes q es = length (filter (\<lambda>e. kv_node e = q) es)"

definition last_write :: "nptr \<Rightarrow> WSKV list \<Rightarrow> vptr option" where
  "last_write q es = map_option kv_val (find (\<lambda>e. kv_node e = q) (rev es))"

lemma n_writes_simps [simp]:
  "n_writes q [] = 0"
  "n_writes q (e # es) = (if kv_node e = q then Suc (n_writes q es) else n_writes q es)"
  by (auto simp: n_writes_def)

lemma n_writes_0: "n_writes q es = 0 \<longleftrightarrow> q \<notin> kv_node ` set es"
  by (induction es) auto

lemma last_write_Nil [simp]: "last_write q [] = None"
  by (simp add: last_write_def)

lemma last_write_Cons:
  "last_write q (e # es) = (case last_write q es of Some v \<Rightarrow> Some v
     | None \<Rightarrow> if kv_node e = q then Some (kv_val e) else None)"
  by (auto simp: last_write_def find_append split: option.splits)

lemma last_write_None: "last_write q es = None \<longleftrightarrow> n_writes q es = 0"
  by (induction es) (auto simp: last_write_Cons split: option.splits)

lemma last_write_Some: "last_write q es = Some v \<Longrightarrow> 0 < n_writes q es"
  using last_write_None [of q es] by auto

definition node_effect :: "u64 \<Rightarrow> WSKV list \<Rightarrow> mem \<Rightarrow> mem \<Rightarrow> nptr \<Rightarrow> bool" where
  "node_effect g es m m' q \<longleftrightarrow>
     mn_value (nodes m' q) = (case last_write q es of None \<Rightarrow> mn_value (nodes m q) | Some v \<Rightarrow> v)
   \<and> mn_seq (nodes m' q) = mn_seq (nodes m q) + of_nat (n_writes q es)
   \<and> mn_counter (nodes m' q) = (if n_writes q es = 0 then mn_counter (nodes m q) else g)
   \<and> mn_gcRef (nodes m' q) = mn_gcRef (nodes m q)
   \<and> (n_writes q es = 0 \<longrightarrow> nodes m' q = nodes m q)"

definition in_use :: "mem \<Rightarrow> nptr OBJPool list \<Rightarrow> nptr \<Rightarrow> bool" where
  "in_use m ps q \<longleftrightarrow> q < brk m \<and> q \<notin> pools_free ps"

lemma write_effect_node:
  assumes "write_effect g e m ps e' m' ps'" and "in_use m ps q"
  shows "node_effect g [e] m m' q" and "in_use m' ps' q"
  using assms by (auto simp: write_effect_def node_effect_def in_use_def last_write_Cons)

lemma write_effect_writable:
  assumes "write_effect g e m ps e' m' ps'" and "writable g m ps e2"
  shows "writable g m' ps' e2"
  using assms
  by (cases "kv_node e2 = kv_node e") (auto simp: write_effect_def writable_def)

lemma node_effect_trans:
  assumes "node_effect g [e] m m1 q" and "node_effect g es m1 m' q"
  shows "node_effect g (e # es) m m' q"
  using assms
  by (auto simp: node_effect_def last_write_Cons last_write_None add.assoc
      dest: last_write_Some split: option.splits if_splits)

text \<open>
  Everything the transaction code relies on after \<open>Write\<close>: pools, heap, nodes, and the fields the
  write set keeps for the commit.
\<close>

lemma Write_list_correct:
  assumes "pools_ok ps" and "\<forall>e \<in> set es. writable g m ps e"
    and "map_state (Write_elem g) es (m, d, ps) = Inr (es', m', d', ps')"
  shows "pools_ok ps' \<and> pools_free ps' \<subseteq> pools_free ps \<and> length ps' = length ps
    \<and> brk m \<le> brk m' \<and> words m' = words m
    \<and> (\<forall>q. in_use m ps q \<longrightarrow> node_effect g es m m' q)
    \<and> map kv_node es' = map kv_node es \<and> map kv_commitval es' = map kv_val es"
  using assms
proof (induction es arbitrary: m d ps es')
  case Nil
  then show ?case by (simp add: node_effect_def)
next
  case (Cons e es)
  from Cons.prems(3) obtain e1 m1 d1 ps1 es1 where
    hd: "Write_elem g e (m, d, ps) = Inr (e1, m1, d1, ps1)"
    and tl: "map_state (Write_elem g) es (m1, d1, ps1) = Inr (es1, m', d', ps')" and es': "es' = e1 # es1"
    by (auto simp: and_then_eq_Inr)
  have eff: "write_effect g e m ps e1 m1 ps1"
    using Write_elem_correct(1) [OF Cons.prems(1) _ hd] Cons.prems(2) by simp
  have IH: "pools_ok ps' \<and> pools_free ps' \<subseteq> pools_free ps1 \<and> length ps' = length ps1
    \<and> brk m1 \<le> brk m' \<and> words m' = words m1 \<and> (\<forall>q. in_use m1 ps1 q \<longrightarrow> node_effect g es m1 m' q)
    \<and> map kv_node es1 = map kv_node es \<and> map kv_commitval es1 = map kv_val es"
    using eff Cons.prems(2) write_effect_writable [OF eff]
    by (intro Cons.IH [OF _ _ tl]) (auto simp: write_effect_def)
  have "node_effect g (e # es) m m' q" if "in_use m ps q" for q
    using node_effect_trans [of g e m m1 q es m'] write_effect_node [OF eff that] IH by blast
  with IH eff show ?case by (auto simp: write_effect_def es')
qed

section \<open>The delete set of a commit\<close>

lemma DELSet_wf_new: "DELSet_wf DELSet_new" "ds_entries DELSet_new = []"
  by (simp_all add: DELSet_wf_def DELSet_new_def ds_entries_def)

lemma DELSet_Reset_correct:
  "DELSet_wf d \<Longrightarrow> DELSet_wf (DELSet_Reset d)" "ds_entries (DELSet_Reset d) = []"
  by (auto simp: DELSet_wf_def DELSet_Reset_def ds_entries_def)

lemma DELSet_Add_correct:
  assumes "DELSet_wf d"
  shows "DELSet_Add t k n delay m d =
     (if ds_elems d + 1 = ds_qsize d then Inl Exit
      else Inr (d\<lparr>ds_queue := (ds_queue d)[ds_elems d := \<lparr>de_tableid = t, de_key = k, de_node = n,
                   de_delay = delay, de_seq = mn_seq (nodes m n) + 1\<rparr>],
                 ds_delayNum := (if delay then ds_delayNum d + 1 else ds_delayNum d),
                 ds_elems := ds_elems d + 1\<rparr>))"
    and "DELSet_Add t k n delay m d = Inr d' \<Longrightarrow> DELSet_wf d' \<and> ds_entries d' = ds_entries d @
       [\<lparr>de_tableid = t, de_key = k, de_node = n, de_delay = delay, de_seq = mn_seq (nodes m n) + 1\<rparr>]"
proof -
  show *: "DELSet_Add t k n delay m d =
     (if ds_elems d + 1 = ds_qsize d then Inl Exit
      else Inr (d\<lparr>ds_queue := (ds_queue d)[ds_elems d := \<lparr>de_tableid = t, de_key = k, de_node = n,
                   de_delay = delay, de_seq = mn_seq (nodes m n) + 1\<rparr>],
                 ds_delayNum := (if delay then ds_delayNum d + 1 else ds_delayNum d),
                 ds_elems := ds_elems d + 1\<rparr>))"
    using assms by (simp add: DELSet_Add_def DELSet_wf_def Let_def)
  assume "DELSet_Add t k n delay m d = Inr d'"
  with assms show "DELSet_wf d' \<and> ds_entries d' = ds_entries d @
       [\<lparr>de_tableid = t, de_key = k, de_node = n, de_delay = delay, de_seq = mn_seq (nodes m n) + 1\<rparr>]"
    unfolding * by (auto simp: DELSet_wf_def ds_entries_def take_Suc_update split: if_splits)
qed

text \<open>
  A delete-set element of a commit: it comes from a logical delete in the write set, and its sequence
  number is the one the node had right after some write of this commit; if that was the last write
  to the node, the node is logically deleted.
\<close>

definition delset_origin :: "WSKV list \<Rightarrow> mem \<Rightarrow> DELElement \<Rightarrow> bool" where
  "delset_origin es m x \<longleftrightarrow>
     (\<exists>e \<in> set es. kv_val e = LOGICALDELETE \<and> de_tableid x = kv_tableid e \<and> de_key x = kv_key e
        \<and> de_node x = kv_node e)
   \<and> (\<exists>k. 0 < k \<and> k \<le> n_writes (de_node x) es \<and> de_seq x = mn_seq (nodes m (de_node x)) + of_nat k
        \<and> (k = n_writes (de_node x) es \<longrightarrow> last_write (de_node x) es = Some LOGICALDELETE))"

lemma delset_origin_Cons:
  assumes "delset_origin es m1 x" and "mn_seq (nodes m1 (de_node x)) =
      mn_seq (nodes m (de_node x)) + (if kv_node e = de_node x then 1 else 0)"
  shows "delset_origin (e # es) m x"
proof -
  from assms(1) obtain k where k: "0 < k" "k \<le> n_writes (de_node x) es"
      "de_seq x = mn_seq (nodes m1 (de_node x)) + of_nat k"
      "k = n_writes (de_node x) es \<longrightarrow> last_write (de_node x) es = Some LOGICALDELETE"
    and e: "\<exists>e \<in> set es. kv_val e = LOGICALDELETE \<and> de_tableid x = kv_tableid e \<and> de_key x = kv_key e
        \<and> de_node x = kv_node e"
    by (auto simp: delset_origin_def)
  have "\<exists>j. 0 < j \<and> j \<le> n_writes (de_node x) (e # es)
      \<and> de_seq x = mn_seq (nodes m (de_node x)) + of_nat j
      \<and> (j = n_writes (de_node x) (e # es) \<longrightarrow> last_write (de_node x) (e # es) = Some LOGICALDELETE)"
  proof (cases "kv_node e = de_node x")
    case True
    with k assms(2) show ?thesis
      by (intro exI [of _ "Suc k"]) (auto simp: last_write_Cons)
  next
    case False
    with k assms(2) show ?thesis
      by (intro exI [of _ k]) (auto simp: last_write_Cons split: option.splits)
  qed
  with e show ?thesis by (auto simp: delset_origin_def)
qed

lemma Write_list_delset:
  assumes "pools_ok ps" and "\<forall>e \<in> set es. writable g m ps e" and "DELSet_wf d"
    and "map_state (Write_elem g) es (m, d, ps) = Inr (es', m', d', ps')"
  shows "DELSet_wf d' \<and> (\<exists>new. ds_entries d' = ds_entries d @ new \<and> (\<forall>x \<in> set new. delset_origin es m x))"
  using assms
proof (induction es arbitrary: m d ps es')
  case Nil
  then show ?case by simp
next
  case (Cons e es)
  from Cons.prems(4) obtain e1 m1 d1 ps1 es1 where
    hd: "Write_elem g e (m, d, ps) = Inr (e1, m1, d1, ps1)"
    and tl: "map_state (Write_elem g) es (m1, d1, ps1) = Inr (es1, m', d', ps')"
    by (auto simp: and_then_eq_Inr)
  have w: "writable g m ps e" using Cons.prems(2) by simp
  note eff = Write_elem_correct(1) [OF Cons.prems(1) w hd]
  note del = Write_elem_correct(2) [OF Cons.prems(1) w hd]
  let ?x = "\<lparr>de_tableid = kv_tableid e, de_key = kv_key e, de_node = kv_node e, de_delay = True,
             de_seq = mn_seq (nodes m (kv_node e)) + 1\<rparr>"
  have d1: "DELSet_wf d1" "ds_entries d1 = ds_entries d @
      (if kv_val e = LOGICALDELETE \<and> mn_value (nodes m (kv_node e)) \<noteq> LOGICALDELETE then [?x] else [])"
    using del DELSet_Add_correct(2) [OF Cons.prems(3)] Cons.prems(3)
    by (auto simp: Write_del_def split: if_splits)
  obtain new where new: "DELSet_wf d'" "ds_entries d' = ds_entries d1 @ new"
      "\<forall>x \<in> set new. delset_origin es m1 x"
    using Cons.IH [OF _ _ d1(1) tl] eff Cons.prems(2) write_effect_writable [OF eff]
    by (auto simp: write_effect_def)
  have old: "delset_origin (e # es) m x" if "x \<in> set new" for x
  proof (rule delset_origin_Cons)
    show "delset_origin es m1 x" using new(3) that by blast
    then obtain e2 where "e2 \<in> set es" "de_node x = kv_node e2" by (auto simp: delset_origin_def)
    then have "in_use m ps (de_node x)" using Cons.prems(2) by (auto simp: writable_def in_use_def)
    then show "mn_seq (nodes m1 (de_node x)) =
        mn_seq (nodes m (de_node x)) + (if kv_node e = de_node x then 1 else 0)"
      using write_effect_node(1) [OF eff] by (auto simp: node_effect_def split: if_splits)
  qed
  have "delset_origin (e # es) m ?x" if "kv_val e = LOGICALDELETE"
    using that by (auto simp: delset_origin_def last_write_Cons last_write_None
        dest: last_write_Some intro!: exI [of _ 1] split: option.splits)
  with old new d1 show ?case by auto
qed

end
