(* ===== verification/Versions.thy ===== *)
theory Versions
  imports Tx_Write
begin

text \<open>
  Version chains: the current version of a record lives in its memory node, older ones in nodes
  linked through \<open>oldVersions\<close>. \<open>DBROTX::ScanMemNode\<close> (\<^verbatim>\<open>db/dbrotx.cc\<close>) walks the chain to the
  newest version that is not younger than the reader's snapshot; \<open>WriteSet::Write\<close> extends it.
\<close>

section \<open>Scanning a chain\<close>

text \<open>The loop of \<open>ScanMemNode\<close>; None when it does not end, which a cyclic chain would cause.\<close>

partial_function (option) Scan_oldVersions :: "u64 \<Rightarrow> mem \<Rightarrow> nptr \<Rightarrow> nptr option" where
  "Scan_oldVersions oldsnapshot m n =
     (if n \<noteq> NULLP \<and> oldsnapshot < mn_counter (nodes m n)
      then Scan_oldVersions oldsnapshot m (mn_oldVersions (nodes m n)) else Some n)"

definition valid_value :: "vptr \<Rightarrow> vptr option" where
  "valid_value v = (if ValidateValue v then Some v else None)"

definition ScanMemNode :: "u64 \<Rightarrow> mem \<Rightarrow> nptr \<Rightarrow> vptr option option" where
  "ScanMemNode oldsnapshot m n =
     (if n = NULLP then Some None
      else if mn_counter (nodes m n) \<le> oldsnapshot then Some (valid_value (mn_value (nodes m n)))
      else case Scan_oldVersions oldsnapshot m (mn_oldVersions (nodes m n)) of
             None \<Rightarrow> None
           | Some n' \<Rightarrow>
               Some (if n' \<noteq> NULLP \<and> mn_counter (nodes m n') \<le> oldsnapshot
                     then valid_value (mn_value (nodes m n')) else None))"

text \<open>The nodes of a chain, newest first.\<close>

fun vchain :: "mem \<Rightarrow> nptr \<Rightarrow> nptr list \<Rightarrow> bool" where
  "vchain m n [] \<longleftrightarrow> n = NULLP"
| "vchain m n (p # ps) \<longleftrightarrow> n = p \<and> p \<noteq> NULLP \<and> vchain m (mn_oldVersions (nodes m p)) ps"

text \<open>What a reader of snapshot \<open>s\<close> is meant to see: the first version that is old enough.\<close>

definition visible :: "u64 \<Rightarrow> mem \<Rightarrow> nptr list \<Rightarrow> vptr option" where
  "visible s m ns =
     (case find (\<lambda>p. mn_counter (nodes m p) \<le> s) ns of
        None \<Rightarrow> None | Some p \<Rightarrow> valid_value (mn_value (nodes m p)))"

lemma vchain_cong: "(\<And>p. p \<in> set ns \<Longrightarrow> nodes m' p = nodes m p) \<Longrightarrow> vchain m' n ns = vchain m n ns"
  by (induction ns arbitrary: n) auto

lemma visible_cong:
  "(\<And>p. p \<in> set ns \<Longrightarrow> nodes m' p = nodes m p) \<Longrightarrow> visible s m' ns = visible s m ns"
  unfolding visible_def by (induction ns) auto

lemma visible_Nil [simp]: "visible s m [] = None"
  by (simp add: visible_def)

lemma visible_Cons: "visible s m (p # ns) =
    (if mn_counter (nodes m p) \<le> s then valid_value (mn_value (nodes m p)) else visible s m ns)"
  by (simp add: visible_def)

lemma vchain_unique: "vchain m n ns \<Longrightarrow> vchain m n ns' \<Longrightarrow> ns = ns'"
proof (induction ns arbitrary: n ns')
  case Nil
  then show ?case by (cases ns') auto
next
  case (Cons p ns)
  then show ?case by (cases ns') auto
qed

lemma Scan_oldVersions_vchain:
  "vchain m n ns \<Longrightarrow> Scan_oldVersions s m n =
     Some (case find (\<lambda>p. mn_counter (nodes m p) \<le> s) ns of None \<Rightarrow> NULLP | Some p \<Rightarrow> p)"
proof (induction ns arbitrary: n)
  case Nil
  then show ?case by (subst Scan_oldVersions.simps) simp
next
  case (Cons p ns)
  then show ?case by (subst Scan_oldVersions.simps) auto
qed

lemma vchain_find:
  assumes "vchain m n ns" and "find P ns = Some p"
  shows "p \<noteq> NULLP" and "P p"
proof -
  have "p \<in> set ns" using assms(2) by (auto simp: find_Some_iff)
  moreover have "NULLP \<notin> set ns" using assms(1) by (induction ns arbitrary: n) auto
  ultimately show "p \<noteq> NULLP" by (cases "p = NULLP") auto
  show "P p" using assms(2) by (auto simp: find_Some_iff)
qed

lemma ScanMemNode_vchain:
  assumes "vchain m n ns"
  shows "ScanMemNode s m n = Some (visible s m ns)"
proof (cases ns)
  case Nil
  then show ?thesis using assms by (simp add: ScanMemNode_def visible_def)
next
  case (Cons p ps)
  then have n: "n = p" "p \<noteq> 0" and tl: "vchain m (mn_oldVersions (nodes m p)) ps"
    using assms by auto
  show ?thesis
    using n vchain_find [OF tl, of "\<lambda>p. mn_counter (nodes m p) \<le> s"]
    by (auto simp: ScanMemNode_def Cons Scan_oldVersions_vchain [OF tl] visible_def split: option.splits)
qed

section \<open>Writes and snapshots\<close>

text \<open>
  The records of a store: every head node has a chain of nodes in use, and the chains of different
  records share no node.
\<close>

definition heads_ok :: "mem \<Rightarrow> nptr OBJPool list \<Rightarrow> nptr set \<Rightarrow> (nptr \<Rightarrow> nptr list) \<Rightarrow> bool" where
  "heads_ok m ps H ch \<longleftrightarrow>
     (\<forall>q \<in> H. vchain m q (ch q) \<and> (\<forall>p \<in> set (ch q). in_use m ps p))
   \<and> (\<forall>q \<in> H. \<forall>q' \<in> H. q \<noteq> q' \<longrightarrow> set (ch q) \<inter> set (ch q') = {})"

text \<open>
  A head is stable when it carries a snapshot number, or has nothing a reader could see: a node
  with counter 0 is one that no transaction has written yet.
\<close>

definition stable_head :: "mem \<Rightarrow> nptr \<Rightarrow> bool" where
  "stable_head m q \<longleftrightarrow> (mn_counter (nodes m q) = 0 \<longrightarrow>
     \<not> ValidateValue (mn_value (nodes m q)) \<and> mn_oldVersions (nodes m q) = NULLP)"

text \<open>Free nodes are allocated, and no node is free in two pools.\<close>

definition pools_wf :: "mem \<Rightarrow> nptr OBJPool list \<Rightarrow> bool" where
  "pools_wf m ps \<longleftrightarrow> pools_ok ps \<and> (\<forall>p \<in> pools_free ps. 0 < p \<and> p < brk m)
     \<and> (\<forall>i < length ps. \<forall>j < length ps. i \<noteq> j \<longrightarrow> set (free_objs (ps ! i)) \<inter> set (free_objs (ps ! j)) = {})"

lemma pools_free_nth: "x \<in> pools_free ps \<longleftrightarrow> (\<exists>i < length ps. x \<in> set (free_objs (ps ! i)))"
proof
  assume "x \<in> pools_free ps"
  then obtain P where "P \<in> set ps" "x \<in> set (free_objs P)" by (auto simp: pools_free_def)
  then show "\<exists>i < length ps. x \<in> set (free_objs (ps ! i))" by (metis in_set_conv_nth)
qed (auto simp: pools_free_def)

lemma GetMemNode_wf:
  assumes wf: "pools_wf m ps" and t: "t < length ps" and b: "0 < brk m"
    and get: "DBTables_GetMemNode t (m, ps) = (dm, m', ps')"
  shows "pools_wf m' ps'" and "in_use m' ps' dm" and "dm \<noteq> NULLP"
proof -
  have ok: "pools_ok ps" using wf by (simp add: pools_wf_def)
  have inv: "free_inv (ps ! t)" using ok t by (simp add: pools_ok_def)
  note g = GetMemNode_correct [OF ok t get]
  have dm: "0 < dm \<and> dm < brk m'"
    using wf g(4,7,9) b unfolding pools_wf_def by fastforce
  then show "dm \<noteq> NULLP" by simp
  have "dm \<notin> pools_free ps' \<and> (\<forall>i < length ps. set (free_objs (ps' ! i)) \<subseteq> set (free_objs (ps ! i)))"
  proof (cases "free_objs (ps ! t)")
    case Nil
    then have "ps' = ps \<and> dm = brk m"
      using get inv by (auto simp: DBTables_GetMemNode_def free_inv_Nil GetMemNode_def)
    with wf show ?thesis by (auto simp: pools_wf_def)
  next
    case (Cons x xs)
    obtain P where P: "GetFreeObj (ps ! t) = (Some x, P)" "free_inv P" "free_objs P = xs" "x \<notin> set xs"
      by (rule free_inv_Cons [OF inv Cons])
    then have eq: "ps' = ps[t := P]" "dm = x" using get by (auto simp: DBTables_GetMemNode_def)
    note P(4)
    moreover have "x \<notin> set (free_objs (ps ! i))" if "i < length ps" "i \<noteq> t" for i
      using wf that t Cons unfolding pools_wf_def by force
    ultimately have "x \<notin> set (free_objs (ps' ! i))" if "i < length ps" for i
      using that P(3) by (cases "i = t") (simp_all add: eq)
    moreover have "set (free_objs (ps' ! i)) \<subseteq> set (free_objs (ps ! i))" if "i < length ps" for i
      using that P(3) Cons by (cases "i = t") (auto simp: eq)
    ultimately show ?thesis by (simp add: eq pools_free_nth)
  qed
  then have nin: "dm \<notin> pools_free ps'"
    and sub: "\<And>i. i < length ps \<Longrightarrow> set (free_objs (ps' ! i)) \<subseteq> set (free_objs (ps ! i))" by auto
  show "in_use m' ps' dm" using dm nin by (simp add: in_use_def)
  have "set (free_objs (ps' ! i)) \<inter> set (free_objs (ps' ! j)) = {}"
    if "i < length ps" "j < length ps" "i \<noteq> j" for i j
  proof -
    have "set (free_objs (ps ! i)) \<inter> set (free_objs (ps ! j)) = {}"
      using wf that by (simp add: pools_wf_def)
    then show ?thesis using sub [OF that(1)] sub [OF that(2)] by blast
  qed
  moreover have "\<forall>p \<in> pools_free ps'. 0 < p \<and> p < brk m'"
  proof
    fix p assume "p \<in> pools_free ps'"
    then have "p \<in> pools_free ps" using g(2) by blast
    then have "0 < p \<and> p < brk m" using wf by (simp add: pools_wf_def)
    then show "0 < p \<and> p < brk m'" using g(7) by simp
  qed
  ultimately show "pools_wf m' ps'" using g(1,3) by (simp add: pools_wf_def)
qed

lemma vchain_suffix: "vchain m n ns \<Longrightarrow> p \<in> set ns \<Longrightarrow> \<exists>as bs. ns = as @ bs \<and> vchain m p bs"
proof (induction ns arbitrary: n)
  case (Cons q ns)
  show ?case
  proof (cases "p = q")
    case True
    with Cons.prems show ?thesis by (intro exI [of _ "[]"] exI [of _ "q # ns"]) auto
  next
    case False
    with Cons.prems have "vchain m (mn_oldVersions (nodes m q)) ns" "p \<in> set ns" by auto
    with Cons.IH obtain as bs where "ns = as @ bs" "vchain m p bs" by blast
    then show ?thesis by (intro exI [of _ "q # as"] exI [of _ bs]) auto
  qed
qed simp

lemma vchain_tl: "vchain m n (p # ns) \<Longrightarrow> p \<notin> set ns"
proof
  assume c: "vchain m n (p # ns)" and "p \<in> set ns"
  moreover from c have "vchain m (mn_oldVersions (nodes m p)) ns" by simp
  ultimately obtain as bs where "ns = as @ bs" "vchain m p bs"
    using vchain_suffix by blast
  moreover from c have "vchain m p (p # ns)" by simp
  ultimately show False using vchain_unique [of m p bs "p # ns"] by simp
qed

text \<open>The two ways of installing a value, seen by a reader of an older snapshot.\<close>

definition chain_step :: "u64 \<Rightarrow> nptr \<Rightarrow> mem \<Rightarrow> mem \<Rightarrow> nptr list \<Rightarrow> nptr list \<Rightarrow> bool" where
  "chain_step g q m m' ns ns' \<longleftrightarrow> vchain m' q ns' \<and>
     (\<forall>s < g. stable_head m q \<longrightarrow> visible s m' ns' = visible s m ns)"

lemma Write_elem_chain:
  assumes wf: "pools_wf m ps" and w: "writable g m ps e"
    and st: "Write_elem g e (m, d, ps) = Inr (e', m', d', ps')"
    and q0: "kv_node e \<noteq> NULLP" and c: "vchain m (kv_node e) ns" and use: "\<forall>p \<in> set ns. in_use m ps p"
  obtains ns' where "chain_step g (kv_node e) m m' ns ns'" and "pools_wf m' ps'"
    and "\<forall>p \<in> set ns'. in_use m' ps' p" and "\<forall>p \<in> set ns' - set ns. \<not> in_use m ps p"
proof -
  let ?q = "kv_node e"
  have ok: "pools_ok ps" using wf by (simp add: pools_wf_def)
  note eff = Write_elem_correct(1) [OF ok w st]
  have mono: "in_use m' ps' p" if "in_use m ps p" for p using write_effect_node(2) [OF eff that] .
  have q: "in_use m ps ?q" "?q < brk m" using w by (auto simp: writable_def in_use_def)
  obtain rest where ns: "ns = ?q # rest" and c': "vchain m (mn_oldVersions (nodes m ?q)) rest"
    using c q0 by (cases ns) auto
  have nq: "?q \<notin> set rest" using vchain_tl c ns by blast
  show thesis
  proof (cases "mn_counter (nodes m ?q) = 0 \<or> mn_counter (nodes m ?q) = g")
    case True
    then have m': "m' = upd_node ?q (\<lambda>x. x\<lparr>mn_counter := g, mn_value := kv_val e, mn_seq := mn_seq x + 1\<rparr>) m"
        "ps' = ps"
      using st by (auto simp: Write_elem_inplace and_then_eq_Inr)
    have frame: "nodes m' p = nodes m p" if "p \<in> set rest" for p
      using that nq m' by (auto simp: nodes_upd_node)
    have "vchain m' ?q ns"
      using c' q0 vchain_cong [of rest m' m] frame by (simp add: ns m')
    moreover have "visible s m' ns = visible s m ns" if "s < g" "stable_head m ?q" for s
      using that True visible_cong [of rest m' m s] frame c'
      by (cases rest) (auto simp: ns visible_Cons m' stable_head_def valid_value_def visible_def)
    ultimately show thesis
      using that [of ns] wf use mono by (auto simp: chain_step_def m' pools_wf_def)
  next
    case new: False
    then have lt: "mn_counter (nodes m ?q) < g" using w by (auto simp: writable_def order_less_le)
    obtain dm m2 ps1 where gm: "DBTables_GetMemNode (kv_tableid e) (m, ps) = (dm, m2, ps1)"
      by (metis prod_cases3)
    have t: "kv_tableid e < length ps" using w by (simp add: writable_def)
    note g = GetMemNode_correct [OF ok t gm]
    note gw = GetMemNode_wf [OF wf t _ gm]
    have b: "0 < brk m" using q by simp
    have dm: "\<not> in_use m ps dm" using g(4) by (auto simp: in_use_def)
    then have dq: "dm \<noteq> ?q" using q by auto
    have same: "nodes m2 p = nodes m p" if "in_use m ps p" for p
      using g(6) that dm by metis
    have m': "m' = upd_node ?q (\<lambda>x. x\<lparr>mn_oldVersions := dm, mn_counter := g, mn_value := kv_val e,
            mn_seq := mn_seq x + 1\<rparr>)
          (upd_node dm (\<lambda>x. x\<lparr>mn_value := mn_value (nodes m ?q), mn_counter := mn_counter (nodes m ?q),
            mn_seq := mn_seq (nodes m ?q), mn_oldVersions := mn_oldVersions (nodes m ?q)\<rparr>) m2)"
        "ps' = ps1"
      using st new lt same [OF q(1)]
      by (auto simp: Write_elem_newversion [OF _ lt gm] and_then_eq_Inr Let_def)
    have frame: "nodes m' p = nodes m p" if "p \<in> set rest" for p
    proof -
      have "in_use m ps p" using use that ns by simp
      then show ?thesis using same dm nq that by (auto simp: m' nodes_upd_node)
    qed
    have dm': "nodes m' dm = (nodes m ?q)\<lparr>mn_gcRef := mn_gcRef (nodes m2 dm)\<rparr>"
      using dq by (simp add: m')
    have "vchain m' ?q (?q # dm # rest)"
      using c' q0 gw(3) [OF b] vchain_cong [of rest m' m] frame dm' by (simp add: m'(1))
    moreover have "visible s m' (?q # dm # rest) = visible s m ns" if "s < g" for s
      using that visible_cong [of rest m' m s] frame dm'
      by (auto simp: ns visible_Cons m'(1) dest: leD)
    moreover have "pools_wf m' ps'" using gw(1) [OF b] by (simp add: m' pools_wf_def)
    moreover have "in_use m' ps' dm" using gw(2) [OF b] by (simp add: m' in_use_def)
    ultimately show thesis
      using that [of "?q # dm # rest"] use mono dm ns by (auto simp: chain_step_def)
  qed
qed

lemma heads_disjoint:
  "heads_ok m ps H ch \<Longrightarrow> q \<in> H \<Longrightarrow> q' \<in> H \<Longrightarrow> q \<noteq> q' \<Longrightarrow> p \<in> set (ch q) \<Longrightarrow> p \<notin> set (ch q')"
  unfolding heads_ok_def by blast

lemma nonnull_mem: "NULLP \<notin> H \<Longrightarrow> q \<in> H \<Longrightarrow> 0 < q"
  by (cases q) auto

lemma Write_elem_heads:
  assumes wf: "pools_wf m ps" and w: "writable g m ps e"
    and st: "Write_elem g e (m, d, ps) = Inr (e', m', d', ps')"
    and h: "heads_ok m ps H ch" and e: "kv_node e \<in> H" and H0: "NULLP \<notin> H" and g: "g \<noteq> 0"
  obtains ch' where "heads_ok m' ps' H ch'" and "pools_wf m' ps'"
    and "\<forall>q \<in> H. stable_head m q \<longrightarrow> stable_head m' q \<and> (\<forall>s < g. visible s m' (ch' q) = visible s m (ch q))"
proof -
  let ?q = "kv_node e"
  have q: "?q \<noteq> NULLP" "vchain m ?q (ch ?q)" "\<forall>p \<in> set (ch ?q). in_use m ps p"
    using h e H0 nonnull_mem by (auto simp: heads_ok_def)
  have eff: "write_effect g e m ps e' m' ps'"
    using Write_elem_correct(1) [OF _ w st] wf by (simp add: pools_wf_def)
  obtain ns' where step: "chain_step g ?q m m' (ch ?q) ns'" and wf': "pools_wf m' ps'"
    and use': "\<forall>p \<in> set ns'. in_use m' ps' p" and new: "\<forall>p \<in> set ns' - set (ch ?q). \<not> in_use m ps p"
    by (rule Write_elem_chain [OF wf w st q])
  have other: "nodes m' p = nodes m p \<and> in_use m' ps' p \<and> p \<notin> set ns'"
    if "q' \<in> H" "q' \<noteq> ?q" "p \<in> set (ch q')" for q' p
  proof -
    have "in_use m ps p" "p \<notin> set (ch ?q)"
      using h that e heads_disjoint [OF h that(1) e that(2)] by (auto simp: heads_ok_def)
    moreover have "?q \<in> set (ch ?q)" using q by (cases "ch ?q") auto
    ultimately have "in_use m ps p" "p \<notin> set ns'" "p \<noteq> ?q" using new by auto
    then show ?thesis
      using eff write_effect_node(2) [OF eff] by (simp add: write_effect_def in_use_def)
  qed
  let ?ch = "ch(?q := ns')"
  have chains: "vchain m' q' (?ch q') \<and> (\<forall>p \<in> set (?ch q'). in_use m' ps' p)" if "q' \<in> H" for q'
    using that step use' other h vchain_cong [of "ch q'" m' m q']
    by (auto simp: chain_step_def heads_ok_def)
  have disj: "set (?ch p) \<inter> set (?ch p') = {}" if "p \<in> H" "p' \<in> H" "p \<noteq> p'" for p p'
    using that other h by (auto simp: heads_ok_def)
  have vis: "stable_head m' p \<and> (\<forall>s < g. visible s m' (?ch p) = visible s m (ch p))"
    if "p \<in> H" "stable_head m p" for p
  proof (cases "p = ?q")
    case True
    then show ?thesis
      using step that eff g by (auto simp: chain_step_def stable_head_def write_effect_def)
  next
    case False
    have "vchain m p (ch p)" "p \<noteq> 0" using h that H0 nonnull_mem by (auto simp: heads_ok_def)
    then have "p \<in> set (ch p)" by (cases "ch p") auto
    then show ?thesis
      using that False other [OF that(1) False] visible_cong [of "ch p" m' m]
      by (auto simp: stable_head_def)
  qed
  show thesis by (rule that [of ?ch]) (use chains disj wf' vis in \<open>auto simp: heads_ok_def\<close>)
qed

lemma Write_list_heads:
  assumes "pools_wf m ps" and "\<forall>e \<in> set es. writable g m ps e \<and> kv_node e \<in> H"
    and "map_state (Write_elem g) es (m, d, ps) = Inr (es', m', d', ps')"
    and "heads_ok m ps H ch" and "NULLP \<notin> H" and "g \<noteq> 0"
  shows "\<exists>ch'. heads_ok m' ps' H ch' \<and> pools_wf m' ps' \<and>
    (\<forall>q \<in> H. stable_head m q \<longrightarrow> stable_head m' q \<and> (\<forall>s < g. visible s m' (ch' q) = visible s m (ch q)))"
  using assms
proof (induction es arbitrary: m d ps es' ch)
  case Nil
  then show ?case by auto
next
  case (Cons e es)
  from Cons.prems(3) obtain e1 m1 d1 ps1 es1 where
    hd: "Write_elem g e (m, d, ps) = Inr (e1, m1, d1, ps1)"
    and tl: "map_state (Write_elem g) es (m1, d1, ps1) = Inr (es1, m', d', ps')"
    by (auto simp: and_then_eq_Inr)
  have w: "writable g m ps e" "kv_node e \<in> H" using Cons.prems(2) by auto
  obtain ch1 where 1: "heads_ok m1 ps1 H ch1" "pools_wf m1 ps1"
      "\<forall>q \<in> H. stable_head m q \<longrightarrow> stable_head m1 q \<and> (\<forall>s < g. visible s m1 (ch1 q) = visible s m (ch q))"
    by (rule Write_elem_heads [OF Cons.prems(1) w(1) hd Cons.prems(4) w(2) Cons.prems(5,6)])
  have "write_effect g e m ps e1 m1 ps1"
    using Write_elem_correct(1) [OF _ w(1) hd] Cons.prems(1) by (simp add: pools_wf_def)
  then have "\<forall>e \<in> set es. writable g m1 ps1 e \<and> kv_node e \<in> H"
    using write_effect_writable Cons.prems(2) by auto
  from Cons.IH [OF 1(2) this tl 1(1) Cons.prems(5,6)] 1(3) show ?case by auto
qed

lemma WriteSet_Write_Inr:
  assumes "WriteSet_Write g w (m, d, ps) = Inr (w', m', d', ps')"
  obtains es where "map_state (Write_elem g) (ws_entries w) (m, d, ps) = Inr (es, m', d', ps')"
    and "w' = w\<lparr>ws_kvs := es @ drop (ws_elems w) (ws_kvs w)\<rparr>"
  using assms by (auto simp: WriteSet_Write_def and_then_eq_Inr)

section \<open>Snapshot reads\<close>

text \<open>
  The state in which a commit runs its writes: well-formed pools, records with disjoint version
  chains, and a write set whose nodes are records no newer than the global snapshot number.
\<close>

definition commit_pre :: "u64 \<Rightarrow> WriteSet \<Rightarrow> mem \<Rightarrow> nptr OBJPool list \<Rightarrow> nptr set \<Rightarrow> (nptr \<Rightarrow> nptr list) \<Rightarrow> bool" where
  "commit_pre g w m ps H ch \<longleftrightarrow> pools_wf m ps \<and> heads_ok m ps H ch \<and> NULLP \<notin> H \<and> g \<noteq> 0
     \<and> (\<forall>e \<in> set (ws_entries w). writable g m ps e \<and> kv_node e \<in> H)"

lemma head_in_use:
  assumes "heads_ok m ps H ch" and "NULLP \<notin> H" and "q \<in> H"
  shows "in_use m ps q"
proof -
  have "vchain m q (ch q)" "q \<noteq> 0" using assms nonnull_mem by (auto simp: heads_ok_def)
  then have "q \<in> set (ch q)" by (cases "ch q") auto
  with assms show ?thesis by (auto simp: heads_ok_def)
qed

text \<open>
  C2. Snapshot isolation of a commit. When a transaction installs its write set at snapshot number
  g, a read-only transaction that runs at an older snapshot s sees of every stable record what it
  saw before the commit, and its walk along the version chain ends.
\<close>

theorem snapshot_read_stable:
  assumes "commit_pre g w m ps H ch" and "WriteSet_Write g w (m, d, ps) = Inr (w', m', d', ps')"
    and "q \<in> H" and "stable_head m q" and "s < g"
  shows "ScanMemNode s m' q = ScanMemNode s m q \<and> (\<exists>v. ScanMemNode s m' q = Some v)"
proof -
  obtain es where st: "map_state (Write_elem g) (ws_entries w) (m, d, ps) = Inr (es, m', d', ps')"
    by (rule WriteSet_Write_Inr [OF assms(2)])
  from assms(1) obtain ch' where "heads_ok m' ps' H ch'"
    "visible s m' (ch' q) = visible s m (ch q)"
    using Write_list_heads [OF _ _ st] assms(3-5) unfolding commit_pre_def by metis
  moreover have "vchain m q (ch q)" using assms(1,3) by (simp add: commit_pre_def heads_ok_def)
  ultimately show ?thesis
    using assms(3) ScanMemNode_vchain [of m' q "ch' q"] ScanMemNode_vchain [of m q "ch q"]
    by (auto simp: heads_ok_def)
qed

text \<open>
  C3. A reader at snapshot g or later sees the commit: for a record in the write set, the value
  written last; for any other record, exactly what it saw before.
\<close>

theorem snapshot_read_current:
  assumes "commit_pre g w m ps H ch" and "WriteSet_Write g w (m, d, ps) = Inr (w', m', d', ps')"
    and "q \<in> H" and "g \<le> s"
  shows "ScanMemNode s m' q =
    (case last_write q (ws_entries w) of Some v \<Rightarrow> Some (valid_value v) | None \<Rightarrow> ScanMemNode s m q)"
proof -
  obtain es where st: "map_state (Write_elem g) (ws_entries w) (m, d, ps) = Inr (es, m', d', ps')"
    by (rule WriteSet_Write_Inr [OF assms(2)])
  have pre: "pools_ok ps" "\<forall>e \<in> set (ws_entries w). writable g m ps e" "in_use m ps q" "q \<noteq> 0"
    "heads_ok m ps H ch"
    using assms(1,3) head_in_use [of m ps H ch q] nonnull_mem by (auto simp: commit_pre_def pools_wf_def)
  then have eff: "\<And>p. in_use m ps p \<Longrightarrow> node_effect g (ws_entries w) m m' p"
    using Write_list_correct [OF _ _ st] by blast
  show ?thesis
  proof (cases "last_write q (ws_entries w)")
    case (Some v)
    then show ?thesis
      using eff [OF pre(3)] last_write_Some [OF Some] assms(4) pre(4)
      by (auto simp: node_effect_def ScanMemNode_def)
  next
    case None
    have "nodes m' p = nodes m p" if "p \<in> set (ch q)" for p
    proof (rule ccontr)
      assume ne: "nodes m' p \<noteq> nodes m p"
      have p: "in_use m ps p" using pre(5) that assms(3) by (auto simp: heads_ok_def)
      then have "n_writes p (ws_entries w) \<noteq> 0" using ne eff by (auto simp: node_effect_def)
      then have "p \<in> H" using assms(1) by (auto simp: n_writes_0 commit_pre_def)
      moreover have "p \<noteq> q" using None \<open>n_writes p (ws_entries w) \<noteq> 0\<close> by (auto simp: last_write_None)
      moreover have "p \<in> set (ch p)"
        using \<open>p \<in> H\<close> assms(1) pre(5) by (cases "ch p") (auto simp: heads_ok_def commit_pre_def)
      ultimately show False using heads_disjoint [OF pre(5), of p q p] that assms(3) by blast
    qed
    then have "vchain m' q (ch q) \<and> visible s m' (ch q) = visible s m (ch q) \<and> vchain m q (ch q)"
      using vchain_cong [of "ch q" m' m q] visible_cong [of "ch q" m' m s] pre(5) assms(3)
      by (auto simp: heads_ok_def)
    then show ?thesis
      using None ScanMemNode_vchain [of m' q "ch q" s] ScanMemNode_vchain [of m q "ch q" s] by simp
  qed
qed

section \<open>Snapshot reads on concrete heaps\<close>

text \<open>
  A store with two records: node 1, written at snapshot 2 with an older version in node 3, and
  node 2, inserted but never written. The transaction writes both at snapshot 5.
\<close>

definition ex_mem :: mem where
  "ex_mem = \<lparr>nodes = (\<lambda>_. MemNode_new)
     (1 := \<lparr>mn_seq = 2, mn_counter = 2, mn_value = 20, mn_oldVersions = 3, mn_gcRef = 0\<rparr>,
      3 := \<lparr>mn_seq = 1, mn_counter = 1, mn_value = 10, mn_oldVersions = 0, mn_gcRef = 0\<rparr>),
     brk = 4, words = (\<lambda>_. 0)\<rparr>"

definition ex_ws :: WriteSet where
  "ex_ws = WriteSet_Add 0 8 80 2 (WriteSet_Add 0 7 70 1 (WriteSet_alloc 2))"

definition ex_chain :: "nptr \<Rightarrow> nptr list" where
  "ex_chain q = (if q = 1 then [1, 3] else [2])"

lemma ex_ws_entries: "ws_entries ex_ws =
   [WSKV_blank\<lparr>kv_key := 7, kv_val := 70, kv_node := 1\<rparr>, WSKV_blank\<lparr>kv_key := 8, kv_val := 80, kv_node := 2\<rparr>]"
  by (simp add: ex_ws_def WriteSet_Add_def WriteSet_alloc_def ws_entries_def Let_def WSKV_blank_def
      numeral_2_eq_2)

lemma ex_commit_pre: "commit_pre 5 ex_ws ex_mem [OBJPool_new] {1, 2} ex_chain"
proof -
  have "free_objs (OBJPool_new :: nptr OBJPool) = []" by (simp add: OBJPool_new_def free_objs_def)
  then show ?thesis
    by (simp add: commit_pre_def pools_wf_def pools_ok_def pool_inv_free_inv pool_inv_new pools_free_def heads_ok_def
        ex_chain_def in_use_def ex_mem_def writable_def ex_ws_entries WSKV_blank_def MemNode_new_def)
qed

lemma ex_write: "\<exists>w' m' d' ps'. WriteSet_Write 5 ex_ws (ex_mem, DELSet_new, [OBJPool_new]) = Inr (w', m', d', ps')"
  by (simp add: WriteSet_Write_def ex_ws_entries WSKV_blank_def Write_elem_def ex_mem_def MemNode_new_def
      LOGICALDELETE_def DBTables_GetMemNode_def GetFreeObj_def OBJPool_new_def GetMemNode_def Let_def upd_node_def)

theorem snapshot_read_stable_witness:
  "\<exists>w' m' d' ps'. WriteSet_Write 5 ex_ws (ex_mem, DELSet_new, [OBJPool_new]) = Inr (w', m', d', ps')
     \<and> ScanMemNode 1 m' 1 = ScanMemNode 1 ex_mem 1 \<and> ScanMemNode 1 ex_mem 1 = Some (Some 10)"
proof -
  obtain w' m' d' ps' where st: "WriteSet_Write 5 ex_ws (ex_mem, DELSet_new, [OBJPool_new]) = Inr (w', m', d', ps')"
    using ex_write by blast
  have "ScanMemNode 1 m' 1 = ScanMemNode 1 ex_mem 1"
    using snapshot_read_stable [OF ex_commit_pre st, of 1 1] by (simp add: stable_head_def ex_mem_def)
  moreover have "ScanMemNode 1 ex_mem 1 = Some (Some 10)"
    by (subst ScanMemNode_vchain [of _ _ "[1, 3]"])
       (simp_all add: ex_mem_def visible_Cons word_le_nat_alt valid_value_def ValidateValue_def LOGICALDELETE_def HAVEREMOVED_def)
  ultimately show ?thesis using st by blast
qed

theorem snapshot_read_current_witness:
  "\<exists>w' m' d' ps'. WriteSet_Write 5 ex_ws (ex_mem, DELSet_new, [OBJPool_new]) = Inr (w', m', d', ps')
     \<and> ScanMemNode 5 m' 1 = Some (Some 70)"
proof -
  obtain w' m' d' ps' where st: "WriteSet_Write 5 ex_ws (ex_mem, DELSet_new, [OBJPool_new]) = Inr (w', m', d', ps')"
    using ex_write by blast
  have "ScanMemNode 5 m' 1 = Some (Some 70)"
    using snapshot_read_current [OF ex_commit_pre st, of 1 5]
    by (simp add: ex_ws_entries WSKV_blank_def last_write_Cons valid_value_def ValidateValue_def
        LOGICALDELETE_def HAVEREMOVED_def)
  then show ?thesis using st by blast
qed

text \<open>
  C9. The hypothesis of stability cannot be dropped. A tuple put in by the initial load keeps
  counter 0, so the first transaction that updates it overwrites its value in place and stamps the
  node with the current snapshot number: a reader at an older snapshot saw the tuple before the
  commit and finds no version at all afterwards.
\<close>

theorem loaded_tuple_lost:
  assumes "mn_counter (nodes m q) = 0" and "mn_oldVersions (nodes m q) = NULLP"
    and "ValidateValue (mn_value (nodes m q))" and "ValidateValue v" and "q \<noteq> NULLP" and "s < g"
    and "kv_node e = q" and "kv_val e = v"
  shows "ScanMemNode s m q = Some (Some (mn_value (nodes m q)))
    \<and> (\<exists>e' m'. Write_elem g e (m, d, ps) = Inr (e', m', d, ps) \<and> ScanMemNode s m' q = Some None)"
proof -
  let ?m = "upd_node q (\<lambda>x. x\<lparr>mn_counter := g, mn_value := v, mn_seq := mn_seq x + 1\<rparr>) m"
  have st: "\<exists>e'. Write_elem g e (m, d, ps) = Inr (e', ?m, d, ps)"
    using assms Write_elem_inplace [of m e g d ps] by (auto simp: Write_del_def ValidateValue_def)
  have "vchain ?m q [q]" using assms by simp
  then have "ScanMemNode s ?m q = Some (visible s ?m [q])" by (rule ScanMemNode_vchain)
  moreover have "visible s ?m [q] = None" using assms(6) by (auto simp: visible_Cons dest: leD)
  ultimately have "ScanMemNode s ?m q = Some None" by simp
  moreover have "ScanMemNode s m q = Some (Some (mn_value (nodes m q)))"
    using assms by (simp add: ScanMemNode_def valid_value_def)
  ultimately show ?thesis using st by blast
qed

theorem loaded_tuple_lost_witness:
  "let m = ex_mem\<lparr>nodes := (nodes ex_mem)(2 := MemNode_new\<lparr>mn_value := 33\<rparr>)\<rparr>;
       e = WSKV_blank\<lparr>kv_node := 2, kv_val := 44\<rparr>
   in ScanMemNode 3 m 2 = Some (Some 33)
      \<and> (\<exists>e' m'. Write_elem 5 e (m, DELSet_new, []) = Inr (e', m', DELSet_new, []) \<and> ScanMemNode 3 m' 2 = Some None)"
  using loaded_tuple_lost [of "ex_mem\<lparr>nodes := (nodes ex_mem)(2 := MemNode_new\<lparr>mn_value := 33\<rparr>)\<rparr>" 2 44 3 5
      "WSKV_blank\<lparr>kv_node := 2, kv_val := 44\<rparr>" DELSet_new "[]"]
  by (simp add: MemNode_new_def ValidateValue_def LOGICALDELETE_def HAVEREMOVED_def WSKV_blank_def)

end
