(* ===== verification/Epochs.thy ===== *)
theory Epochs
  imports Rcu
begin

text \<open>
  \<^verbatim>\<open>db/epoch.h\<close> and \<^verbatim>\<open>db/epoch.cc\<close>: the epoch counters of the older collector. An epoch is the array of
  the threads' counters; \<open>getCurrentEpoch\<close> copies it with the top bits cleared, and \<open>Compare\<close> orders a
  copy against a later state. The counters work as those of \<open>RCU\<close>, and the lemmas of that theory carry
  over: a copy is smaller than the current state exactly when every thread has left the transaction it
  was in when the copy was made.
\<close>

section \<open>The epoch object\<close>

record Epoch =
  counters :: "u64 list"
  e_thrs_num :: nat

definition Epoch_new :: "nat \<Rightarrow> Epoch" where
  "Epoch_new thrs = \<lparr>counters = replicate thrs (ENDMASK OR 0), e_thrs_num = thrs\<rparr>"

definition Epoch_of :: "nat \<Rightarrow> u64 list \<Rightarrow> Epoch" where
  "Epoch_of thrs cs = \<lparr>counters = cs, e_thrs_num = thrs\<rparr>"

definition getCurrentEpoch :: "Epoch \<Rightarrow> Epoch" where
  "getCurrentEpoch e = Epoch_of (e_thrs_num e) (map (\<lambda>i. (counters e ! i) AND BEGMASK) [0..<e_thrs_num e])"

definition Epoch_beginTX :: "nat \<Rightarrow> Epoch \<Rightarrow> Epoch" where
  "Epoch_beginTX tid e = (let cs = (counters e)[tid := counters e ! tid + 1]
     in e\<lparr>counters := cs[tid := cs ! tid AND BEGMASK]\<rparr>)"

definition Epoch_endTX :: "nat \<Rightarrow> Epoch \<Rightarrow> Epoch" where
  "Epoch_endTX tid e = e\<lparr>counters := (counters e)[tid := counters e ! tid OR ENDMASK]\<rparr>"

text \<open>
  \<open>Compare\<close>: None when the loop returns 0 at once because some counter is equal, otherwise the number
  of counters that are smaller. Where the two epochs are incomparable the code asserts.
\<close>

fun Compare_loop :: "u64 list \<Rightarrow> u64 list \<Rightarrow> nat \<Rightarrow> nat \<Rightarrow> nat \<Rightarrow> nat option" where
  "Compare_loop cs ds i 0 res = Some res"
| "Compare_loop cs ds i (Suc n) res =
     (if cs ! i = ds ! i then None
      else if cs ! i < ds ! i then Compare_loop cs ds (Suc i) n (res + 1)
      else Compare_loop cs ds (Suc i) n res)"

definition Epoch_Compare :: "Epoch \<Rightarrow> Epoch \<Rightarrow> fault + int" where
  "Epoch_Compare e e' =
     (case Compare_loop (counters e) (counters e') 0 (e_thrs_num e) 0 of
        None \<Rightarrow> Inr 0
      | Some res \<Rightarrow>
          if res = e_thrs_num e then Inr (- 1)
          else if res = 0 then Inr 1
          else Inl AssertFail)"

section \<open>What a comparison means\<close>

lemma Compare_loop_spec:
  "Compare_loop cs ds i n res =
     (if \<exists>j \<in> set [i..<i + n]. cs ! j = ds ! j then None
      else Some (res + length (filter (\<lambda>j. cs ! j < ds ! j) [i..<i + n])))"
proof (induction n arbitrary: i res)
  case (Suc n)
  have "[i..<i + Suc n] = i # [Suc i..<Suc i + n]" by (simp add: upt_conv_Cons)
  with Suc show ?case by (simp del: upt_Suc add: add.assoc)
qed simp

lemma length_filter_all: "length (filter P xs) = length xs \<longleftrightarrow> (\<forall>x \<in> set xs. P x)"
  using length_filter_less [of _ xs P] by (force simp: filter_True)

lemma Compare_equal_iff:
  "Epoch_Compare e e' = Inr 0 \<longleftrightarrow> (\<exists>i < e_thrs_num e. counters e ! i = counters e' ! i)"
  by (auto simp: Epoch_Compare_def Compare_loop_spec)

lemma Compare_less_iff:
  "Epoch_Compare e e' = Inr (- 1) \<longleftrightarrow> (\<forall>i < e_thrs_num e. counters e ! i < counters e' ! i)"
  using length_filter_all [of "\<lambda>i. counters e ! i < counters e' ! i" "[0..<e_thrs_num e]"]
  by (auto simp: Epoch_Compare_def Compare_loop_spec)

section \<open>Epochs and grace periods\<close>

definition epoch_rcu :: "Epoch \<Rightarrow> RCU" where
  "epoch_rcu e = \<lparr>states = counters e, thrs_num = e_thrs_num e, sync = False\<rparr>"

lemma epoch_rcu_begin:
  "tid < length (counters e) \<Longrightarrow> epoch_rcu (Epoch_beginTX tid e) = RCU_BeginTX tid (epoch_rcu e)"
  by (simp add: epoch_rcu_def Epoch_beginTX_def RCU_BeginTX_def State_BeginTX_def Let_def)

lemma epoch_rcu_end: "epoch_rcu (Epoch_endTX tid e) = RCU_EndTX tid (epoch_rcu e)"
  by (simp add: epoch_rcu_def Epoch_endTX_def RCU_EndTX_def State_EndTX_def)

lemma epoch_copy: "counters (getCurrentEpoch e) = GetStatesCopy (epoch_rcu e)"
  by (simp add: getCurrentEpoch_def Epoch_of_def GetStatesCopy_def epoch_rcu_def)

text \<open>
  A history of the store's threads between two looks at the epoch. A thread begins a transaction only
  when it is in none.
\<close>

fun epoch_run :: "rcu_event list \<Rightarrow> Epoch \<Rightarrow> Epoch option" where
  "epoch_run [] e = Some e"
| "epoch_run (EvBegin j # es) e =
     (if j < e_thrs_num e \<and> \<not> in_tx (counters e ! j) then epoch_run es (Epoch_beginTX j e) else None)"
| "epoch_run (EvEnd j # es) e = (if j < e_thrs_num e then epoch_run es (Epoch_endTX j e) else None)"
| "epoch_run (EvWait # es) e = None"

definition begins :: "nat \<Rightarrow> rcu_event list \<Rightarrow> nat" where
  "begins j es = count_list es (EvBegin j)"

lemma epoch_counter_bound:
  assumes "epoch_run es e = Some e'" and "length (counters e) = e_thrs_num e" and "j < e_thrs_num e"
    and "unat (counters e ! j) mod 2 ^ 63 + begins j es < 2 ^ 63"
  shows "let k = unat (counters e ! j) mod 2 ^ 63 + begins j es; c = counters e' ! j in
     (unat c = k \<or> unat c = k + 2 ^ 63)
   \<and> (begins j es = 0 \<longrightarrow> (if EvEnd j \<in> set es then unat c = k + 2 ^ 63 else c = counters e ! j))"
  using assms
proof (induction es e rule: epoch_run.induct)
  case (1 e)
  have "unat (counters e ! j) < 2 ^ 64" using unsigned_less [of "counters e ! j"] by simp
  then have "unat (counters e ! j) mod 2 ^ 63 = unat (counters e ! j)
      \<or> unat (counters e ! j) = unat (counters e ! j) mod 2 ^ 63 + 2 ^ 63"
    by (auto simp: mod_if)
  with 1 show ?case by (auto simp: Let_def begins_def)
next
  case (2 i es e)
  then have run: "epoch_run es (Epoch_beginTX i e) = Some e'" and i: "i < e_thrs_num e" "\<not> in_tx (counters e ! i)"
    by (auto split: if_splits)
  let ?e = "Epoch_beginTX i e"
  have c: "counters ?e ! j = (if i = j then State_BeginTX (counters e ! j) else counters e ! j)"
      "length (counters ?e) = e_thrs_num ?e" "e_thrs_num ?e = e_thrs_num e"
    using 2(3,4) i by (auto simp: Epoch_beginTX_def State_BeginTX_def Let_def)
  have "(unat (counters e ! j) + 1) mod 2 ^ 63 mod 2 ^ 63 = unat (counters e ! j) mod 2 ^ 63 + 1" if "i = j"
  proof -
    have "unat (counters e ! j) mod 2 ^ 63 + 1 < 2 ^ 63" using 2(5) that by (simp add: begins_def)
    then show ?thesis by (metis mod_add_left_eq mod_less mod_mod_trivial)
  qed
  then have k: "unat (counters ?e ! j) mod 2 ^ 63 + begins j es = unat (counters e ! j) mod 2 ^ 63 + begins j (EvBegin i # es)"
    by (auto simp: c unat_BeginTX begins_def)
  show ?case
    using 2(1) [OF conjI [OF i] run c(2)] 2(4,5) k c(1,3) by (auto simp: Let_def begins_def split: if_splits)
next
  case (3 i es e)
  then have run: "epoch_run es (Epoch_endTX i e) = Some e'" and i: "i < e_thrs_num e"
    by (auto split: if_splits)
  let ?e = "Epoch_endTX i e"
  have c: "counters ?e ! j = (if i = j then State_EndTX (counters e ! j) else counters e ! j)"
      "length (counters ?e) = e_thrs_num ?e" "e_thrs_num ?e = e_thrs_num e"
    using 3(3,4) i by (auto simp: Epoch_endTX_def State_EndTX_def)
  have k: "unat (counters ?e ! j) mod 2 ^ 63 + begins j es = unat (counters e ! j) mod 2 ^ 63 + begins j (EvEnd i # es)"
    by (auto simp: c unat_EndTX begins_def)
  show ?case
    using 3(1) [OF i run c(2)] 3(4,5) k c(1,3) by (auto simp: Let_def unat_EndTX begins_def split: if_splits)
next
  case (4 es e)
  then show ?case by simp
qed

lemma epoch_no_begin:
  assumes "epoch_run es e = Some e'" and "length (counters e) = e_thrs_num e" and "j < e_thrs_num e"
    and "in_tx (counters e ! j)" and "EvEnd j \<notin> set es"
  shows "begins j es = 0"
  using assms
proof (induction es e rule: epoch_run.induct)
  case (2 i es e)
  then have "i \<noteq> j" by (auto split: if_splits)
  with 2 show ?case
    by (auto simp: begins_def Epoch_beginTX_def Let_def split: if_splits)
next
  case (3 i es e)
  then show ?case by (auto simp: begins_def Epoch_endTX_def split: if_splits)
qed (auto simp: begins_def)



end
