(* ===== verification/Ring_Queues.thy ===== *)
theory Ring_Queues
  imports Epochs Mem_Store
begin

text \<open>
  The epoch-based collector: \<open>GCQueue\<close> (\<^verbatim>\<open>db/gcqueue.cc\<close>), \<open>RMQueue\<close> (\<^verbatim>\<open>db/rmqueue.cc\<close>) and \<open>NodeBuf\<close>
  (\<^verbatim>\<open>db/nodebuf.cc\<close>). The two queues are the same ring buffer with different elements, so the ring is
  modelled once; the locale \<open>fifo\<close> states what a bounded queue promises, the draining loop that both
  collectors run is analysed inside it, and the ring is an interpretation.
\<close>

section \<open>Bounded queues\<close>

text \<open>
  The loop \<^verbatim>\<open>while(head != tail && queue[head]->epoch->Compare(current) < 0)\<close>: take elements off the
  front as long as \<open>old\<close> answers true, and process each. None would be a loop that does not end.
\<close>

partial_function (option) drain ::
    "('q \<Rightarrow> bool) \<Rightarrow> ('q \<Rightarrow> fault + 'a) \<Rightarrow> ('q \<Rightarrow> 'q) \<Rightarrow> ('a \<Rightarrow> fault + bool) \<Rightarrow> ('a \<Rightarrow> 's \<Rightarrow> fault + 's)
      \<Rightarrow> 'q \<Rightarrow> 's \<Rightarrow> (fault + 'q \<times> 's) option" where
  "drain isempty front pop old act q s =
     (if isempty q then Some (Inr (q, s))
      else case and_then (front q) (\<lambda>x. and_then (old x) (\<lambda>b. if b then and_then (act x s) (\<lambda>s'. Inr (Some s'))
                                                             else Inr None)) of
             Inl f \<Rightarrow> Some (Inl f)
           | Inr None \<Rightarrow> Some (Inr (q, s))
           | Inr (Some s') \<Rightarrow> drain isempty front pop old act (pop q) s')"

text \<open>The same on a list.\<close>

fun drain_list :: "('a \<Rightarrow> fault + bool) \<Rightarrow> ('a \<Rightarrow> 's \<Rightarrow> fault + 's) \<Rightarrow> 'a list \<Rightarrow> 's \<Rightarrow> fault + 'a list \<times> 's" where
  "drain_list old act [] s = Inr ([], s)"
| "drain_list old act (x # xs) s =
     and_then (old x) (\<lambda>b. if b then and_then (act x s) (drain_list old act xs) else Inr (x # xs, s))"

locale fifo =
  fixes items :: "'q \<Rightarrow> 'a list" and inv :: "'q \<Rightarrow> bool" and cap :: "'q \<Rightarrow> nat"
    and isempty :: "'q \<Rightarrow> bool" and front :: "'q \<Rightarrow> fault + 'a" and pop :: "'q \<Rightarrow> 'q"
    and push :: "'a \<Rightarrow> 'q \<Rightarrow> fault + 'q"
  assumes empty_iff: "inv q \<Longrightarrow> isempty q \<longleftrightarrow> items q = []"
    and front_hd: "inv q \<Longrightarrow> items q = x # xs \<Longrightarrow> front q = Inr x"
    and pop_tl: "inv q \<Longrightarrow> items q = x # xs \<Longrightarrow> inv (pop q) \<and> items (pop q) = xs \<and> cap (pop q) = cap q"
    and push_room: "inv q \<Longrightarrow> length (items q) < cap q \<Longrightarrow>
          \<exists>q'. push x q = Inr q' \<and> inv q' \<and> items q' = items q @ [x] \<and> cap q' = cap q"
    and push_full: "inv q \<Longrightarrow> length (items q) = cap q \<Longrightarrow> push x q = Inl Exit"
begin

lemma drain_correct:
  "inv q \<Longrightarrow> case drain_list old act (items q) s of
      Inl f \<Rightarrow> drain isempty front pop old act q s = Some (Inl f)
    | Inr (xs, s') \<Rightarrow> \<exists>q'. drain isempty front pop old act q s = Some (Inr (q', s')) \<and> inv q' \<and> items q' = xs
        \<and> cap q' = cap q"
proof (induction "items q" arbitrary: q s)
  case Nil
  then show ?case by (subst drain.simps) (simp add: empty_iff)
next
  case (Cons x xs)
  note fr = front_hd [OF Cons.prems Cons.hyps(2) [symmetric]]
  note pp = pop_tl [OF Cons.prems Cons.hyps(2) [symmetric]]
  have ne: "\<not> isempty q" using Cons by (simp add: empty_iff flip: Cons.hyps(2))
  have unf: "drain isempty front pop old act q s =
      (case and_then (old x) (\<lambda>b. if b then and_then (act x s) (\<lambda>s'. Inr (Some s')) else Inr None) of
         Inl f \<Rightarrow> Some (Inl f) | Inr None \<Rightarrow> Some (Inr (q, s))
       | Inr (Some s') \<Rightarrow> drain isempty front pop old act (pop q) s')"
    by (subst drain.simps) (simp add: ne fr)
  show ?case
  proof (cases "old x")
    case (Inl f)
    then show ?thesis by (simp add: unf flip: Cons.hyps(2))
  next
    case (Inr b)
    show ?thesis
    proof (cases b)
      case False
      then show ?thesis using Inr Cons.prems Cons.hyps(2) by (auto simp add: unf simp flip: Cons.hyps(2))
    next
      case True
      show ?thesis
      proof (cases "act x s")
        case (Inl f)
        then show ?thesis using Inr True by (simp add: unf flip: Cons.hyps(2))
      next
        case (Inr s')
        then have "drain isempty front pop old act q s = drain isempty front pop old act (pop q) s'"
          and "drain_list old act (items q) s = drain_list old act xs s'"
          using \<open>old x = Inr b\<close> True by (simp_all add: unf flip: Cons.hyps(2))
        with Cons.hyps(1) [of "pop q" s'] pp show ?thesis by (auto split: sum.splits)
      qed
    qed
  qed
qed

end

section \<open>The ring buffer\<close>

record 'a ring =
  qsize :: nat
  head :: nat
  tail :: nat
  queue :: "'a option list"
  elems :: int

definition ring_new :: "'a ring" where
  "ring_new = \<lparr>qsize = 1024, head = 0, tail = 0, queue = replicate 1024 None, elems = 0\<rparr>"

definition ring_isempty :: "'a ring \<Rightarrow> bool" where
  "ring_isempty q \<longleftrightarrow> head q = tail q"

definition ring_front :: "'a ring \<Rightarrow> fault + 'a" where
  "ring_front q = (case queue q ! head q of None \<Rightarrow> Inl NullDeref | Some x \<Rightarrow> Inr x)"

definition ring_pop :: "'a ring \<Rightarrow> 'a ring" where
  "ring_pop q = q\<lparr>head := (head q + 1) mod qsize q, elems := elems q - 1\<rparr>"

definition ring_add :: "'a \<Rightarrow> 'a ring \<Rightarrow> fault + 'a ring" where
  "ring_add x q =
     (let q1 = q\<lparr>elems := elems q + 1, queue := (queue q)[tail q := Some x]\<rparr>
      in if (tail q1 + 1) mod qsize q1 = head q1 then Inl Exit
         else Inr (q1\<lparr>tail := (tail q1 + 1) mod qsize q1\<rparr>))"

definition ring_count :: "'a ring \<Rightarrow> nat" where
  "ring_count q = (tail q + qsize q - head q) mod qsize q"

definition ring_items :: "'a ring \<Rightarrow> 'a list" where
  "ring_items q = map (\<lambda>i. the (queue q ! ((head q + i) mod qsize q))) [0..<ring_count q]"

definition ring_cap :: "'a ring \<Rightarrow> nat" where
  "ring_cap q = qsize q - 1"

definition ring_inv :: "'a ring \<Rightarrow> bool" where
  "ring_inv q \<longleftrightarrow> 0 < qsize q \<and> head q < qsize q \<and> tail q < qsize q \<and> length (queue q) = qsize q
     \<and> (\<forall>i < ring_count q. queue q ! ((head q + i) mod qsize q) \<noteq> None)
     \<and> elems q = int (ring_count q)"

lemma ring_inv_new: "ring_inv ring_new" "ring_items ring_new = []" "ring_cap ring_new = 1023"
  by (simp_all add: ring_inv_def ring_new_def ring_count_def ring_items_def ring_cap_def)

lemma ring_count_pop:
  assumes "head q < qsize q" and "tail q < qsize q" and "head q \<noteq> tail q"
  shows "ring_count (ring_pop q) = ring_count q - 1" and "0 < ring_count q"
proof -
  have "(t + n - h) mod n = (if h \<le> t then t - h else t + n - h)" if "h < n" "t < n" for t h n :: nat
    using that by (auto simp: mod_if)
  then have c: "ring_count q = (if head q \<le> tail q then tail q - head q else tail q + qsize q - head q)"
    and c': "\<And>h. h < qsize q \<Longrightarrow> (tail q + qsize q - h) mod qsize q = (if h \<le> tail q then tail q - h else tail q + qsize q - h)"
    using assms by (auto simp: ring_count_def)
  show "0 < ring_count q" using assms by (auto simp: c)
  have "(head q + 1) mod qsize q = (if head q + 1 = qsize q then 0 else head q + 1)"
    using assms by (auto simp: mod_if)
  then show "ring_count (ring_pop q) = ring_count q - 1"
    using assms c' [of "(head q + 1) mod qsize q"] by (auto simp: ring_count_def ring_pop_def c [unfolded ring_count_def])
qed

lemma ring_index_inj_le:
  assumes "(h + i) mod n = (h + j) mod n" and "i \<le> j" and "j < (n :: nat)"
  shows "i = j"
proof -
  have "n dvd (h + j) - (h + i)" using assms(1,2) by (subst mod_eq_dvd_iff_nat [symmetric]) auto
  then have "n dvd j - i" by simp
  then show ?thesis using assms(2,3) by (auto dest: dvd_imp_le)
qed

lemma ring_index_inj:
  assumes "(h + i) mod n = (h + j) mod n" and "i < n" and "j < (n :: nat)"
  shows "i = j"
  using ring_index_inj_le [of h i n j] ring_index_inj_le [of h j n i] assms by (cases "i \<le> j") auto

lemma ring_tail_index:
  assumes "head q < qsize q" and "tail q < qsize q"
  shows "(head q + ring_count q) mod qsize q = tail q" and "ring_count q < qsize q"
proof -
  have "head q + (tail q + qsize q - head q) = tail q + qsize q" using assms by simp
  then show "(head q + ring_count q) mod qsize q = tail q"
    using assms by (simp add: ring_count_def mod_add_right_eq)
  show "ring_count q < qsize q" using assms by (simp add: ring_count_def)
qed

lemma ring_count_0:
  assumes "head q < qsize q" and "tail q < qsize q"
  shows "ring_count q = 0 \<longleftrightarrow> head q = tail q"
  using ring_count_pop(2) [OF assms] by (cases "head q = tail q") (auto simp: ring_count_def)

lemma ring_items_Cons:
  assumes "ring_inv q" and "head q \<noteq> tail q"
  shows "ring_items q = the (queue q ! head q) # ring_items (ring_pop q)"
proof -
  have b: "head q < qsize q" "tail q < qsize q" using assms by (auto simp: ring_inv_def)
  obtain c where c: "ring_count q = Suc c" "ring_count (ring_pop q) = c"
    using ring_count_pop [OF b assms(2)] by (metis Suc_pred')
  have "(Suc (head q) mod qsize q + i) mod qsize q = (head q + Suc i) mod qsize q" for i
    by (simp add: mod_add_left_eq)
  then have "ring_items (ring_pop q) = map (\<lambda>i. the (queue q ! ((head q + i) mod qsize q))) (map Suc [0..<c])"
    using c(2) by (simp add: ring_items_def ring_pop_def o_def)
  moreover have "[0..<Suc c] = 0 # map Suc [0..<c]" by (simp add: map_Suc_upt upt_conv_Cons del: upt_Suc)
  ultimately show ?thesis using b by (simp add: ring_items_def c(1) del: upt_Suc)
qed

lemma ring_inv_pop:
  assumes "ring_inv q" and "head q \<noteq> tail q"
  shows "ring_inv (ring_pop q)"
proof -
  have b: "head q < qsize q" "tail q < qsize q" using assms by (auto simp: ring_inv_def)
  note c = ring_count_pop [OF b assms(2)]
  have "queue q ! ((Suc (head q) mod qsize q + i) mod qsize q) \<noteq> None" if "i < ring_count q - 1" for i
  proof -
    have "(Suc (head q) mod qsize q + i) mod qsize q = (head q + Suc i) mod qsize q"
      by (simp add: mod_add_left_eq)
    moreover have "Suc i < ring_count q" using that by simp
    ultimately show ?thesis using assms(1) unfolding ring_inv_def by metis
  qed
  then show ?thesis
    using assms c by (simp add: ring_inv_def ring_pop_def)
qed

lemma ring_add_room:
  assumes inv: "ring_inv q" and room: "ring_count q < qsize q - 1"
  shows "\<exists>q'. ring_add x q = Inr q' \<and> ring_inv q' \<and> ring_items q' = ring_items q @ [x] \<and> ring_cap q' = ring_cap q"
proof -
  let ?n = "qsize q" and ?c = "ring_count q"
  have b: "head q < ?n" "tail q < ?n" "length (queue q) = ?n" using inv by (auto simp: ring_inv_def)
  note t = ring_tail_index [OF b(1,2)]
  have t': "(tail q + 1) mod ?n = (head q + Suc ?c) mod ?n"
    by (simp add: t(1) [symmetric] mod_Suc_eq)
  have ne: "(tail q + 1) mod ?n \<noteq> head q"
  proof
    assume "(tail q + 1) mod ?n = head q"
    then have "(head q + Suc ?c) mod ?n = (head q + 0) mod ?n" unfolding t' using b by simp
    then have "Suc ?c = 0" by (rule ring_index_inj) (use room in auto)
    then show False by simp
  qed
  define q' where "q' = q\<lparr>elems := elems q + 1, queue := (queue q)[tail q := Some x], tail := (tail q + 1) mod ?n\<rparr>"
  then have f: "head q' = head q" "qsize q' = ?n" "tail q' = (tail q + 1) mod ?n" "elems q' = elems q + 1"
      "queue q' = (queue q)[tail q := Some x]" by simp_all
  have add: "ring_add x q = Inr q'" using ne by (simp add: ring_add_def Let_def q'_def)
  have "tail q' < ?n" using b f by simp
  note t2 = ring_tail_index [of q', unfolded f(1,2), OF b(1) this]
  have "(head q + ring_count q') mod ?n = (head q + Suc ?c) mod ?n" using t2(1) f(3) t' by simp
  then have c: "ring_count q' = Suc ?c" by (rule ring_index_inj [OF _ t2(2)]) (use room in linarith)
  have look: "queue q' ! ((head q + i) mod ?n) = (if i = ?c then Some x else queue q ! ((head q + i) mod ?n))"
    if "i < Suc ?c" for i
  proof (cases "i = ?c")
    case True
    then show ?thesis using t b f(5) by simp
  next
    case False
    have "(head q + i) mod ?n \<noteq> tail q"
    proof
      assume "(head q + i) mod ?n = tail q"
      then have "(head q + i) mod ?n = (head q + ?c) mod ?n" using t(1) by simp
      then have "i = ?c" by (rule ring_index_inj [OF _ _ t(2)]) (use that t(2) in linarith)
      with False show False by simp
    qed
    then show ?thesis using False f(5) by simp
  qed
  have "ring_items q' = map (\<lambda>i. the (queue q' ! ((head q + i) mod ?n))) ([0..<?c] @ [?c])"
    unfolding ring_items_def c f by simp
  also have "\<dots> = ring_items q @ [x]"
    using look by (simp add: ring_items_def)
  finally have "ring_items q' = ring_items q @ [x]" .
  moreover have "\<forall>i < ring_count q'. queue q' ! ((head q' + i) mod qsize q') \<noteq> None"
    using inv look unfolding c f(1,2) ring_inv_def by (auto simp: less_Suc_eq)
  then have "ring_inv q'"
    using inv b c f by (simp add: ring_inv_def)
  ultimately show ?thesis using add f(2) by (simp add: ring_cap_def)
qed

lemma ring_add_full:
  assumes inv: "ring_inv q" and full: "ring_count q = qsize q - 1"
  shows "ring_add x q = Inl Exit"
proof -
  have b: "head q < qsize q" "tail q < qsize q" "0 < qsize q" using inv by (auto simp: ring_inv_def)
  have "(tail q + 1) mod qsize q = (head q + Suc (ring_count q)) mod qsize q"
    using ring_tail_index(1) [OF b(1,2)] by (metis Suc_eq_plus1 add_Suc_right mod_Suc_eq)
  also have "\<dots> = head q" using full b by simp
  finally show ?thesis by (simp add: ring_add_def Let_def)
qed

interpretation ring: fifo ring_items ring_inv ring_cap ring_isempty ring_front ring_pop ring_add
proof
  fix q :: "'a ring" and x xs
  assume inv: "ring_inv q"
  then have b: "head q < qsize q" "tail q < qsize q" by (auto simp: ring_inv_def)
  show e: "ring_isempty q \<longleftrightarrow> ring_items q = []"
    using ring_count_0 [OF b] by (auto simp: ring_isempty_def ring_items_def)
  {
    assume it: "ring_items q = x # xs"
    then have ne: "head q \<noteq> tail q" using e by (simp add: ring_isempty_def)
    note c = ring_items_Cons [OF inv ne]
    have "queue q ! head q \<noteq> None"
      using inv ring_count_pop(2) [OF b ne] b unfolding ring_inv_def by (metis add.right_neutral mod_less)
    with c it show "ring_front q = Inr x" by (auto simp: ring_front_def)
    show "ring_inv (ring_pop q) \<and> ring_items (ring_pop q) = xs \<and> ring_cap (ring_pop q) = ring_cap q"
      using c it ring_inv_pop [OF inv ne] by (simp add: ring_cap_def ring_pop_def)
  }
  show "length (ring_items q) < ring_cap q \<Longrightarrow>
      \<exists>q'. ring_add x q = Inr q' \<and> ring_inv q' \<and> ring_items q' = ring_items q @ [x] \<and> ring_cap q' = ring_cap q"
    using ring_add_room [OF inv] by (simp add: ring_items_def ring_cap_def)
  show "length (ring_items q) = ring_cap q \<Longrightarrow> ring_add x q = Inl Exit"
    using ring_add_full [OF inv] by (simp add: ring_items_def ring_cap_def)
qed

section \<open>The collectors\<close>

record 'p GCElement =
  gc_epoch :: Epoch
  gc_gcarray :: "'p list"
  gc_len :: nat

type_synonym 'p GCQueue = "'p GCElement ring"

definition GCQueue_AddGCElement :: "Epoch \<Rightarrow> 'p list \<Rightarrow> nat \<Rightarrow> 'p GCQueue \<Rightarrow> fault + 'p GCQueue" where
  "GCQueue_AddGCElement e arr len q = ring_add \<lparr>gc_epoch = e, gc_gcarray = arr, gc_len = len\<rparr> q"

definition epoch_old :: "Epoch \<Rightarrow> Epoch \<Rightarrow> fault + bool" where
  "epoch_old current e = and_then (Epoch_Compare e current) (\<lambda>r. Inr (r < 0))"

text \<open>\<open>GC(current)\<close> deletes the old elements; the model returns them in the order of the deletes.\<close>

definition GCQueue_GC :: "Epoch \<Rightarrow> 'p GCQueue \<Rightarrow> (fault + 'p GCQueue \<times> 'p GCElement list) option" where
  "GCQueue_GC current q =
     drain ring_isempty ring_front ring_pop (\<lambda>x. epoch_old current (gc_epoch x)) (\<lambda>x del. Inr (del @ [x])) q []"

text \<open>\<open>NodeBuf\<close>: a stack of arrays of nodes that were collected.\<close>

record NodeBuf =
  nb_qsize :: nat
  nb_head :: nat
  nb_tail :: nat
  nb_buffer :: "nptr GCElement option list"
  nb_elems :: int

definition NodeBuf_new :: NodeBuf where
  "NodeBuf_new = \<lparr>nb_qsize = 1024, nb_head = 0, nb_tail = 0, nb_buffer = replicate 1024 None, nb_elems = 0\<rparr>"

text \<open>A full buffer deletes the element, which the model returns.\<close>

definition NodeBuf_AddGCElement :: "nptr GCElement \<Rightarrow> NodeBuf \<Rightarrow> nptr GCElement option \<times> NodeBuf" where
  "NodeBuf_AddGCElement gce b0 =
     (let b = b0\<lparr>nb_elems := nb_elems b0 + 1\<rparr>
      in if (nb_tail b + 1) mod nb_qsize b = nb_head b then (Some gce, b)
         else (None, b\<lparr>nb_buffer := (nb_buffer b)[nb_tail b := Some gce],
                        nb_tail := (nb_tail b + 1) mod nb_qsize b\<rparr>))"

text \<open>
  \<open>GetMemNode\<close>. The index \<^verbatim>\<open>(tail - 1) % qsize\<close> is -1 in C when the tail is 0, an access before the array.
\<close>

definition NodeBuf_GetMemNode :: "NodeBuf \<Rightarrow> mem \<Rightarrow> fault + nptr \<times> NodeBuf \<times> mem" where
  "NodeBuf_GetMemNode b m =
     (if nb_head b = nb_tail b then (case GetMemNode m of (n, m') \<Rightarrow> Inr (n, b, m'))
      else if nb_tail b = 0 then Inl OutOfBounds
      else let last = (nb_tail b - 1) mod nb_qsize b
           in case nb_buffer b ! last of
                None \<Rightarrow> Inl NullDeref
              | Some gce \<Rightarrow>
                  if gc_len gce = 0 \<or> length (gc_gcarray gce) < gc_len gce then Inl OutOfBounds
                  else let res = gc_gcarray gce ! (gc_len gce - 1);
                           gce' = gce\<lparr>gc_len := gc_len gce - 1\<rparr>;
                           b' = (if gc_len gce' = 0 then b\<lparr>nb_buffer := (nb_buffer b)[last := None], nb_tail := last\<rparr>
                                 else b\<lparr>nb_buffer := (nb_buffer b)[last := Some gce']\<rparr>);
                           m' = upd_node res (\<lambda>x. x\<lparr>mn_seq := 0, mn_value := 0, mn_counter := 0,
                                                    mn_oldVersions := NULLP\<rparr>) m
                       in Inr (res, b', m'))"

definition GCQueue_GC_buf :: "Epoch \<Rightarrow> nptr GCQueue \<Rightarrow> NodeBuf \<Rightarrow> (fault + nptr GCQueue \<times> NodeBuf) option" where
  "GCQueue_GC_buf current q buf =
     drain ring_isempty ring_front ring_pop (\<lambda>x. epoch_old current (gc_epoch x))
       (\<lambda>x b. Inr (snd (NodeBuf_AddGCElement x b))) q buf"

record RMElement =
  rme_tableid :: nat
  rme_key :: u64
  rme_node :: nptr
  rme_seq :: u64

record RMArray =
  rma_epoch :: Epoch
  rma_rmarray :: "RMElement list"
  rma_len :: nat

type_synonym RMQueue = "RMArray ring"

definition RMQueue_AddRMArray :: "Epoch \<Rightarrow> RMElement list \<Rightarrow> nat \<Rightarrow> RMQueue \<Rightarrow> fault + RMQueue" where
  "RMQueue_AddRMArray e arr len q = ring_add \<lparr>rma_epoch = e, rma_rmarray = arr, rma_len = len\<rparr> q"

text \<open>
  The removal of one node, which the code runs as one hardware transaction. The constants 1 and 2 are
  those of the source. \<open>getdel\<close> is \<open>GetWithDelete\<close> of the index.
\<close>

definition RMQueue_Remove_elem ::
    "(u64 \<Rightarrow> 'ix \<times> mem \<Rightarrow> fault + (nptr \<times> 'ix \<times> mem)) \<Rightarrow> RMElement \<Rightarrow> 'ix list \<times> mem \<Rightarrow> fault + 'ix list \<times> mem" where
  "RMQueue_Remove_elem getdel mn = (\<lambda>(tables, m).
     if mn_value (nodes m (rme_node mn)) = 1 \<and> mn_seq (nodes m (rme_node mn)) = rme_seq mn
     then let m1 = upd_node (rme_node mn) (\<lambda>x. x\<lparr>mn_value := 2\<rparr>) m
          in and_then (getdel (rme_key mn) (tables ! rme_tableid mn, m1)) (\<lambda>(n, ix, m2).
               if n = NULLP then Inl NullDeref
               else Inr (tables[rme_tableid mn := ix], upd_node n (\<lambda>x. x\<lparr>mn_seq := mn_seq x + 1\<rparr>) m2))
     else Inr (tables, m))"

fun RMQueue_Remove_array ::
    "(u64 \<Rightarrow> 'ix \<times> mem \<Rightarrow> fault + (nptr \<times> 'ix \<times> mem)) \<Rightarrow> RMElement list \<Rightarrow> 'ix list \<times> mem \<Rightarrow> fault + 'ix list \<times> mem" where
  "RMQueue_Remove_array getdel [] s = Inr s"
| "RMQueue_Remove_array getdel (mn # mns) s =
     and_then (RMQueue_Remove_elem getdel mn s) (RMQueue_Remove_array getdel mns)"

definition RMQueue_Remove ::
    "(u64 \<Rightarrow> 'ix \<times> mem \<Rightarrow> fault + (nptr \<times> 'ix \<times> mem)) \<Rightarrow> Epoch \<Rightarrow> RMQueue \<Rightarrow> 'ix list \<times> mem
      \<Rightarrow> (fault + RMQueue \<times> ('ix list \<times> mem)) option" where
  "RMQueue_Remove getdel current q s =
     drain ring_isempty ring_front ring_pop (\<lambda>x. epoch_old current (rma_epoch x))
       (\<lambda>x. RMQueue_Remove_array getdel (take (rma_len x) (rma_rmarray x))) q s"

section \<open>What the collectors do\<close>

lemma drain_list_total:
  assumes "\<forall>x \<in> set xs. \<exists>b. old x = Inr b"
  shows "drain_list old (\<lambda>x del. Inr (del @ [x])) xs acc =
     Inr (dropWhile (\<lambda>x. old x = Inr True) xs, acc @ takeWhile (\<lambda>x. old x = Inr True) xs)"
  using assms by (induction xs arbitrary: acc) fastforce+

text \<open>
  C11. The epoch collector frees exactly the elements whose epoch has passed, in order: with comparable
  epochs the draining loop ends, deletes the longest prefix of the queue that is older than the
  current epoch, keeps the rest, and leaves room for as many new elements.
\<close>

theorem GCQueue_GC_correct:
  assumes "ring_inv q" and "\<forall>x \<in> set (ring_items q). \<exists>b. epoch_old current (gc_epoch x) = Inr b"
  shows "\<exists>q'. GCQueue_GC current q =
       Some (Inr (q', takeWhile (\<lambda>x. Epoch_Compare (gc_epoch x) current = Inr (- 1)) (ring_items q)))
     \<and> ring_inv q' \<and> ring_cap q' = ring_cap q
     \<and> ring_items q' = dropWhile (\<lambda>x. Epoch_Compare (gc_epoch x) current = Inr (- 1)) (ring_items q)"
proof -
  have old: "epoch_old current e = Inr True \<longleftrightarrow> Epoch_Compare e current = Inr (- 1)" for e
    by (auto simp: epoch_old_def and_then_eq_Inr Epoch_Compare_def split: option.splits if_splits)
  show ?thesis
    using ring.drain_correct [OF assms(1), of "\<lambda>x. epoch_old current (gc_epoch x)" "\<lambda>x del. Inr (del @ [x])" "[]"]
    by (simp add: drain_list_total [OF assms(2)] old GCQueue_GC_def) blast
qed

definition ex_epoch :: "u64 \<Rightarrow> Epoch" where
  "ex_epoch c = Epoch_of 1 [c]"

lemma ex_epoch_compare: "Epoch_Compare (ex_epoch c) (ex_epoch d) = Inr (if c = d then 0 else if c < d then - 1 else 1)"
  by (simp add: Epoch_Compare_def ex_epoch_def Epoch_of_def Compare_loop_spec)

definition ex_gcqueue :: "nat GCQueue" where
  "ex_gcqueue = \<lparr>qsize = 3, head = 2, tail = 1,
     queue = [Some \<lparr>gc_epoch = ex_epoch 7, gc_gcarray = [20], gc_len = 1\<rparr>, None,
              Some \<lparr>gc_epoch = ex_epoch 4, gc_gcarray = [10], gc_len = 1\<rparr>], elems = 2\<rparr>"

lemma ex_gcqueue_ok: "ring_inv ex_gcqueue"
    "ring_items ex_gcqueue = [\<lparr>gc_epoch = ex_epoch 4, gc_gcarray = [10], gc_len = 1\<rparr>,
       \<lparr>gc_epoch = ex_epoch 7, gc_gcarray = [20], gc_len = 1\<rparr>]"
  by (auto simp: ring_inv_def ex_gcqueue_def ring_count_def ring_items_def less_2_cases_iff
      upt_conv_Cons)

theorem GCQueue_GC_correct_witness:
  "\<exists>q'. GCQueue_GC (ex_epoch 5) ex_gcqueue = Some (Inr (q', [\<lparr>gc_epoch = ex_epoch 4, gc_gcarray = [10], gc_len = 1\<rparr>]))
     \<and> ring_items q' = [\<lparr>gc_epoch = ex_epoch 7, gc_gcarray = [20], gc_len = 1\<rparr>]"
proof -
  have "\<forall>x \<in> set (ring_items ex_gcqueue). \<exists>b. epoch_old (ex_epoch 5) (gc_epoch x) = Inr b"
    by (auto simp: ex_gcqueue_ok(2) epoch_old_def ex_epoch_compare)
  from GCQueue_GC_correct [OF ex_gcqueue_ok(1) this] show ?thesis
    by (auto simp: ex_gcqueue_ok(2) ex_epoch_compare word_less_nat_alt)
qed

subsection \<open>The node buffer\<close>

definition nb_slot_ok :: "nptr GCElement option \<Rightarrow> bool" where
  "nb_slot_ok s \<longleftrightarrow> (case s of None \<Rightarrow> False | Some g \<Rightarrow> 0 < gc_len g \<and> gc_len g \<le> length (gc_gcarray g))"

definition slot_nodes :: "nptr GCElement option \<Rightarrow> nptr list" where
  "slot_nodes s = (case s of None \<Rightarrow> [] | Some g \<Rightarrow> take (gc_len g) (gc_gcarray g))"

definition NodeBuf_wf :: "NodeBuf \<Rightarrow> bool" where
  "NodeBuf_wf b \<longleftrightarrow> nb_head b = 0 \<and> nb_tail b < nb_qsize b \<and> length (nb_buffer b) = nb_qsize b
     \<and> list_all nb_slot_ok (take (nb_tail b) (nb_buffer b))"

definition nb_nodes :: "NodeBuf \<Rightarrow> nptr list" where
  "nb_nodes b = concat (map slot_nodes (take (nb_tail b) (nb_buffer b)))"

lemma NodeBuf_wf_new: "NodeBuf_wf NodeBuf_new" "nb_nodes NodeBuf_new = []"
  by (simp_all add: NodeBuf_wf_def NodeBuf_new_def nb_nodes_def)

lemma slot_ok_nodes: "nb_slot_ok s \<Longrightarrow> slot_nodes s \<noteq> []"
  by (auto simp: nb_slot_ok_def slot_nodes_def split: option.splits)

lemma nb_nodes_empty: "NodeBuf_wf b \<Longrightarrow> nb_nodes b = [] \<longleftrightarrow> nb_tail b = 0"
proof -
  assume wf: "NodeBuf_wf b"
  show "nb_nodes b = [] \<longleftrightarrow> nb_tail b = 0"
  proof
    assume "nb_nodes b = []"
    then have "take (nb_tail b) (nb_buffer b) = []"
      using wf slot_ok_nodes by (cases "take (nb_tail b) (nb_buffer b)") (auto simp: nb_nodes_def NodeBuf_wf_def)
    then show "nb_tail b = 0" using wf by (auto simp: NodeBuf_wf_def)
  qed (simp add: nb_nodes_def)
qed

lemma take_pred:
  assumes "0 < n" and "n \<le> length xs"
  shows "take n xs = take (n - 1) xs @ [xs ! (n - 1)]"
  using assms take_Suc_conv_app_nth [of "n - 1" xs] by simp



lemma NodeBuf_AddGCElement_correct:
  assumes wf: "NodeBuf_wf b" and g: "0 < gc_len g" "gc_len g \<le> length (gc_gcarray g)"
    and add: "NodeBuf_AddGCElement g b = (del, b')"
  shows "NodeBuf_wf b'" and "nb_nodes b' = nb_nodes b @ (if del = None then take (gc_len g) (gc_gcarray g) else [])"
    and "del = (if nb_tail b + 1 < nb_qsize b then None else Some g)"
proof -
  have t: "nb_tail b < length (nb_buffer b)" "nb_tail b < nb_qsize b" "nb_head b = 0"
    using wf by (auto simp: NodeBuf_wf_def)
  have m: "(nb_tail b + 1) mod nb_qsize b = (if nb_tail b + 1 < nb_qsize b then nb_tail b + 1 else 0)"
    using t by (auto simp: mod_if)
  have "NodeBuf_wf b' \<and> nb_nodes b' = nb_nodes b @ (if del = None then take (gc_len g) (gc_gcarray g) else [])
      \<and> del = (if nb_tail b + 1 < nb_qsize b then None else Some g)"
  proof (cases "nb_tail b + 1 < nb_qsize b")
    case True
    then have "del = None" "nb_tail b' = nb_tail b + 1" "nb_qsize b' = nb_qsize b" "nb_head b' = 0"
        "nb_buffer b' = (nb_buffer b)[nb_tail b := Some g]"
      using add m t by (auto simp: NodeBuf_AddGCElement_def Let_def)
    with wf g True t show ?thesis
      by (simp add: NodeBuf_wf_def nb_nodes_def take_Suc_update nb_slot_ok_def slot_nodes_def)
  next
    case False
    then have "del = Some g" "b' = b\<lparr>nb_elems := nb_elems b + 1\<rparr>"
      using add m t by (auto simp: NodeBuf_AddGCElement_def Let_def)
    with wf False show ?thesis by (simp add: NodeBuf_wf_def nb_nodes_def)
  qed
  then show "NodeBuf_wf b'" and "nb_nodes b' = nb_nodes b @ (if del = None then take (gc_len g) (gc_gcarray g) else [])"
    and "del = (if nb_tail b + 1 < nb_qsize b then None else Some g)" by auto
qed

subsection \<open>The removal queue\<close>

lemma Remove_array_unchanged:
  "\<forall>e \<in> set es. mn_value (nodes m (rme_node e)) \<noteq> 1 \<Longrightarrow> RMQueue_Remove_array getdel es (tabs, m) = Inr (tabs, m)"
  by (induction es) (auto simp: RMQueue_Remove_elem_def)

lemma drain_list_const:
  assumes "\<forall>x \<in> set xs. (\<exists>b. old x = Inr b) \<and> act x s = Inr s"
  shows "drain_list old act xs s = Inr (dropWhile (\<lambda>x. old x = Inr True) xs, s)"
  using assms by (induction xs) fastforce+


definition ex_rmqueue :: RMQueue where
  "ex_rmqueue = \<lparr>qsize = 2, head = 0, tail = 1,
     queue = [Some \<lparr>rma_epoch = ex_epoch 4, rma_rmarray = [\<lparr>rme_tableid = 0, rme_key = 7, rme_node = 3, rme_seq = 0\<rparr>],
                    rma_len = 1\<rparr>, None], elems = 1\<rparr>"


end
