(* ===== verification/Db_Tables.thy ===== *)
theory Db_Tables
  imports Versions Ring_Queues
begin

text \<open>
  \<open>DBTables\<close> (\<^verbatim>\<open>db/dbtables.h\<close>, \<^verbatim>\<open>db/dbtables.cc\<close>) and \<open>RMPool\<close> (\<^verbatim>\<open>db/rmpool.cc\<close>): the state the threads
  share, the pools each thread owns, and the garbage collection that a transaction runs at its end.

  The members of \<open>DBTables\<close> declared \<^verbatim>\<open>__thread\<close> form the record \<open>TLS\<close>; the indexes are the parameter
  \<open>'ix\<close> with the operations of the locale \<open>memstore\<close>. \<open>WaitForGracePeriod\<close> is called while other threads
  run: an operation that waits is defined for the moment at which the wait returns, and is the fault
  \<open>Spin\<close> when with the other threads standing still it would not.
\<close>

section \<open>State\<close>

definition GCThreshold :: u64 where
  "GCThreshold = 100000"

definition RMThreshold :: nat where
  "RMThreshold = 100"

record RMObj =
  ro_tableid :: nat
  ro_key :: u64
  ro_node :: nptr
  ro_seq :: u64

record RMPool =
  rmlist :: "RMObj list"
  rm_elems :: nat

definition RMPool_new :: RMPool where
  "RMPool_new = \<lparr>rmlist = [], rm_elems = 0\<rparr>"

record TLS =
  tl_tid :: nat
  valuesPool :: "vptr OBJPool list"
  memnodesPool :: "nptr OBJPool list"
  gcnum :: u64
  rmPool :: RMPool
  nodeGCQueue :: "nptr GCQueue"
  valueGCQueue :: "vptr GCQueue"
  rmqueue :: RMQueue
  nodebuffer :: NodeBuf

record 'ix DBTables =
  db_number :: nat
  db_tables :: "'ix list"
  db_types :: "nat list"
  db_next :: nat
  db_nextindex :: int
  db_schemas :: "(nat \<times> nat) list"
  db_snapshot :: u64
  db_epoch :: "Epoch option"
  db_rcu :: RCU
  db_mem :: mem

text \<open>
  The constructor; \<open>raw\<close> stands for the uninitialised slots of the arrays and \<open>m\<close> for the heap.
\<close>

definition DBTables_new :: "nat \<Rightarrow> nat \<Rightarrow> 'ix \<Rightarrow> mem \<Rightarrow> 'ix DBTables" where
  "DBTables_new n thrs raw m =
     \<lparr>db_number = n, db_tables = replicate n raw, db_types = replicate n 0, db_next = 0, db_nextindex = 0,
      db_schemas = replicate n (0, 0), db_snapshot = 1, db_epoch = None, db_rcu = RCU_new thrs, db_mem = m\<rparr>"

definition BTREE :: nat where "BTREE = 1"
definition EUNO_BTREE :: nat where "EUNO_BTREE = 6"

text \<open>
  \<open>AddTable\<close>; \<open>bplustree\<close> and \<open>eunotree\<close> are the constructors of the two index classes. Other index types
  leave the slot as it was.
\<close>

definition DBTables_AddTable ::
    "(nat \<Rightarrow> 'ix) \<Rightarrow> (nat \<Rightarrow> 'ix) \<Rightarrow> nat \<Rightarrow> nat \<Rightarrow> 'ix DBTables \<Rightarrow> int \<times> 'ix DBTables" where
  "DBTables_AddTable bplustree eunotree tableid index_type db =
     (let n = db_next db;
          tabs = (if index_type = BTREE then (db_tables db)[n := bplustree n]
                  else if index_type = EUNO_BTREE then (db_tables db)[n := eunotree n]
                  else db_tables db);
          db' = db\<lparr>db_tables := tabs, db_types := (db_types db)[n := index_type], db_next := n + 1\<rparr>
      in (db_nextindex db' - 1, db'))"

definition DBTables_AddSchema :: "nat \<Rightarrow> nat \<Rightarrow> nat \<Rightarrow> 'ix DBTables \<Rightarrow> 'ix DBTables" where
  "DBTables_AddSchema tableid kl vl db = db\<lparr>db_schemas := (db_schemas db)[tableid := (kl, vl)]\<rparr>"

text \<open>\<open>TupleInsert\<close>; \<open>v\<close> is the address of the copy of the value that the code makes with malloc.\<close>

definition DBTables_TupleInsert ::
    "(u64 \<Rightarrow> vptr \<Rightarrow> 'ix \<times> mem \<Rightarrow> nptr \<times> 'ix \<times> mem) \<Rightarrow> nat \<Rightarrow> u64 \<Rightarrow> vptr \<Rightarrow> 'ix DBTables \<Rightarrow> 'ix DBTables" where
  "DBTables_TupleInsert put tabid key v db =
     (case put key v (db_tables db ! tabid, db_mem db) of
        (mn, ix, m) \<Rightarrow> db\<lparr>db_tables := (db_tables db)[tabid := ix], db_mem := m\<rparr>)"

definition DBTables_ThreadLocalInit :: "nat \<Rightarrow> 'ix DBTables \<Rightarrow> TLS" where
  "DBTables_ThreadLocalInit tid db =
     \<lparr>tl_tid = tid, valuesPool = replicate (db_number db) OBJPool_new,
      memnodesPool = replicate (db_number db) OBJPool_new, gcnum = 0, rmPool = RMPool_new,
      nodeGCQueue = ring_new, valueGCQueue = ring_new, rmqueue = ring_new, nodebuffer = NodeBuf_new\<rparr>"

section \<open>Operations on the pools\<close>

definition AddDeletedValue :: "nat \<Rightarrow> vptr \<Rightarrow> u64 \<Rightarrow> TLS \<Rightarrow> TLS" where
  "AddDeletedValue tableid v sn th =
     th\<lparr>gcnum := gcnum th + 1,
        valuesPool := (valuesPool th)[tableid := AddGCObj v sn (valuesPool th ! tableid)]\<rparr>"

definition GetEmptyValue :: "nat \<Rightarrow> TLS \<Rightarrow> vptr option \<times> TLS" where
  "GetEmptyValue tableid th =
     (case GetFreeObj (valuesPool th ! tableid) of
        (r, P) \<Rightarrow> (r, th\<lparr>valuesPool := (valuesPool th)[tableid := P]\<rparr>))"

definition AddDeletedNode :: "nat \<Rightarrow> nptr \<Rightarrow> TLS \<Rightarrow> TLS" where
  "AddDeletedNode tableid n th =
     th\<lparr>gcnum := gcnum th + 1,
        memnodesPool := (memnodesPool th)[tableid := AddGCObj n 0 (memnodesPool th ! tableid)]\<rparr>"

text \<open>\<open>RMPool::AddRMObj\<close>, with the atomic increment of the node's reference count.\<close>

definition AddRMObj :: "nat \<Rightarrow> u64 \<Rightarrow> u64 \<Rightarrow> nptr \<Rightarrow> RMPool \<times> mem \<Rightarrow> RMPool \<times> mem" where
  "AddRMObj tableid key seq n = (\<lambda>(P, m).
     let ob = \<lparr>ro_tableid = tableid, ro_key = key, ro_node = n, ro_seq = seq\<rparr>;
         m' = upd_node n (\<lambda>x. x\<lparr>mn_gcRef := mn_gcRef x + 1\<rparr>) m
     in (P\<lparr>rmlist := ob # rmlist P, rm_elems := rm_elems P + 1\<rparr>, m'))"

definition AddRemoveNode :: "nat \<Rightarrow> u64 \<Rightarrow> u64 \<Rightarrow> nptr \<Rightarrow> TLS \<times> mem \<Rightarrow> TLS \<times> mem" where
  "AddRemoveNode tableid key seq n = (\<lambda>(th, m).
     case AddRMObj tableid key seq n (rmPool th, m) of (P, m') \<Rightarrow> (th\<lparr>rmPool := P\<rparr>, m'))"

text \<open>
  \<open>RMPool::Remove\<close>, one hardware transaction: a node whose sequence number is still the one of its
  logical delete is marked as removed and taken out of the index.
\<close>

definition RMPool_Remove ::
    "(u64 \<Rightarrow> 'ix \<times> mem \<Rightarrow> fault + (nptr \<times> 'ix \<times> mem)) \<Rightarrow> RMObj \<Rightarrow> 'ix list \<times> mem
      \<Rightarrow> fault + bool \<times> ('ix list \<times> mem)" where
  "RMPool_Remove getdel ob = (\<lambda>(tabs, m).
     if mn_seq (nodes m (ro_node ob)) = ro_seq ob
     then let m1 = upd_node (ro_node ob) (\<lambda>x. x\<lparr>mn_value := HAVEREMOVED\<rparr>) m
          in and_then (getdel (ro_key ob) (tabs ! ro_tableid ob, m1)) (\<lambda>(n, ix, m2).
               if n = NULLP then Inl NullDeref
               else Inr (True, tabs[ro_tableid ob := ix], upd_node n (\<lambda>x. x\<lparr>mn_seq := mn_seq x + 1\<rparr>) m2))
     else Inr (False, tabs, m))"

text \<open>
  One iteration of \<open>RemoveAll\<close>: the fetch-and-add on the reference count, the removal, and the release
  of the node when this was its last reference.
\<close>

definition RemoveAll_elem ::
    "(u64 \<Rightarrow> 'ix \<times> mem \<Rightarrow> fault + (nptr \<times> 'ix \<times> mem)) \<Rightarrow> RMObj \<Rightarrow> TLS \<times> 'ix list \<times> mem
      \<Rightarrow> fault + TLS \<times> 'ix list \<times> mem" where
  "RemoveAll_elem getdel ob = (\<lambda>(th, tabs, m).
     let ref = mn_gcRef (nodes m (ro_node ob));
         m1 = upd_node (ro_node ob) (\<lambda>x. x\<lparr>mn_gcRef := mn_gcRef x - 1\<rparr>) m
     in and_then (RMPool_Remove getdel ob (tabs, m1)) (\<lambda>(r, tabs', m2).
          Inr (if mn_value (nodes m2 (ro_node ob)) = HAVEREMOVED \<and> ref = 1
               then AddDeletedNode (ro_tableid ob) (ro_node ob) th else th, tabs', m2)))"

fun RemoveAll_loop ::
    "(u64 \<Rightarrow> 'ix \<times> mem \<Rightarrow> fault + (nptr \<times> 'ix \<times> mem)) \<Rightarrow> RMObj list \<Rightarrow> TLS \<times> 'ix list \<times> mem
      \<Rightarrow> fault + TLS \<times> 'ix list \<times> mem" where
  "RemoveAll_loop getdel [] s = Inr s"
| "RemoveAll_loop getdel (ob # obs) s =
     and_then (RemoveAll_elem getdel ob s) (RemoveAll_loop getdel obs)"

definition RMPool_RemoveAll ::
    "(u64 \<Rightarrow> 'ix \<times> mem \<Rightarrow> fault + (nptr \<times> 'ix \<times> mem)) \<Rightarrow> TLS \<times> 'ix list \<times> mem
      \<Rightarrow> fault + TLS \<times> 'ix list \<times> mem" where
  "RMPool_RemoveAll getdel = (\<lambda>(th, tabs, m).
     and_then (RemoveAll_loop getdel (rmlist (rmPool th)) (th, tabs, m)) (\<lambda>(th', tabs', m').
       Inr (th'\<lparr>rmPool := \<lparr>rmlist = [], rm_elems = 0\<rparr>\<rparr>, tabs', m')))"

section \<open>Garbage collection at the end of a transaction\<close>

text \<open>\<open>GC\<close>; the serial number of the persistent buffer is an argument that the pools ignore.\<close>

definition DBTables_GC :: "u64 \<Rightarrow> RCU \<Rightarrow> nat \<Rightarrow> TLS \<Rightarrow> fault + TLS" where
  "DBTables_GC safesn r n th =
     (if gcnum th < GCThreshold then Inr th
      else if \<not> WaitForGracePeriod_returns (tl_tid th) r then Inl Spin
      else Inr (th\<lparr>valuesPool := map (OBJPool_GC safesn) (take n (valuesPool th)) @ drop n (valuesPool th),
                   memnodesPool := map (OBJPool_GC safesn) (take n (memnodesPool th)) @ drop n (memnodesPool th),
                   gcnum := 0\<rparr>))"

definition DelayRemove ::
    "(u64 \<Rightarrow> 'ix \<times> mem \<Rightarrow> fault + (nptr \<times> 'ix \<times> mem)) \<Rightarrow> 'ix DBTables \<times> TLS \<Rightarrow> fault + 'ix DBTables \<times> TLS" where
  "DelayRemove getdel = (\<lambda>(db, th).
     if rm_elems (rmPool th) < RMThreshold then Inr (db, th)
     else if \<not> WaitForGracePeriod_returns (tl_tid th) (db_rcu db) then Inl Spin
     else and_then (RMPool_RemoveAll getdel (th, db_tables db, db_mem db)) (\<lambda>(th', tabs, m).
            Inr (db\<lparr>db_tables := tabs, db_mem := m\<rparr>, th')))"

text \<open>\<open>WriteSet::CollectOldVersions\<close> and \<open>DELSet::GCRMNodes\<close>.\<close>

fun CollectOldVersions :: "u64 \<Rightarrow> mem \<Rightarrow> WSKV list \<Rightarrow> TLS \<Rightarrow> TLS" where
  "CollectOldVersions sn m [] th = th"
| "CollectOldVersions sn m (e # es) th =
     (let th1 = (if ValidateValue (kv_val e) then AddDeletedValue (kv_tableid e) (kv_val e) sn th else th);
          th2 = (if kv_dummy e \<noteq> NULLP
                 then let th' = AddDeletedNode (kv_tableid e) (kv_dummy e) th1
                      in if ValidateValue (mn_value (nodes m (kv_dummy e)))
                         then AddDeletedValue (kv_tableid e) (mn_value (nodes m (kv_dummy e))) sn th' else th'
                 else th1)
      in CollectOldVersions sn m es th2)"

fun GCRMNodes :: "DELElement list \<Rightarrow> TLS \<times> mem \<Rightarrow> TLS \<times> mem" where
  "GCRMNodes [] s = s"
| "GCRMNodes (e # es) s = GCRMNodes es (AddRemoveNode (de_tableid e) (de_key e) (de_seq e) (de_node e) s)"

text \<open>The wrappers of the epoch-based collector; a missing epoch object is a null dereference.\<close>

definition the_epoch :: "'ix DBTables \<Rightarrow> fault + Epoch" where
  "the_epoch db = (case db_epoch db of None \<Rightarrow> Inl NullDeref | Some e \<Rightarrow> Inr e)"

definition InitEpoch :: "nat \<Rightarrow> 'ix DBTables \<Rightarrow> 'ix DBTables" where
  "InitEpoch thr_num db = db\<lparr>db_epoch := Some (Epoch_new thr_num)\<rparr>"

definition EpochTXBegin :: "nat \<Rightarrow> 'ix DBTables \<Rightarrow> fault + 'ix DBTables" where
  "EpochTXBegin tid db = and_then (the_epoch db) (\<lambda>e. Inr (db\<lparr>db_epoch := Some (Epoch_beginTX tid e)\<rparr>))"

definition EpochTXEnd :: "nat \<Rightarrow> 'ix DBTables \<Rightarrow> fault + 'ix DBTables" where
  "EpochTXEnd tid db = and_then (the_epoch db) (\<lambda>e. Inr (db\<lparr>db_epoch := Some (Epoch_endTX tid e)\<rparr>))"

definition AddDeletedValues :: "vptr list \<Rightarrow> nat \<Rightarrow> 'ix DBTables \<times> TLS \<Rightarrow> fault + TLS" where
  "AddDeletedValues vs len = (\<lambda>(db, th). and_then (the_epoch db) (\<lambda>e.
     and_then (GCQueue_AddGCElement (getCurrentEpoch e) vs len (valueGCQueue th)) (\<lambda>q. Inr (th\<lparr>valueGCQueue := q\<rparr>))))"

definition AddDeletedNodes :: "nptr list \<Rightarrow> nat \<Rightarrow> 'ix DBTables \<times> TLS \<Rightarrow> fault + TLS" where
  "AddDeletedNodes ns len = (\<lambda>(db, th). and_then (the_epoch db) (\<lambda>e.
     and_then (GCQueue_AddGCElement (getCurrentEpoch e) ns len (nodeGCQueue th)) (\<lambda>q. Inr (th\<lparr>nodeGCQueue := q\<rparr>))))"

definition AddRemoveNodes :: "RMElement list \<Rightarrow> nat \<Rightarrow> 'ix DBTables \<times> TLS \<Rightarrow> fault + TLS" where
  "AddRemoveNodes ns len = (\<lambda>(db, th). and_then (the_epoch db) (\<lambda>e.
     and_then (RMQueue_AddRMArray (getCurrentEpoch e) ns len (rmqueue th)) (\<lambda>q. Inr (th\<lparr>rmqueue := q\<rparr>))))"

text \<open>
  \<open>GCDeletedNodes\<close>. With an empty queue the loop ends before it looks at the epoch, so a null epoch
  does no harm then.
\<close>

definition GCDeletedNodes :: "'ix DBTables \<times> TLS \<Rightarrow> (fault + TLS) option" where
  "GCDeletedNodes = (\<lambda>(db, th).
     if ring_isempty (nodeGCQueue th) then Some (Inr th)
     else case db_epoch db of
            None \<Rightarrow> Some (Inl NullDeref)
          | Some e \<Rightarrow> map_option (map_sum id (\<lambda>(q, b). th\<lparr>nodeGCQueue := q, nodebuffer := b\<rparr>))
                        (GCQueue_GC_buf e (nodeGCQueue th) (nodebuffer th)))"

definition GCDeletedValues :: "'ix DBTables \<times> TLS \<Rightarrow> (fault + TLS) option" where
  "GCDeletedValues = (\<lambda>(db, th).
     if ring_isempty (valueGCQueue th) then Some (Inr th)
     else case db_epoch db of
            None \<Rightarrow> Some (Inl NullDeref)
          | Some e \<Rightarrow> map_option (map_sum id (\<lambda>(q, del). th\<lparr>valueGCQueue := q\<rparr>)) (GCQueue_GC e (valueGCQueue th)))"

definition RemoveNodes ::
    "(u64 \<Rightarrow> 'ix \<times> mem \<Rightarrow> fault + (nptr \<times> 'ix \<times> mem)) \<Rightarrow> 'ix DBTables \<times> TLS \<Rightarrow> (fault + 'ix DBTables \<times> TLS) option" where
  "RemoveNodes getdel = (\<lambda>(db, th).
     if ring_isempty (rmqueue th) then Some (Inr (db, th))
     else case db_epoch db of
            None \<Rightarrow> Some (Inl NullDeref)
          | Some e \<Rightarrow> map_option (map_sum id (\<lambda>(q, tabs, m). (db\<lparr>db_tables := tabs, db_mem := m\<rparr>, th\<lparr>rmqueue := q\<rparr>)))
                        (RMQueue_Remove getdel e (rmqueue th) (db_tables db, db_mem db)))"

section \<open>Physical removal\<close>

text \<open>The tables of a store: each index is well formed, and no node is indexed by two of them.\<close>

definition tables_ok :: "('ix \<Rightarrow> u64 \<Rightarrow> nptr option) \<Rightarrow> ('ix \<Rightarrow> nat \<Rightarrow> bool) \<Rightarrow> 'ix list \<Rightarrow> mem \<Rightarrow> bool" where
  "tables_ok look ixinv tabs m \<longleftrightarrow> (\<forall>ix \<in> set tabs. ixinv ix (brk m))
     \<and> (\<forall>t < length tabs. \<forall>t' < length tabs. \<forall>k k' p.
          look (tabs ! t) k = Some p \<longrightarrow> look (tabs ! t') k' = Some p \<longrightarrow> t = t')"

lemma tables_ok_update:
  assumes ok: "tables_ok look ixinv tabs m" and t: "t < length tabs" and ix: "ixinv ix (brk m')"
    and mono: "\<And>ix. ixinv ix (brk m) \<Longrightarrow> ixinv ix (brk m')"
    and new: "\<And>k p. look ix k = Some p \<Longrightarrow> look (tabs ! t) k = Some p \<or>
               (\<forall>t' < length tabs. \<forall>k'. look (tabs ! t') k' \<noteq> Some p)"
  shows "tables_ok look ixinv (tabs[t := ix]) m'"
proof -
  have "\<forall>i \<in> set (tabs[t := ix]). ixinv i (brk m')"
    using set_update_subset_insert [of tabs t ix] ok ix mono by (auto simp: tables_ok_def)
  moreover have "a = b" if "a < length tabs" "b < length tabs"
      "look (tabs[t := ix] ! a) k = Some p" "look (tabs[t := ix] ! b) k' = Some p" for a b k k' p
    using that new [of _ p] ok t unfolding tables_ok_def
    by (cases "a = t"; cases "b = t") (auto simp: nth_list_update, metis+)
  ultimately show ?thesis by (simp add: tables_ok_def)
qed

context memstore
begin

text \<open>What \<open>RMPool::Remove\<close> does to a node it removes, and that it leaves a modified node alone.\<close>

lemma Remove_skips: "mn_seq (nodes m (ro_node ob)) \<noteq> ro_seq ob \<Longrightarrow> RMPool_Remove getdel ob (tabs, m) = Inr (False, tabs, m)"
  by (simp add: RMPool_Remove_def)

lemma Remove_effect:
  assumes rm: "RMPool_Remove getdel ob (tabs, m) = Inr (r, tabs', m')"
    and eq: "mn_seq (nodes m (ro_node ob)) = ro_seq ob" and ok: "tables_ok look inv tabs m"
    and t: "ro_tableid ob < length tabs" and lk: "look (tabs ! ro_tableid ob) (ro_key ob) = Some (ro_node ob)"
  shows "r \<and> tables_ok look inv tabs' m' \<and> brk m \<le> brk m' \<and> words m' = words m
    \<and> (\<exists>ix. tabs' = tabs[ro_tableid ob := ix] \<and> look ix = (look (tabs ! ro_tableid ob))(ro_key ob := None))
    \<and> nodes m' (ro_node ob) = (nodes m (ro_node ob))\<lparr>mn_value := HAVEREMOVED, mn_seq := mn_seq (nodes m (ro_node ob)) + 1\<rparr>
    \<and> (\<forall>q < brk m. q \<noteq> ro_node ob \<longrightarrow> nodes m' q = nodes m q)"
proof -
  let ?p = "ro_node ob" and ?t = "ro_tableid ob"
  let ?m = "upd_node ?p (\<lambda>x. x\<lparr>mn_value := HAVEREMOVED\<rparr>) m"
  obtain n ix m2 where g: "getdel (ro_key ob) (tabs ! ?t, ?m) = Inr (n, ix, m2)" and n: "n \<noteq> NULLP"
    and r: "r" "tabs' = tabs[?t := ix]" "m' = upd_node n (\<lambda>x. x\<lparr>mn_seq := mn_seq x + 1\<rparr>) m2"
    using rm eq by (auto simp: RMPool_Remove_def Let_def and_then_eq_Inr split: if_splits)
  have inv: "inv (tabs ! ?t) (brk ?m)" using ok t by (simp add: tables_ok_def)
  note gl = getdel_look [OF inv g lk] and ge = getdel_extends [OF inv g] and gi = getdel_inv [OF inv g]
  have p: "?p < brk m" using look_range [OF inv lk] by simp
  have "tables_ok look inv tabs' m2"
    unfolding r(2) using ok t gi
  proof (rule tables_ok_update)
    show "inv ix (brk m) \<Longrightarrow> inv ix (brk m2)" for ix
      using inv_mono ge by (auto simp: extends_def)
    show "look (tabs ! ?t) k = Some q \<or> (\<forall>t' < length tabs. \<forall>k'. look (tabs ! t') k' \<noteq> Some q)"
      if "look ix k = Some q" for k q
      using that gl by (auto split: if_splits)
  qed
  then have "tables_ok look inv tabs' m'" by (simp add: tables_ok_def r(3))
  moreover have "nodes m2 q = nodes ?m q" if "q < brk m" for q
    using ge that by (simp add: extends_def)
  moreover have "brk m \<le> brk m2" "words m2 = words m" using ge by (simp_all add: extends_def)
  ultimately show ?thesis using r p gl by auto
qed

lemma Remove_frame:
  assumes rm: "RMPool_Remove getdel ob (tabs, m) = Inr (r, tabs', m')"
    and ok: "\<forall>ix \<in> set tabs. inv ix (brk m)" and t: "ro_tableid ob < length tabs"
  shows "(\<forall>ix \<in> set tabs'. inv ix (brk m')) \<and> brk m \<le> brk m' \<and> length tabs' = length tabs
    \<and> (\<forall>q < brk m. mn_gcRef (nodes m' q) = mn_gcRef (nodes m q)
         \<and> (mn_value (nodes m' q) = mn_value (nodes m q) \<or> mn_value (nodes m' q) = HAVEREMOVED))"
proof (cases "mn_seq (nodes m (ro_node ob)) = ro_seq ob")
  case True
  let ?m = "upd_node (ro_node ob) (\<lambda>x. x\<lparr>mn_value := HAVEREMOVED\<rparr>) m"
  obtain n ix m2 where g: "getdel (ro_key ob) (tabs ! ro_tableid ob, ?m) = Inr (n, ix, m2)"
    and r: "tabs' = tabs[ro_tableid ob := ix]" "m' = upd_node n (\<lambda>x. x\<lparr>mn_seq := mn_seq x + 1\<rparr>) m2"
    using rm True by (auto simp: RMPool_Remove_def Let_def and_then_eq_Inr split: if_splits)
  have i: "inv (tabs ! ro_tableid ob) (brk ?m)" using ok t by simp
  note ge = getdel_extends [OF i g] and gi = getdel_inv [OF i g]
  have "\<forall>ix \<in> set tabs'. inv ix (brk m2)"
  proof
    fix i assume "i \<in> set tabs'"
    then have "i \<in> insert ix (set tabs)"
      using set_update_subset_insert [of tabs "ro_tableid ob" ix] by (auto simp: r)
    moreover have "brk m \<le> brk m2" using ge by (simp add: extends_def)
    ultimately show "inv i (brk m2)" using gi ok inv_mono by auto
  qed
  then show ?thesis using ge r by (auto simp: extends_def nodes_upd_node)
qed (use rm ok in \<open>auto simp: RMPool_Remove_def\<close>)

text \<open>
  The state of \<open>RemoveAll\<close> between two iterations: the reference counts cover the objects still to be
  processed, those are in no pool, and \<open>New\<close> are the nodes released so far.
\<close>

definition removing :: "RMObj list \<Rightarrow> TLS \<Rightarrow> 'ix list \<Rightarrow> mem \<Rightarrow> nptr set \<Rightarrow> bool" where
  "removing obs th tabs m New \<longleftrightarrow> (\<forall>ix \<in> set tabs. inv ix (brk m)) \<and> (\<forall>P \<in> set (memnodesPool th). pool_inv P)
     \<and> (\<forall>p. count_list (map ro_node obs) p \<le> unat (mn_gcRef (nodes m p)))
     \<and> (\<forall>ob \<in> set obs. ro_node ob < brk m \<and> ro_tableid ob < length tabs \<and> ro_tableid ob < length (memnodesPool th)
          \<and> (\<forall>P \<in> set (memnodesPool th). ro_node ob \<notin> set (pending_objs P @ free_objs P)))
     \<and> (\<forall>p \<in> New. p < brk m \<and> mn_gcRef (nodes m p) = 0 \<and> mn_value (nodes m p) = HAVEREMOVED)"

lemma unat_dec: "(1 :: nat) \<le> unat (x :: u32) \<Longrightarrow> unat (x - 1) = unat x - 1"
  by (metis One_nat_def Suc_le_eq unat_minus_one unat_gt_0)

lemma RemoveAll_elem_step:
  assumes rm: "removing (ob # obs) th tabs m New" and st: "RemoveAll_elem getdel ob (th, tabs, m) = Inr (th', tabs', m')"
  shows "removing obs th' tabs' m' (New \<union> ((\<Union>P \<in> set (memnodesPool th'). set (pending_objs P))
            - (\<Union>P \<in> set (memnodesPool th). set (pending_objs P))))
    \<and> length (memnodesPool th') = length (memnodesPool th)"
proof -
  let ?p = "ro_node ob" and ?t = "ro_tableid ob"
  let ?ref = "mn_gcRef (nodes m ?p)" and ?m = "upd_node ?p (\<lambda>x. x\<lparr>mn_gcRef := mn_gcRef x - 1\<rparr>) m"
  obtain r where rem: "RMPool_Remove getdel ob (tabs, ?m) = Inr (r, tabs', m')"
    and th': "th' = (if mn_value (nodes m' ?p) = HAVEREMOVED \<and> ?ref = 1 then AddDeletedNode ?t ?p th else th)"
    using st by (auto simp: RemoveAll_elem_def Let_def and_then_eq_Inr)
  have p: "?p < brk m" "?t < length tabs" "?t < length (memnodesPool th)"
      "\<forall>P \<in> set (memnodesPool th). ?p \<notin> set (pending_objs P @ free_objs P)"
    and cnt: "\<forall>q. count_list (map ro_node (ob # obs)) q \<le> unat (mn_gcRef (nodes m q))"
    using rm by (auto simp: removing_def)
  have fr: "(\<forall>ix \<in> set tabs'. inv ix (brk m')) \<and> brk m \<le> brk m' \<and> length tabs' = length tabs
    \<and> (\<forall>q < brk m. mn_gcRef (nodes m' q) = mn_gcRef (nodes ?m q)
         \<and> (mn_value (nodes m' q) = mn_value (nodes m q) \<or> mn_value (nodes m' q) = HAVEREMOVED))"
    using Remove_frame [OF rem] rm p(2) by (auto simp: removing_def nodes_upd_node)
  have ref1: "1 \<le> unat ?ref" using cnt [rule_format, of ?p] by simp
  have dec: "unat (mn_gcRef (nodes m' ?p)) = unat ?ref - 1"
    using fr p(1) unat_dec [OF ref1] by simp
  have cnt': "count_list (map ro_node obs) q \<le> unat (mn_gcRef (nodes m' q))" for q
  proof (cases "q < brk m")
    case True
    then show ?thesis using cnt [rule_format, of q] fr dec by (cases "q = ?p") (auto simp: nodes_upd_node)
  next
    case False
    then have "q \<notin> set (map ro_node obs)" using rm by (auto simp: removing_def)
    then show ?thesis by simp
  qed
  let ?pend = "\<lambda>th. \<Union>P \<in> set (memnodesPool th). set (pending_objs P)"
  have old: "q < brk m' \<and> mn_gcRef (nodes m' q) = 0 \<and> mn_value (nodes m' q) = HAVEREMOVED" if "q \<in> New" for q
  proof -
    have q: "q < brk m" "mn_gcRef (nodes m q) = 0" "mn_value (nodes m q) = HAVEREMOVED"
      using rm that by (auto simp: removing_def)
    then have "q \<noteq> ?p" using ref1 by auto
    with q fr show ?thesis by (auto simp: nodes_upd_node)
  qed
  show ?thesis
  proof (cases "mn_value (nodes m' ?p) = HAVEREMOVED \<and> ?ref = 1")
    case False
    then have "th' = th" using th' by auto
    with rm fr cnt' old show ?thesis by (auto simp: removing_def)
  next
    case True
    let ?P = "memnodesPool th ! ?t"
    have P: "?P \<in> set (memnodesPool th)" using p(3) by simp
    have mp: "memnodesPool th' = (memnodesPool th)[?t := AddGCObj ?p 0 ?P]"
      using th' True by (simp add: AddDeletedNode_def)
    have "pool_inv ?P" "?p \<notin> set (pending_objs ?P @ free_objs ?P)" using rm P p(4) by (auto simp: removing_def)
    note add = AddGCObj_correct [OF this, of 0]
    have sub: "set (memnodesPool th') \<subseteq> insert (AddGCObj ?p 0 ?P) (set (memnodesPool th))"
      unfolding mp by (rule set_update_subset_insert)
    have zero: "mn_gcRef (nodes m' ?p) = 0" using dec True by (simp add: word_unat_eq_iff)
    have "count_list (map ro_node obs) ?p = 0" using cnt' [of ?p] zero by simp
    then have nin: "?p \<notin> ro_node ` set obs" by (simp add: count_list_0_iff)
    have "?pend th' - ?pend th \<subseteq> {?p}" using sub add(3) P by auto
    moreover have "\<forall>P \<in> set (memnodesPool th'). pool_inv P" using sub add(1) rm by (auto simp: removing_def)
    moreover have "\<forall>o' \<in> set obs. \<forall>P \<in> set (memnodesPool th'). ro_node o' \<notin> set (pending_objs P @ free_objs P)"
    proof (intro ballI)
      fix o' P' assume o': "o' \<in> set obs" and "P' \<in> set (memnodesPool th')"
      then have "P' = AddGCObj ?p 0 ?P \<or> P' \<in> set (memnodesPool th)" using sub by auto
      moreover have "\<forall>P \<in> set (memnodesPool th). ro_node o' \<notin> set (pending_objs P @ free_objs P)"
        using rm o' by (simp add: removing_def)
      moreover have "ro_node o' \<noteq> ?p" using nin o' by (metis image_eqI)
      ultimately show "ro_node o' \<notin> set (pending_objs P' @ free_objs P')" using add(2,3) P by auto
    qed
    ultimately show ?thesis
      using rm fr cnt' old zero True p(1) mp unfolding removing_def by auto
  qed
qed

lemma removing_mono: "removing obs th tabs m New \<Longrightarrow> New' \<subseteq> New \<Longrightarrow> removing obs th tabs m New'"
  unfolding removing_def by blast

lemma RemoveAll_loop_step:
  assumes "removing obs th tabs m New" and "RemoveAll_loop getdel obs (th, tabs, m) = Inr (th', tabs', m')"
  shows "removing [] th' tabs' m' (New \<union> ((\<Union>P \<in> set (memnodesPool th'). set (pending_objs P))
            - (\<Union>P \<in> set (memnodesPool th). set (pending_objs P))))"
  using assms
proof (induction obs arbitrary: th tabs m New)
  case Nil
  then show ?case by simp
next
  case (Cons ob obs)
  obtain th1 tabs1 m1 where st: "RemoveAll_elem getdel ob (th, tabs, m) = Inr (th1, tabs1, m1)"
    and rest: "RemoveAll_loop getdel obs (th1, tabs1, m1) = Inr (th', tabs', m')"
    using Cons.prems(2) by (auto simp: and_then_eq_Inr)
  from Cons.IH [OF conjunct1 [OF RemoveAll_elem_step [OF Cons.prems(1) st]] rest]
  show ?case by (rule removing_mono) auto
qed

lemma RemoveAll_retires_once_core:
  assumes "removing (rmlist (rmPool th)) th tabs m {}" and "RMPool_RemoveAll getdel (th, tabs, m) = Inr (th', tabs', m')"
  shows "(\<forall>P \<in> set (memnodesPool th'). pool_inv P)
    \<and> (\<forall>p \<in> (\<Union>P \<in> set (memnodesPool th'). set (pending_objs P)) - (\<Union>P \<in> set (memnodesPool th). set (pending_objs P)).
         mn_gcRef (nodes m' p) = 0 \<and> mn_value (nodes m' p) = HAVEREMOVED)"
proof -
  obtain th1 where st: "RemoveAll_loop getdel (rmlist (rmPool th)) (th, tabs, m) = Inr (th1, tabs', m')"
    and th': "memnodesPool th' = memnodesPool th1"
    using assms(2) by (auto simp: RMPool_RemoveAll_def and_then_eq_Inr)
  from RemoveAll_loop_step [OF assms(1) st] show ?thesis by (simp add: removing_def th')
qed

end


definition ex_removal :: "TLS \<times> list_index list \<times> mem" where
  "ex_removal =
     (let ob = \<lparr>ro_tableid = 0, ro_key = 7, ro_node = 1, ro_seq = 2\<rparr>;
          th = DBTables_ThreadLocalInit 0 (DBTables_new 1 1 ([] :: list_index) ex_mem)
      in (th\<lparr>rmPool := \<lparr>rmlist = [ob, ob], rm_elems = 2\<rparr>\<rparr>, [[(7, 1)]],
          upd_node 1 (\<lambda>x. x\<lparr>mn_value := LOGICALDELETE, mn_gcRef := 2\<rparr>) ex_mem))"




end
