(* ===== verification/Dbtx.thy ===== *)
theory Dbtx
  imports Db_Tables
begin

text \<open>
  \<open>DBTX\<close> (\<^verbatim>\<open>db/dbtx.h\<close>, \<^verbatim>\<open>db/dbtx.cc\<close>): the operations of a read-write transaction. The static
  \<^verbatim>\<open>__thread\<close> members and the abort flag form the record \<open>TX\<close>. The operations are built from the pieces
  that touch shared memory atomically (a call of the index, a hardware transaction, a read of one word),
  so that the concurrent system of theory \<open>Tx_System\<close> interleaves the same pieces.

  A retry loop (\<^verbatim>\<open>goto retry\<close>) is a \<open>partial_function\<close>: None when it never leaves.
\<close>

section \<open>State and the life cycle of a transaction\<close>

record BufferNode =
  bn_key :: u64
  bn_node :: nptr

definition BufferNode_new :: BufferNode where
  "BufferNode_new = \<lparr>bn_key = - 1, bn_node = NULLP\<rparr>"

record TX =
  readset :: ReadSet
  writeset :: WriteSet
  deleteset :: DELSet
  buffer :: "BufferNode list"
  localinit :: bool
  tx_abort :: bool

definition DBTX_ThreadLocalInit :: "nat \<Rightarrow> TX \<Rightarrow> TX" where
  "DBTX_ThreadLocalInit number tx =
     (if localinit tx then tx
      else tx\<lparr>readset := ReadSet_new, writeset := WriteSet_new, deleteset := DELSet_new,
              buffer := replicate number BufferNode_new, localinit := True\<rparr>)"

definition TX_resets :: "TX \<Rightarrow> TX" where
  "TX_resets tx = tx\<lparr>readset := ReadSet_Reset (readset tx), writeset := WriteSet_Reset (writeset tx),
                     deleteset := DELSet_Reset (deleteset tx)\<rparr>"

definition DBTX_Begin :: "'ix DBTables \<times> TLS \<times> TX \<Rightarrow> 'ix DBTables \<times> TLS \<times> TX" where
  "DBTX_Begin = (\<lambda>(db, th, tx).
     (db\<lparr>db_rcu := RCU_BeginTX (tl_tid th) (db_rcu db)\<rparr>, th, TX_resets (DBTX_ThreadLocalInit (db_number db) tx)))"

definition DBTX_Abort :: "'ix DBTables \<times> TLS \<times> TX \<Rightarrow> bool \<times> 'ix DBTables \<times> TLS \<times> TX" where
  "DBTX_Abort = (\<lambda>(db, th, tx).
     (False, db\<lparr>db_rcu := RCU_EndTX (tl_tid th) (db_rcu db)\<rparr>, th, (TX_resets tx)\<lparr>tx_abort := False\<rparr>))"

section \<open>Commit\<close>

text \<open>The hardware transaction of \<open>End\<close>: validate, check the write set, install the writes.\<close>

definition Commit_region :: "'ix DBTables \<times> TLS \<times> TX \<Rightarrow> fault + bool \<times> 'ix DBTables \<times> TLS \<times> TX" where
  "Commit_region = (\<lambda>(db, th, tx).
     and_then (ReadSet_Validate (db_mem db) (readset tx)) (\<lambda>read_valid_val.
       let read_valid = (read_valid_val = NO_CONFLICT);
           write_valid = CheckWriteSet (db_mem db) (writeset tx)
       in if \<not> (read_valid \<and> write_valid) then Inr (False, db, th, tx)
          else and_then (WriteSet_Write (db_snapshot db) (writeset tx) (db_mem db, deleteset tx, memnodesPool th))
                 (\<lambda>(ws, m, d, ps).
                   Inr (True, db\<lparr>db_mem := m\<rparr>, th\<lparr>memnodesPool := ps\<rparr>, tx\<lparr>writeset := ws, deleteset := d\<rparr>))))"

text \<open>After a commit: replaced values, old versions and deleted nodes go to the thread's pools.\<close>

definition End_collect :: "'ix DBTables \<times> TLS \<times> TX \<Rightarrow> 'ix DBTables \<times> TLS \<times> TX" where
  "End_collect = (\<lambda>(db, th, tx).
     let th1 = CollectOldVersions (ws_commitSN (writeset tx)) (db_mem db) (ws_entries (writeset tx)) th
     in case GCRMNodes (ds_entries (deleteset tx)) (th1, db_mem db) of
          (th2, m) \<Rightarrow> (db\<lparr>db_mem := m\<rparr>, th2, tx))"

definition End_gc ::
    "(u64 \<Rightarrow> 'ix \<times> mem \<Rightarrow> fault + (nptr \<times> 'ix \<times> mem)) \<Rightarrow> u64 \<Rightarrow> bool \<Rightarrow> 'ix DBTables \<times> TLS \<times> TX
      \<Rightarrow> fault + bool \<times> 'ix DBTables \<times> TLS \<times> TX" where
  "End_gc getdel safesn res = (\<lambda>(db, th, tx).
     let db1 = db\<lparr>db_rcu := RCU_EndTX (tl_tid th) (db_rcu db)\<rparr>
     in and_then (DBTables_GC safesn (db_rcu db1) (db_number db1) th) (\<lambda>th1.
          and_then (DelayRemove getdel (db1, th1)) (\<lambda>(db2, th2). Inr (res, db2, th2, tx))))"

definition DBTX_End ::
    "(u64 \<Rightarrow> 'ix \<times> mem \<Rightarrow> fault + (nptr \<times> 'ix \<times> mem)) \<Rightarrow> u64 \<Rightarrow> 'ix DBTables \<times> TLS \<times> TX
      \<Rightarrow> fault + bool \<times> 'ix DBTables \<times> TLS \<times> TX" where
  "DBTX_End getdel safesn = (\<lambda>(db, th, tx).
     if tx_abort tx then End_gc getdel safesn False (db, th, tx)
     else and_then (Commit_region (db, th, tx)) (\<lambda>(ok, s).
            if ok then End_gc getdel safesn True (End_collect s) else End_gc getdel safesn False s))"

section \<open>Writes\<close>

definition Index_GetWithInsert ::
    "(u64 \<Rightarrow> 'ix \<times> mem \<Rightarrow> nptr \<times> 'ix \<times> mem) \<Rightarrow> nat \<Rightarrow> u64 \<Rightarrow> 'ix DBTables \<Rightarrow> nptr \<times> 'ix DBTables" where
  "Index_GetWithInsert getins tableid key db =
     (case getins key (db_tables db ! tableid, db_mem db) of
        (n, ix, m) \<Rightarrow> (n, db\<lparr>db_tables := (db_tables db)[tableid := ix], db_mem := m\<rparr>))"

text \<open>
  The test of the one-entry node buffer: None for a miss. A buffered key with a null node is the
  state of a fresh entry when the key is the largest 64-bit number.
\<close>

definition Buffer_hit :: "nat \<Rightarrow> u64 \<Rightarrow> mem \<Rightarrow> TX \<Rightarrow> fault + nptr option" where
  "Buffer_hit tableid key m tx =
     (let b = buffer tx ! tableid
      in if bn_key b = key
         then if bn_node b = NULLP then Inl NullDeref
              else Inr (if mn_value (nodes m (bn_node b)) \<noteq> HAVEREMOVED then Some (bn_node b) else None)
         else Inr None)"

definition Buffer_set :: "nat \<Rightarrow> u64 \<Rightarrow> nptr \<Rightarrow> TX \<Rightarrow> TX" where
  "Buffer_set tableid key n tx = tx\<lparr>buffer := (buffer tx)[tableid := \<lparr>bn_key = key, bn_node = n\<rparr>]\<rparr>"

text \<open>One attempt to find the node; \<open>Add\<close> remembers a node it had to look up, the copying variants do not.\<close>

definition Add_attempt ::
    "(u64 \<Rightarrow> 'ix \<times> mem \<Rightarrow> nptr \<times> 'ix \<times> mem) \<Rightarrow> bool \<Rightarrow> nat \<Rightarrow> u64 \<Rightarrow> 'ix DBTables \<times> TX
      \<Rightarrow> fault + nptr \<times> 'ix DBTables \<times> TX" where
  "Add_attempt getins remember tableid key = (\<lambda>(db, tx).
     and_then (Buffer_hit tableid key (db_mem db) tx) (\<lambda>hit.
       case hit of
         Some n \<Rightarrow> Inr (n, db, tx)
       | None \<Rightarrow> (case Index_GetWithInsert getins tableid key db of
                    (n, db') \<Rightarrow> Inr (n, db', if remember then Buffer_set tableid key n tx else tx))))"

partial_function (option) Add_find ::
    "('ix DBTables \<times> TX \<Rightarrow> fault + nptr \<times> 'ix DBTables \<times> TX) \<Rightarrow> 'ix DBTables \<times> TX
      \<Rightarrow> (fault + nptr \<times> 'ix DBTables \<times> TX) option" where
  "Add_find attempt s =
     (case attempt s of
        Inl f \<Rightarrow> Some (Inl f)
      | Inr (n, db, tx) \<Rightarrow>
          if n = NULLP then Some (Inl NullDeref)
          else if mn_value (nodes (db_mem db) n) = HAVEREMOVED then Add_find attempt (db, tx)
          else Some (Inr (n, db, tx)))"

definition DBTX_Add ::
    "(u64 \<Rightarrow> 'ix \<times> mem \<Rightarrow> nptr \<times> 'ix \<times> mem) \<Rightarrow> nat \<Rightarrow> u64 \<Rightarrow> vptr \<Rightarrow> 'ix DBTables \<times> TLS \<times> TX
      \<Rightarrow> (fault + 'ix DBTables \<times> TLS \<times> TX) option" where
  "DBTX_Add getins tableid key val = (\<lambda>(db, th, tx).
     map_option (map_sum id (\<lambda>(n, db', tx'). (db', th, tx'\<lparr>writeset := WriteSet_Add tableid key val n (writeset tx')\<rparr>)))
       (Add_find (Add_attempt getins True tableid key) (db, tx)))"

text \<open>
  \<open>Add\<close> with a copy of the value: the copy lives in a recycled value or in memory fresh from malloc,
  whose address is the argument \<open>fresh\<close>.
\<close>

definition copy_target :: "nat \<Rightarrow> vptr \<Rightarrow> TLS \<Rightarrow> vptr \<times> TLS" where
  "copy_target tableid fresh th =
     (case GetEmptyValue tableid th of (None, th') \<Rightarrow> (fresh, th') | (Some v, th') \<Rightarrow> (v, th'))"

definition DBTX_Add_len ::
    "(u64 \<Rightarrow> 'ix \<times> mem \<Rightarrow> nptr \<times> 'ix \<times> mem) \<Rightarrow> nat \<Rightarrow> u64 \<Rightarrow> vptr \<Rightarrow> 'ix DBTables \<times> TLS \<times> TX
      \<Rightarrow> (fault + 'ix DBTables \<times> TLS \<times> TX) option" where
  "DBTX_Add_len getins tableid key fresh = (\<lambda>(db, th, tx).
     map_option (map_sum id (\<lambda>(n, db', tx').
         case copy_target tableid fresh th of
           (v, th') \<Rightarrow> (db', th', tx'\<lparr>writeset := WriteSet_Add tableid key v n (writeset tx')\<rparr>)))
       (Add_find (Add_attempt getins False tableid key) (db, tx)))"

definition DBTX_Add_Label ::
    "(u64 \<Rightarrow> 'ix \<times> mem \<Rightarrow> nptr \<times> 'ix \<times> mem) \<Rightarrow> nat \<Rightarrow> u64 \<Rightarrow> vptr \<Rightarrow> 'ix DBTables \<times> TLS \<times> TX
      \<Rightarrow> (fault + 'ix DBTables \<times> TLS \<times> TX) option" where
  "DBTX_Add_Label getins tableid key fresh = (\<lambda>(db, th, tx).
     map_option (map_sum id (\<lambda>(n, db', tx').
         case copy_target tableid fresh th of
           (v, th') \<Rightarrow> (db', th', tx'\<lparr>writeset := WriteSet_Add tableid key v n (writeset tx')\<rparr>)))
       (Add_find (Add_attempt getins False tableid key) (db, tx)))"

definition DBTX_Delete ::
    "(u64 \<Rightarrow> 'ix \<times> mem \<Rightarrow> nptr \<times> 'ix \<times> mem) \<Rightarrow> nat \<Rightarrow> u64 \<Rightarrow> 'ix DBTables \<times> TLS \<times> TX
      \<Rightarrow> (fault + 'ix DBTables \<times> TLS \<times> TX) option" where
  "DBTX_Delete getins tableid key = DBTX_Add getins tableid key LOGICALDELETE"

section \<open>Reads\<close>

text \<open>
  The pieces of \<open>Get\<close>: the index call with the update of the buffer, the hardware transaction that
  records the sequence number (None: the node was removed, retry), and the read of the value.
\<close>

definition Get_index ::
    "(u64 \<Rightarrow> 'ix \<times> mem \<Rightarrow> nptr \<times> 'ix \<times> mem) \<Rightarrow> nat \<Rightarrow> u64 \<Rightarrow> 'ix DBTables \<times> TX \<Rightarrow> nptr \<times> 'ix DBTables \<times> TX" where
  "Get_index getins tableid key = (\<lambda>(db, tx).
     case Index_GetWithInsert getins tableid key db of
       (n, db') \<Rightarrow> (n, db', if n = NULLP then tx else Buffer_set tableid key n tx))"

definition Get_seq :: "nptr \<Rightarrow> int \<Rightarrow> mem \<Rightarrow> TX \<Rightarrow> fault + TX option" where
  "Get_seq n label m tx =
     (if mn_value (nodes m n) = HAVEREMOVED then Inr None
      else and_then (ReadSet_Add (SeqOf n) label m (readset tx)) (\<lambda>rs. Inr (Some (tx\<lparr>readset := rs\<rparr>))))"

definition Get_value :: "nptr \<Rightarrow> mem \<Rightarrow> bool \<times> vptr" where
  "Get_value n m = (if ValidateValue (mn_value (nodes m n)) then (True, mn_value (nodes m n)) else (False, 0))"

partial_function (option) Get_loop ::
    "('ix DBTables \<times> TX \<Rightarrow> nptr \<times> 'ix DBTables \<times> TX) \<Rightarrow> int \<Rightarrow> vptr \<Rightarrow> 'ix DBTables \<times> TX
      \<Rightarrow> (fault + (bool \<times> vptr) \<times> 'ix DBTables \<times> TX) option" where
  "Get_loop attempt label val s =
     (case attempt s of (n, db, tx) \<Rightarrow>
        if n = NULLP then Some (Inr ((False, val), db, tx))
        else case Get_seq n label (db_mem db) tx of
               Inl f \<Rightarrow> Some (Inl f)
             | Inr None \<Rightarrow> Get_loop attempt label val (db, tx)
             | Inr (Some tx') \<Rightarrow> Some (Inr (Get_value n (db_mem db), db, tx')))"

text \<open>\<open>val\<close> is what the caller's output variable holds on entry.\<close>

definition DBTX_Get ::
    "(u64 \<Rightarrow> 'ix \<times> mem \<Rightarrow> nptr \<times> 'ix \<times> mem) \<Rightarrow> nat \<Rightarrow> u64 \<Rightarrow> int \<Rightarrow> vptr \<Rightarrow> 'ix DBTables \<times> TLS \<times> TX
      \<Rightarrow> (fault + (bool \<times> vptr) \<times> 'ix DBTables \<times> TLS \<times> TX) option" where
  "DBTX_Get getins tableid key label val = (\<lambda>(db, th, tx).
     case WriteSet_Lookup tableid key (writeset tx) of
       Some v \<Rightarrow> Some (Inr ((v \<noteq> LOGICALDELETE, v), db, th, tx))
     | None \<Rightarrow> map_option (map_sum id (\<lambda>(r, db', tx'). (r, db', th, tx')))
                 (Get_loop (Get_index getins tableid key) label val (db, tx)))"

definition DBTX_ROGet ::
    "(u64 \<Rightarrow> 'ix \<times> mem \<Rightarrow> nptr \<times> 'ix \<times> mem) \<Rightarrow> nat \<Rightarrow> u64 \<Rightarrow> vptr \<Rightarrow> 'ix DBTables \<Rightarrow> (bool \<times> vptr) \<times> 'ix DBTables" where
  "DBTX_ROGet getins tableid key val db =
     (case Index_GetWithInsert getins tableid key db of
        (n, db') \<Rightarrow> (if n = NULLP then (False, val) else Get_value n (db_mem db'), db'))"

end
