(* ===== verification/Tx_System.thy ===== *)
theory Tx_System
  imports Dbtx
begin

text \<open>
  The threads of the store run transactions concurrently. A step of the system is one access of one
  thread to shared memory: a call of an index, a hardware transaction, or the read of a value. The pieces
  are those \<open>DBTX::Get\<close>, \<open>Add\<close> and \<open>End\<close> are built from in theory \<open>Dbtx\<close>; the removals are iterations of
  \<open>RMPool::RemoveAll\<close>, and \<open>DBROTX::Begin\<close> advances the snapshot number.

  Each thread carries the list of its operations, latest first, and the system the list of committed
  transactions in the order of their commits; neither influences a step. Nodes are not recycled:
  \<open>DBTables::GC\<close> has no step here.
\<close>

section \<open>Operations and serial executions\<close>

datatype txop = RdOp nat u64 "vptr option" | WrOp nat u64 vptr

type_synonym content = "nat \<times> u64 \<Rightarrow> vptr"

text \<open>One operation on an abstract content; None when a read would have returned something else.\<close>

fun serial_op :: "txop \<Rightarrow> content \<Rightarrow> content option" where
  "serial_op (RdOp t k r) S = (if valid_value (S (t, k)) = r then Some S else None)"
| "serial_op (WrOp t k v) S = Some (S((t, k) := v))"

fun serial_run :: "txop list \<Rightarrow> content \<Rightarrow> content option" where
  "serial_run [] S = Some S"
| "serial_run (x # xs) S = (case serial_op x S of None \<Rightarrow> None | Some S' \<Rightarrow> serial_run xs S')"

definition serial_txs :: "txop list list \<Rightarrow> content \<Rightarrow> content option" where
  "serial_txs log = serial_run (concat log)"

section \<open>The system\<close>

datatype pc = Idle | Ready | Getting nat u64 int | GotNode nat u64 int nptr | GotSeq nat u64 nptr
  | Adding nat u64 vptr bool | AddIndex nat u64 vptr bool | AddGot nat u64 vptr bool nptr | Committed | Ending

record thread =
  t_tls :: TLS
  t_tx :: TX
  t_pc :: pc
  t_ops :: "txop list"

record 'ix sys =
  s_db :: "'ix DBTables"
  s_thr :: "nat \<Rightarrow> thread"
  s_log :: "txop list list"
  s_work :: nat

definition read_result :: "bool \<times> vptr \<Rightarrow> vptr option" where
  "read_result r = (if fst r then Some (snd r) else None)"

text \<open>
  The steps of thread \<open>i\<close> in local state \<open>x\<close>: the new store, local state, log and the number of
  sequence numbers or snapshot numbers handed out.
\<close>

inductive thread_step ::
    "(u64 \<Rightarrow> 'ix \<times> mem \<Rightarrow> nptr \<times> 'ix \<times> mem) \<Rightarrow> (u64 \<Rightarrow> 'ix \<times> mem \<Rightarrow> fault + (nptr \<times> 'ix \<times> mem))
      \<Rightarrow> 'ix DBTables \<Rightarrow> thread \<Rightarrow> 'ix DBTables \<Rightarrow> thread \<Rightarrow> txop list list \<Rightarrow> nat \<Rightarrow> bool"
  for getins getdel where
  step_Begin: "\<lbrakk>t_pc x = Idle; DBTX_Begin (db, t_tls x, t_tx x) = (db', th, tx)\<rbrakk> \<Longrightarrow>
     thread_step getins getdel db x db' (x\<lparr>t_tls := th, t_tx := tx, t_pc := Ready, t_ops := []\<rparr>) [] 0"
| step_Get_own: "\<lbrakk>t_pc x = Ready; WriteSet_Lookup t k (writeset (t_tx x)) = Some v\<rbrakk> \<Longrightarrow>
     thread_step getins getdel db x db (x\<lparr>t_ops := RdOp t k (read_result (v \<noteq> LOGICALDELETE, v)) # t_ops x\<rparr>) [] 0"
| step_Get: "\<lbrakk>t_pc x = Ready; t < length (db_tables db); l \<noteq> NO_CONFLICT;
      WriteSet_Lookup t k (writeset (t_tx x)) = None\<rbrakk> \<Longrightarrow>
     thread_step getins getdel db x db (x\<lparr>t_pc := Getting t k l\<rparr>) [] 0"
| step_Get_index: "\<lbrakk>t_pc x = Getting t k l; Get_index getins t k (db, t_tx x) = (n, db', tx)\<rbrakk> \<Longrightarrow>
     thread_step getins getdel db x db' (x\<lparr>t_tx := tx, t_pc := GotNode t k l n\<rparr>) [] 0"
| step_Get_seq: "\<lbrakk>t_pc x = GotNode t k l n; Get_seq n l (db_mem db) (t_tx x) = Inr (Some tx)\<rbrakk> \<Longrightarrow>
     thread_step getins getdel db x db (x\<lparr>t_tx := tx, t_pc := GotSeq t k n\<rparr>) [] 0"
| step_Get_retry: "\<lbrakk>t_pc x = GotNode t k l n; Get_seq n l (db_mem db) (t_tx x) = Inr None\<rbrakk> \<Longrightarrow>
     thread_step getins getdel db x db (x\<lparr>t_pc := Getting t k l\<rparr>) [] 0"
| step_Get_value: "\<lbrakk>t_pc x = GotSeq t k n\<rbrakk> \<Longrightarrow>
     thread_step getins getdel db x db
       (x\<lparr>t_pc := Ready, t_ops := RdOp t k (read_result (Get_value n (db_mem db))) # t_ops x\<rparr>) [] 0"
| step_Add: "\<lbrakk>t_pc x = Ready; t < length (db_tables db); v \<noteq> HAVEREMOVED\<rbrakk> \<Longrightarrow>
     thread_step getins getdel db x db (x\<lparr>t_pc := Adding t k v r\<rparr>) [] 0"
| step_Add_hit: "\<lbrakk>t_pc x = Adding t k v r; Buffer_hit t k (db_mem db) (t_tx x) = Inr (Some n)\<rbrakk> \<Longrightarrow>
     thread_step getins getdel db x db (x\<lparr>t_pc := AddGot t k v r n\<rparr>) [] 0"
| step_Add_miss: "\<lbrakk>t_pc x = Adding t k v r; Buffer_hit t k (db_mem db) (t_tx x) = Inr None\<rbrakk> \<Longrightarrow>
     thread_step getins getdel db x db (x\<lparr>t_pc := AddIndex t k v r\<rparr>) [] 0"
| step_Add_index: "\<lbrakk>t_pc x = AddIndex t k v r; Index_GetWithInsert getins t k db = (n, db')\<rbrakk> \<Longrightarrow>
     thread_step getins getdel db x db'
       (x\<lparr>t_tx := (if r then Buffer_set t k n (t_tx x) else t_tx x), t_pc := AddGot t k v r n\<rparr>) [] 0"
| step_Add_retry: "\<lbrakk>t_pc x = AddGot t k v r n; mn_value (nodes (db_mem db) n) = HAVEREMOVED\<rbrakk> \<Longrightarrow>
     thread_step getins getdel db x db (x\<lparr>t_pc := Adding t k v r\<rparr>) [] 0"
| step_Add_done: "\<lbrakk>t_pc x = AddGot t k v r n; mn_value (nodes (db_mem db) n) \<noteq> HAVEREMOVED\<rbrakk> \<Longrightarrow>
     thread_step getins getdel db x db
       (x\<lparr>t_tx := (t_tx x)\<lparr>writeset := WriteSet_Add t k v n (writeset (t_tx x))\<rparr>, t_pc := Ready,
          t_ops := WrOp t k v # t_ops x\<rparr>) [] 0"
| step_Commit: "\<lbrakk>t_pc x = Ready; \<not> tx_abort (t_tx x); Commit_region (db, t_tls x, t_tx x) = Inr (True, db', th, tx)\<rbrakk> \<Longrightarrow>
     thread_step getins getdel db x db' (x\<lparr>t_tls := th, t_tx := tx, t_pc := Committed\<rparr>) [rev (t_ops x)]
       (length (ws_entries (writeset (t_tx x))))"
| step_Fail: "\<lbrakk>t_pc x = Ready; tx_abort (t_tx x) \<or> Commit_region (db, t_tls x, t_tx x) = Inr (False, s)\<rbrakk> \<Longrightarrow>
     thread_step getins getdel db x db (x\<lparr>t_pc := Ending\<rparr>) [] 0"
| step_Abort: "\<lbrakk>t_pc x = Ready; DBTX_Abort (db, t_tls x, t_tx x) = (b, db', th, tx)\<rbrakk> \<Longrightarrow>
     thread_step getins getdel db x db' (x\<lparr>t_tls := th, t_tx := tx, t_pc := Idle\<rparr>) [] 0"
| step_Collect: "\<lbrakk>t_pc x = Committed; End_collect (db, t_tls x, t_tx x) = (db', th, tx)\<rbrakk> \<Longrightarrow>
     thread_step getins getdel db x db' (x\<lparr>t_tls := th, t_tx := tx, t_pc := Ending\<rparr>) [] 0"
| step_End: "\<lbrakk>t_pc x = Ending\<rbrakk> \<Longrightarrow>
     thread_step getins getdel db x (db\<lparr>db_rcu := RCU_EndTX (tl_tid (t_tls x)) (db_rcu db)\<rparr>) (x\<lparr>t_pc := Idle\<rparr>) [] 0"
| step_Remove: "\<lbrakk>t_pc x = Idle; rmlist (rmPool (t_tls x)) = ob # obs;
      RemoveAll_elem getdel ob (t_tls x, db_tables db, db_mem db) = Inr (th, tabs, m)\<rbrakk> \<Longrightarrow>
     thread_step getins getdel db x (db\<lparr>db_tables := tabs, db_mem := m\<rparr>)
       (x\<lparr>t_tls := th\<lparr>rmPool := (rmPool th)\<lparr>rmlist := obs\<rparr>\<rparr>\<rparr>) [] 1"
| step_RO_Begin: "\<lbrakk>t_pc x = Idle\<rbrakk> \<Longrightarrow>
     thread_step getins getdel db x (db\<lparr>db_snapshot := db_snapshot db + 1\<rparr>) x [] 1"

inductive reach ::
    "(u64 \<Rightarrow> 'ix \<times> mem \<Rightarrow> nptr \<times> 'ix \<times> mem) \<Rightarrow> (u64 \<Rightarrow> 'ix \<times> mem \<Rightarrow> fault + (nptr \<times> 'ix \<times> mem))
      \<Rightarrow> 'ix sys \<Rightarrow> 'ix sys \<Rightarrow> bool"
  for getins getdel s0 where
  reach_refl: "reach getins getdel s0 s0"
| reach_step: "reach getins getdel s0 s \<Longrightarrow> thread_step getins getdel (s_db s) (s_thr s i) db' x' l w \<Longrightarrow>
     reach getins getdel s0
       \<lparr>s_db = db', s_thr = (s_thr s)(i := x'), s_log = s_log s @ l, s_work = s_work s + w\<rparr>"

text \<open>
  The start: every thread has run \<open>DBTables::ThreadLocalInit\<close> and no transaction yet, so that its
  transaction-local sets do not exist (\<open>localinit\<close> is false).
\<close>

definition TX_new :: TX where
  "TX_new = \<lparr>readset = ReadSet_new, writeset = WriteSet_new, deleteset = DELSet_new, buffer = [],
             localinit = False, tx_abort = False\<rparr>"

definition sys_init :: "'ix DBTables \<Rightarrow> 'ix sys" where
  "sys_init db = \<lparr>s_db = db,
     s_thr = (\<lambda>i. \<lparr>t_tls = DBTables_ThreadLocalInit i db, t_tx = TX_new, t_pc = Idle, t_ops = []\<rparr>),
     s_log = [], s_work = 0\<rparr>"

text \<open>What the tables hold: the value of the indexed node, nothing for a key without a node.\<close>

definition content_of :: "('ix \<Rightarrow> u64 \<Rightarrow> nptr option) \<Rightarrow> 'ix list \<Rightarrow> mem \<Rightarrow> content" where
  "content_of look tabs m = (\<lambda>(t, k).
     if t < length tabs
     then (case look (tabs ! t) k of None \<Rightarrow> LOGICALDELETE | Some p \<Rightarrow> mn_value (nodes m p))
     else LOGICALDELETE)"

section \<open>Explained reads\<close>

fun wlookup :: "nat \<Rightarrow> u64 \<Rightarrow> txop list \<Rightarrow> vptr option" where
  "wlookup t k [] = None"
| "wlookup t k (RdOp t' k' r # xs) = wlookup t k xs"
| "wlookup t k (WrOp t' k' v # xs) = (if t' = t \<and> k' = k then Some v else wlookup t k xs)"

text \<open>
  Operations, latest first: every read is answered by the latest own write, or else satisfies \<open>P\<close>.
\<close>

fun explained :: "(nat \<Rightarrow> u64 \<Rightarrow> vptr option \<Rightarrow> bool) \<Rightarrow> txop list \<Rightarrow> bool" where
  "explained P [] \<longleftrightarrow> True"
| "explained P (RdOp t k r # xs) \<longleftrightarrow> explained P xs \<and>
     (case wlookup t k xs of Some v \<Rightarrow> r = valid_value v | None \<Rightarrow> P t k r)"
| "explained P (WrOp t k v # xs) \<longleftrightarrow> explained P xs"

fun wr_list :: "txop list \<Rightarrow> (nat \<times> u64 \<times> vptr) list" where
  "wr_list [] = []"
| "wr_list (RdOp t k r # xs) = wr_list xs"
| "wr_list (WrOp t k v # xs) = (t, k, v) # wr_list xs"

definition own_writes :: "txop list \<Rightarrow> content \<Rightarrow> content" where
  "own_writes xs S = (\<lambda>(t, k). case wlookup t k xs of Some v \<Rightarrow> v | None \<Rightarrow> S (t, k))"

lemma explained_mono: "explained P xs \<Longrightarrow> (\<And>t k r. P t k r \<Longrightarrow> Q t k r) \<Longrightarrow> explained Q xs"
  by (induction P xs rule: explained.induct) (auto split: option.splits)

lemma serial_run_append: "serial_run (xs @ ys) S = (case serial_run xs S of None \<Rightarrow> None | Some S' \<Rightarrow> serial_run ys S')"
  by (induction xs arbitrary: S) (auto split: option.splits)

text \<open>A transaction whose reads are explained by a content runs serially on that content.\<close>

lemma serial_run_explained:
  "explained (\<lambda>t k r. valid_value (S (t, k)) = r) xs \<Longrightarrow> serial_run (rev xs) S = Some (own_writes xs S)"
proof (induction xs)
  case Nil
  then show ?case by (simp add: own_writes_def)
next
  case (Cons x xs)
  then have IH: "serial_run (rev xs) S = Some (own_writes xs S)" by (cases x) auto
  show ?case
  proof (cases x)
    case (RdOp t k r)
    then have "valid_value (own_writes xs S (t, k)) = r"
      using Cons.prems by (auto simp: own_writes_def split: option.splits)
    with IH RdOp show ?thesis by (simp add: serial_run_append own_writes_def)
  next
    case (WrOp t k v)
    have w: "own_writes (x # xs) S = (own_writes xs S)((t, k) := v)"
      by (auto simp: WrOp own_writes_def fun_eq_iff)
    show ?thesis unfolding w using IH WrOp by (simp add: serial_run_append fun_upd_def)
  qed
qed

lemma wlookup_wr_list: "wlookup t k xs = map_option (\<lambda>(t, k, v). v) (find (\<lambda>(t', k', v). t' = t \<and> k' = k) (wr_list xs))"
  by (induction xs rule: wr_list.induct) auto

lemma Lookup_wlookup:
  assumes "map (\<lambda>e. (kv_tableid e, kv_key e, kv_val e)) (rev (ws_entries w)) = wr_list xs"
  shows "WriteSet_Lookup t k w = wlookup t k xs"
proof -
  have f: "find (\<lambda>(t', k', v). t' = t \<and> k' = k) (map (\<lambda>e. (kv_tableid e, kv_key e, kv_val e)) es)
      = map_option (\<lambda>e. (kv_tableid e, kv_key e, kv_val e)) (find (\<lambda>e. kv_tableid e = t \<and> kv_key e = k) es)" for es
    by (induction es) auto
  show ?thesis
    unfolding wlookup_wr_list Lookup_find assms [symmetric] f by (simp add: option.map_comp o_def)
qed

section \<open>Invariants\<close>

context memstore
begin

text \<open>A thread's association of a key with a node: the node is indexed there unless it was removed.\<close>

definition assoc :: "'ix list \<Rightarrow> mem \<Rightarrow> nat \<Rightarrow> u64 \<Rightarrow> nptr \<Rightarrow> bool" where
  "assoc tabs m t k p \<longleftrightarrow> t < length tabs \<and> 0 < p \<and> p < brk m
     \<and> (look (tabs ! t) k = Some p \<or> mn_value (nodes m p) = HAVEREMOVED)"

text \<open>What any step may do to shared memory, as far as the other threads are concerned.\<close>

definition env :: "'ix list \<Rightarrow> mem \<Rightarrow> 'ix list \<Rightarrow> mem \<Rightarrow> bool" where
  "env tabs m tabs' m' \<longleftrightarrow> length tabs' = length tabs \<and> brk m \<le> brk m'
     \<and> (\<forall>p < brk m. unat (mn_seq (nodes m p)) \<le> unat (mn_seq (nodes m' p))
          \<and> (mn_seq (nodes m' p) = mn_seq (nodes m p) \<longrightarrow> mn_value (nodes m' p) = mn_value (nodes m p)))
     \<and> (\<forall>t k p. assoc tabs m t k p \<longrightarrow> assoc tabs' m' t k p)"

definition store_ok :: "'ix DBTables \<Rightarrow> nat \<Rightarrow> bool" where
  "store_ok db W \<longleftrightarrow> tables_ok look inv (db_tables db) (db_mem db) \<and> db_number db = length (db_tables db)
     \<and> (\<forall>t < length (db_tables db). \<forall>k p. look (db_tables db ! t) k = Some p \<longrightarrow>
          mn_value (nodes (db_mem db) p) \<noteq> HAVEREMOVED \<and> mn_counter (nodes (db_mem db) p) \<le> db_snapshot db
          \<and> unat (mn_seq (nodes (db_mem db) p)) \<le> W)
     \<and> unat (db_snapshot db) \<le> W + 1"

definition rm_ok :: "'ix list \<Rightarrow> mem \<Rightarrow> nat \<Rightarrow> u64 \<Rightarrow> nptr \<Rightarrow> u64 \<Rightarrow> bool" where
  "rm_ok tabs m t k p s \<longleftrightarrow> assoc tabs m t k p \<and> unat s \<le> unat (mn_seq (nodes m p))
     \<and> (mn_seq (nodes m p) = s \<longrightarrow> mn_value (nodes m p) = LOGICALDELETE)"

definition rs_ok :: "mem \<Rightarrow> ReadSet \<Rightarrow> bool" where
  "rs_ok m rs \<longleftrightarrow> ReadSet_wf rs \<and> rs_links rs = [] \<and> (\<forall>e \<in> set (rs_entries rs). rs_label e \<noteq> NO_CONFLICT
     \<and> (\<exists>p. rs_seqptr e = SeqOf p \<and> p < brk m \<and> unat (rs_seq e) \<le> unat (mn_seq (nodes m p))))"

definition explains :: "'ix list \<Rightarrow> mem \<Rightarrow> ReadSet \<Rightarrow> nat \<Rightarrow> u64 \<Rightarrow> vptr option \<Rightarrow> bool" where
  "explains tabs m rs t k r \<longleftrightarrow> (\<exists>p. \<exists>e \<in> set (rs_entries rs). rs_seqptr e = SeqOf p \<and> assoc tabs m t k p
     \<and> (mn_seq (nodes m p) = rs_seq e \<longrightarrow> mn_value (nodes m p) \<noteq> HAVEREMOVED \<and> valid_value (mn_value (nodes m p)) = r))"

definition ws_ok :: "'ix list \<Rightarrow> mem \<Rightarrow> WriteSet \<Rightarrow> txop list \<Rightarrow> bool" where
  "ws_ok tabs m ws xs \<longleftrightarrow> WriteSet_wf ws
     \<and> (\<forall>e \<in> set (ws_entries ws). assoc tabs m (kv_tableid e) (kv_key e) (kv_node e) \<and> kv_val e \<noteq> HAVEREMOVED)
     \<and> map (\<lambda>e. (kv_tableid e, kv_key e, kv_val e)) (rev (ws_entries ws)) = wr_list xs"

definition buf_ok :: "'ix list \<Rightarrow> mem \<Rightarrow> BufferNode list \<Rightarrow> bool" where
  "buf_ok tabs m bs \<longleftrightarrow> length bs = length tabs
     \<and> (\<forall>t < length bs. bn_node (bs ! t) \<noteq> NULLP \<longrightarrow> assoc tabs m t (bn_key (bs ! t)) (bn_node (bs ! t)))"

fun pc_ok :: "'ix list \<Rightarrow> mem \<Rightarrow> ReadSet \<Rightarrow> txop list \<Rightarrow> pc \<Rightarrow> bool" where
  "pc_ok tabs m rs xs (Getting t k l) \<longleftrightarrow> t < length tabs \<and> l \<noteq> NO_CONFLICT \<and> wlookup t k xs = None"
| "pc_ok tabs m rs xs (GotNode t k l n) \<longleftrightarrow> assoc tabs m t k n \<and> l \<noteq> NO_CONFLICT \<and> wlookup t k xs = None"
| "pc_ok tabs m rs xs (GotSeq t k n) \<longleftrightarrow> assoc tabs m t k n \<and> wlookup t k xs = None
     \<and> (\<exists>e \<in> set (rs_entries rs). rs_seqptr e = SeqOf n \<and> (mn_seq (nodes m n) = rs_seq e \<longrightarrow> mn_value (nodes m n) \<noteq> HAVEREMOVED))"
| "pc_ok tabs m rs xs (Adding t k v r) \<longleftrightarrow> t < length tabs \<and> v \<noteq> HAVEREMOVED"
| "pc_ok tabs m rs xs (AddIndex t k v r) \<longleftrightarrow> t < length tabs \<and> v \<noteq> HAVEREMOVED"
| "pc_ok tabs m rs xs (AddGot t k v r n) \<longleftrightarrow> assoc tabs m t k n \<and> v \<noteq> HAVEREMOVED"
| "pc_ok tabs m rs xs _ \<longleftrightarrow> True"

definition tls_ok :: "'ix list \<Rightarrow> mem \<Rightarrow> TLS \<Rightarrow> bool" where
  "tls_ok tabs m th \<longleftrightarrow> length (memnodesPool th) = length tabs
     \<and> (\<forall>P \<in> set (memnodesPool th). free_inv P \<and> free_objs P = [])
     \<and> (\<forall>ob \<in> set (rmlist (rmPool th)). rm_ok tabs m (ro_tableid ob) (ro_key ob) (ro_node ob) (ro_seq ob))"

definition running :: "pc \<Rightarrow> bool" where
  "running c \<longleftrightarrow> c \<noteq> Idle \<and> c \<noteq> Committed \<and> c \<noteq> Ending"

definition thread_ok :: "'ix list \<Rightarrow> mem \<Rightarrow> thread \<Rightarrow> bool" where
  "thread_ok tabs m x \<longleftrightarrow> tls_ok tabs m (t_tls x)
     \<and> (localinit (t_tx x) \<longrightarrow> ReadSet_wf (readset (t_tx x)) \<and> WriteSet_wf (writeset (t_tx x))
          \<and> DELSet_wf (deleteset (t_tx x)) \<and> buf_ok tabs m (buffer (t_tx x)))
     \<and> (t_pc x \<noteq> Idle \<longrightarrow> localinit (t_tx x))
     \<and> (running (t_pc x) \<longrightarrow> rs_ok m (readset (t_tx x)) \<and> ws_ok tabs m (writeset (t_tx x)) (t_ops x)
          \<and> ds_entries (deleteset (t_tx x)) = [] \<and> explained (explains tabs m (readset (t_tx x))) (t_ops x)
          \<and> pc_ok tabs m (readset (t_tx x)) (t_ops x) (t_pc x))
     \<and> (t_pc x = Committed \<longrightarrow> (\<forall>d \<in> set (ds_entries (deleteset (t_tx x))).
          rm_ok tabs m (de_tableid d) (de_key d) (de_node d) (de_seq d)))"

subsection \<open>Steps of other threads\<close>

lemma env_refl [simp]: "env tabs m tabs m"
  by (simp add: env_def)

lemma assoc_env: "env tabs m tabs' m' \<Longrightarrow> assoc tabs m t k p \<Longrightarrow> assoc tabs' m' t k p"
  by (simp add: env_def)

lemma assoc_bound: "assoc tabs m t k p \<Longrightarrow> p < brk m"
  by (simp add: assoc_def)

text \<open>A sequence number seen earlier and seen again means that the node has not changed.\<close>

lemma seq_env:
  assumes "env tabs m tabs' m'" and "p < brk m" and "unat s \<le> unat (mn_seq (nodes m p))"
    and "mn_seq (nodes m' p) = s"
  shows "mn_seq (nodes m p) = s \<and> mn_value (nodes m' p) = mn_value (nodes m p)"
proof -
  have "unat (mn_seq (nodes m p)) \<le> unat (mn_seq (nodes m' p))" using assms(1,2) by (simp add: env_def)
  with assms(3,4) have "unat (mn_seq (nodes m p)) = unat s" by simp
  then have "mn_seq (nodes m p) = s" by (simp add: word_unat_eq_iff)
  with assms show ?thesis by (simp add: env_def)
qed

lemma seq_env_le:
  "env tabs m tabs' m' \<Longrightarrow> p < brk m \<Longrightarrow> unat s \<le> unat (mn_seq (nodes m p)) \<Longrightarrow> unat s \<le> unat (mn_seq (nodes m' p))"
  by (auto simp: env_def intro: order_trans)

lemma rm_ok_env:
  assumes e: "env tabs m tabs' m'" and r: "rm_ok tabs m t k p s"
  shows "rm_ok tabs' m' t k p s"
proof -
  have p: "p < brk m" "unat s \<le> unat (mn_seq (nodes m p))" using r by (auto simp: rm_ok_def assoc_def)
  show ?thesis
    using r assoc_env [OF e] seq_env [OF e p] seq_env_le [OF e p] by (auto simp: rm_ok_def)
qed

lemma rs_ok_env: "env tabs m tabs' m' \<Longrightarrow> rs_ok m rs \<Longrightarrow> rs_ok m' rs"
  unfolding rs_ok_def using seq_env_le by (fastforce simp: env_def)

lemma explains_env:
  assumes e: "env tabs m tabs' m'" and rs: "rs_ok m rs" and x: "explains tabs m rs t k r"
  shows "explains tabs' m' rs t k r"
proof -
  from x obtain p a where a: "a \<in> set (rs_entries rs)" "rs_seqptr a = SeqOf p" "assoc tabs m t k p"
      "mn_seq (nodes m p) = rs_seq a \<longrightarrow> mn_value (nodes m p) \<noteq> HAVEREMOVED \<and> valid_value (mn_value (nodes m p)) = r"
    by (auto simp: explains_def)
  then have p: "p < brk m" "unat (rs_seq a) \<le> unat (mn_seq (nodes m p))"
    using rs by (auto simp: rs_ok_def assoc_def)
  show ?thesis
    unfolding explains_def using a seq_env [OF e p] assoc_env [OF e a(3)] by metis
qed

lemma ws_ok_env: "env tabs m tabs' m' \<Longrightarrow> ws_ok tabs m ws xs \<Longrightarrow> ws_ok tabs' m' ws xs"
  unfolding ws_ok_def using assoc_env by blast

lemma buf_ok_env: "env tabs m tabs' m' \<Longrightarrow> buf_ok tabs m bs \<Longrightarrow> buf_ok tabs' m' bs"
  unfolding buf_ok_def using assoc_env by (metis env_def)

lemma pc_ok_env:
  assumes e: "env tabs m tabs' m'" and rs: "rs_ok m rs" and x: "pc_ok tabs m rs xs c"
  shows "pc_ok tabs' m' rs xs c"
proof (cases c)
  case (GotSeq t k n)
  with x obtain a where a: "assoc tabs m t k n" "wlookup t k xs = None" "a \<in> set (rs_entries rs)" "rs_seqptr a = SeqOf n"
      "mn_seq (nodes m n) = rs_seq a \<longrightarrow> mn_value (nodes m n) \<noteq> HAVEREMOVED" by auto
  then have p: "n < brk m" "unat (rs_seq a) \<le> unat (mn_seq (nodes m n))"
    using rs by (auto simp: rs_ok_def assoc_def)
  show ?thesis
    using GotSeq a seq_env [OF e p] assoc_env [OF e a(1)] by auto
qed (use e x assoc_env [OF e] in \<open>auto simp: env_def\<close>)

lemma tls_ok_env: "env tabs m tabs' m' \<Longrightarrow> tls_ok tabs m th \<Longrightarrow> tls_ok tabs' m' th"
  using rm_ok_env by (auto simp: tls_ok_def env_def)

lemma thread_ok_env:
  assumes e: "env tabs m tabs' m'" and x: "thread_ok tabs m x"
  shows "thread_ok tabs' m' x"
proof -
  have "explained (explains tabs' m' (readset (t_tx x))) (t_ops x)" if "running (t_pc x)"
    using x that explained_mono explains_env [OF e] by (auto simp: thread_ok_def)
  then show ?thesis
    using x tls_ok_env [OF e] rs_ok_env [OF e] ws_ok_env [OF e] buf_ok_env [OF e] pc_ok_env [OF e] rm_ok_env [OF e]
    unfolding thread_ok_def by blast
qed

end

end
