(* ===== verification/Tx_Effects.thy ===== *)
theory Tx_Effects
  imports Tx_System
begin

text \<open>
  The steps that change shared memory, one by one: an index call, a commit, the removal of a node and the
  collection after a commit keep the invariants of theory \<open>Tx_System\<close>, respect the other threads, and
  change the content of the tables only as the committed writes say.
\<close>

section \<open>Effects of the shared operations\<close>

context memstore
begin

lemma content_of_Some: "t < length tabs \<Longrightarrow> look (tabs ! t) k = Some p \<Longrightarrow> content_of look tabs m (t, k) = mn_value (nodes m p)"
  by (simp add: content_of_def)

lemma tables_range:
  "tables_ok look inv tabs m \<Longrightarrow> t < length tabs \<Longrightarrow> look (tabs ! t) k = Some p \<Longrightarrow> 0 < p \<and> p < brk m"
  using look_range [of "tabs ! t" "brk m" k p] by (simp add: tables_ok_def)

lemma tables_inj:
  assumes "tables_ok look inv tabs m" and "t < length tabs" and "t' < length tabs"
    and "look (tabs ! t) k = Some p" and "look (tabs ! t') k' = Some p"
  shows "t = t' \<and> k = k'"
proof -
  have "t = t'" using assms unfolding tables_ok_def by blast
  moreover have "inv (tabs ! t) (brk m)" using assms by (simp add: tables_ok_def)
  ultimately show ?thesis using assms look_inj by blast
qed

lemma getins_step:
  assumes ok: "store_ok db W" and t: "t < length (db_tables db)"
    and g: "Index_GetWithInsert getins t k db = (n, db')"
  shows "env (db_tables db) (db_mem db) (db_tables db') (db_mem db') \<and> store_ok db' W
    \<and> content_of look (db_tables db') (db_mem db') = content_of look (db_tables db) (db_mem db)
    \<and> assoc (db_tables db') (db_mem db') t k n"
proof -
  let ?tabs = "db_tables db" and ?m = "db_mem db"
  obtain ix m' where gi: "getins k (?tabs ! t, ?m) = (n, ix, m')"
    and db': "db' = db\<lparr>db_tables := ?tabs[t := ix], db_mem := m'\<rparr>"
    using g by (auto simp: Index_GetWithInsert_def split: prod.splits)
  have T: "tables_ok look inv ?tabs ?m" using ok by (simp add: store_ok_def)
  then have i: "inv (?tabs ! t) (brk ?m)" using t by (simp add: tables_ok_def)
  note ext = getins_extends [OF i gi] and lk = getins_look [OF i gi]
  have b: "brk ?m \<le> brk m'" and same: "\<And>q. q < brk ?m \<Longrightarrow> nodes m' q = nodes ?m q"
    and new: "\<And>q. brk ?m \<le> q \<Longrightarrow> q < brk m' \<Longrightarrow> nodes m' q = MemNode_new"
    using ext by (auto simp: extends_def)
  have n: "look (?tabs ! t) k = Some n \<or> look (?tabs ! t) k = None \<and> brk ?m \<le> n \<and> n < brk m'"
    using getins_hit [OF i gi] getins_miss [OF i gi] by (cases "look (?tabs ! t) k") auto
  have T': "tables_ok look inv (?tabs[t := ix]) m'"
    using T t getins_inv [OF i gi]
  proof (rule tables_ok_update)
    show "inv ix (brk ?m) \<Longrightarrow> inv ix (brk m')" for ix using inv_mono b by blast
    show "look (?tabs ! t) k' = Some p \<or> (\<forall>t' < length ?tabs. \<forall>k'. look (?tabs ! t') k' \<noteq> Some p)"
      if "look ix k' = Some p" for k' p
      using that n lk tables_range [OF T] by (auto split: if_splits) (metis linorder_not_le)
  qed
  have n0: "0 < n \<and> n < brk m'" using look_range [OF getins_inv [OF i gi], of k n] lk by simp
  have idx: "look (?tabs[t := ix] ! t') k' = Some p \<Longrightarrow>
      look (?tabs ! t') k' = Some p \<or> t' = t \<and> k' = k \<and> p = n \<and> nodes m' n = MemNode_new" if "t' < length ?tabs" for t' k' p
    using n lk t new by (cases "t' = t") (auto split: if_splits)
  have idx': "look (?tabs ! t') k' = Some p \<Longrightarrow> look (?tabs[t := ix] ! t') k' = Some p" if "t' < length ?tabs" for t' k' p
    using n lk t by (cases "t' = t") (auto split: if_splits)
  have "assoc (?tabs[t := ix]) m' t' k' p" if "assoc ?tabs ?m t' k' p" for t' k' p
    using that idx' b same by (auto simp: assoc_def)
  then have "env ?tabs ?m (?tabs[t := ix]) m'" using b same by (auto simp: env_def)
  moreover have "store_ok db' W"
  proof -
    have "mn_value (nodes m' p) \<noteq> HAVEREMOVED \<and> mn_counter (nodes m' p) \<le> db_snapshot db \<and> unat (mn_seq (nodes m' p)) \<le> W"
      if "t' < length ?tabs" "look (?tabs[t := ix] ! t') k' = Some p" for t' k' p
      using idx [OF that] ok that(1) same tables_range [OF T that(1)]
      by (auto simp: store_ok_def MemNode_new_def HAVEREMOVED_def)
    then show ?thesis using ok T' by (auto simp: store_ok_def db')
  qed
  moreover have "content_of look (?tabs[t := ix]) m' (t', k') = content_of look ?tabs ?m (t', k')" for t' k'
  proof (cases "t' < length ?tabs")
    case True
    show ?thesis
    proof (cases "look (?tabs ! t') k'")
      case (Some p)
      then show ?thesis using True idx' [OF True Some] same tables_range [OF T True Some] by (simp add: content_of_def)
    next
      case None
      then show ?thesis
        using True idx [OF True, of k'] by (auto simp: content_of_def MemNode_new_def LOGICALDELETE_def split: option.splits)
    qed
  qed (simp add: content_of_def)
  then have "content_of look (?tabs[t := ix]) m' = content_of look ?tabs ?m" by auto
  moreover have "assoc (?tabs[t := ix]) m' t k n" using lk t n0 by (simp add: assoc_def)
  ultimately show ?thesis by (simp add: db')
qed

text \<open>The write set of a running transaction at a commit whose checks succeed.\<close>

lemma pools_free_empty: "tls_ok tabs m th \<Longrightarrow> pools_ok (memnodesPool th) \<and> pools_free (memnodesPool th) = {}"
  by (auto simp: tls_ok_def pools_ok_def pools_free_def)

lemma last_write_key:
  assumes T: "tables_ok look inv tabs m" and t: "t < length tabs" and p: "look (tabs ! t) k = Some p"
    and ws: "\<forall>e \<in> set es. kv_tableid e < length tabs \<and> look (tabs ! kv_tableid e) (kv_key e) = Some (kv_node e)"
  shows "last_write p es = map_option kv_val (find (\<lambda>e. kv_tableid e = t \<and> kv_key e = k) (rev es))"
proof -
  have "kv_node e = p \<longleftrightarrow> kv_tableid e = t \<and> kv_key e = k" if "e \<in> set es" for e
  proof
    assume "kv_node e = p"
    then show "kv_tableid e = t \<and> kv_key e = k" using ws that tables_inj [OF T _ t _ p] by auto
  next
    assume "kv_tableid e = t \<and> kv_key e = k"
    then show "kv_node e = p" using ws that p by auto
  qed
  then have "find (\<lambda>e. kv_node e = p) (rev es) = find (\<lambda>e. kv_tableid e = t \<and> kv_key e = k) (rev es)"
    by (intro find_cong) auto
  then show ?thesis by (simp add: last_write_def)
qed

lemma n_writes_le: "n_writes p es \<le> length es"
  by (simp add: n_writes_def)

lemma unat_plus_writes:
  assumes "unat (s :: u64) \<le> W" and "W + length es < 2 ^ 64" 
  shows "unat (s + of_nat (n_writes p es)) = unat s + n_writes p es"
proof -
  have "n_writes p es < 2 ^ 64" "unat s + n_writes p es < 2 ^ 64" using assms n_writes_le [of p es] by linarith+
  then show ?thesis by (simp add: unat_word_ariths unat_of_nat)
qed

text \<open>
  The commit of the writes \<open>es\<close> at snapshot \<open>g\<close>: \<open>m'\<close> is what \<open>WriteSet::Write\<close> makes of \<open>m\<close>, every written
  node is indexed under its key, and no sequence number wraps.
\<close>

definition installs :: "'ix list \<Rightarrow> mem \<Rightarrow> mem \<Rightarrow> u64 \<Rightarrow> WSKV list \<Rightarrow> nat \<Rightarrow> bool" where
  "installs tabs m m' g es W \<longleftrightarrow> tables_ok look inv tabs m \<and> brk m \<le> brk m' \<and> W + length es < 2 ^ 64
     \<and> (\<forall>q < brk m. node_effect g es m m' q)
     \<and> (\<forall>e \<in> set es. kv_tableid e < length tabs \<and> look (tabs ! kv_tableid e) (kv_key e) = Some (kv_node e) \<and> kv_val e \<noteq> HAVEREMOVED)
     \<and> (\<forall>t < length tabs. \<forall>k p. look (tabs ! t) k = Some p \<longrightarrow>
          mn_value (nodes m p) \<noteq> HAVEREMOVED \<and> mn_counter (nodes m p) \<le> g \<and> unat (mn_seq (nodes m p)) \<le> W)"

lemma installs_written:
  assumes "installs tabs m m' g es W" and "n_writes q es \<noteq> 0"
  shows "mn_value (nodes m q) \<noteq> HAVEREMOVED \<and> unat (mn_seq (nodes m q)) \<le> W"
proof -
  obtain e where "e \<in> set es" "kv_node e = q" using assms(2) by (auto simp: n_writes_0)
  with assms(1) show ?thesis by (auto simp: installs_def)
qed

lemma installs_seq:
  assumes i: "installs tabs m m' g es W" and q: "q < brk m"
  shows "unat (mn_seq (nodes m' q)) = unat (mn_seq (nodes m q)) + n_writes q es"
    and "n_writes q es = 0 \<Longrightarrow> nodes m' q = nodes m q"
proof -
  have eff: "node_effect g es m m' q" and b: "W + length es < 2 ^ 64" using i q by (auto simp: installs_def)
  show "n_writes q es = 0 \<Longrightarrow> nodes m' q = nodes m q" using eff by (simp add: node_effect_def)
  show "unat (mn_seq (nodes m' q)) = unat (mn_seq (nodes m q)) + n_writes q es"
    using eff unat_plus_writes [OF _ b] installs_written [OF i]
    by (cases "n_writes q es = 0") (auto simp: node_effect_def)
qed

lemma installs_env:
  assumes i: "installs tabs m m' g es W"
  shows "env tabs m tabs m'"
proof -
  have b: "brk m \<le> brk m'" using i by (simp add: installs_def)
  have "mn_value (nodes m' p) = mn_value (nodes m p)" if "p < brk m" "mn_seq (nodes m' p) = mn_seq (nodes m p)" for p
    using installs_seq [OF i that(1)] that(2) by simp
  moreover have "assoc tabs m' t k p" if "assoc tabs m t k p" for t k p
    using that b installs_seq(2) [OF i, of p] installs_written [OF i, of p]
    by (cases "n_writes p es = 0") (auto simp: assoc_def)
  ultimately show ?thesis using installs_seq(1) [OF i] b by (simp add: env_def)
qed

lemma last_write_mem: "last_write q es = Some v \<Longrightarrow> \<exists>e \<in> set es. kv_node e = q \<and> v = kv_val e"
  by (induction es) (auto simp: last_write_Cons split: option.splits if_splits)

lemma installs_indexed:
  assumes i: "installs tabs m m' g es W" and t: "t < length tabs" and p: "look (tabs ! t) k = Some p"
  shows "mn_value (nodes m' p) \<noteq> HAVEREMOVED \<and> mn_counter (nodes m' p) \<le> g \<and> unat (mn_seq (nodes m' p)) \<le> W + length es"
proof -
  have old: "mn_value (nodes m p) \<noteq> HAVEREMOVED" "mn_counter (nodes m p) \<le> g" "unat (mn_seq (nodes m p)) \<le> W"
    and T: "tables_ok look inv tabs m" using i t p by (auto simp: installs_def)
  have b: "p < brk m" using tables_range [OF T t p] by simp
  then have eff: "node_effect g es m m' p" using i by (simp add: installs_def)
  have "mn_value (nodes m' p) \<noteq> HAVEREMOVED"
    using eff old(1) i last_write_mem [of p es]
    by (auto simp: node_effect_def installs_def split: option.splits)
  moreover have "mn_counter (nodes m' p) \<le> g" using eff old(2) by (simp add: node_effect_def)
  ultimately show ?thesis using installs_seq(1) [OF i b] old(3) n_writes_le [of p es] by linarith
qed

lemma installs_delset:
  assumes i: "installs tabs m m' g es W" and d: "delset_origin es m d"
  shows "rm_ok tabs m' (de_tableid d) (de_key d) (de_node d) (de_seq d)"
proof -
  let ?p = "de_node d"
  obtain e k where e: "e \<in> set es" "de_tableid d = kv_tableid e" "de_key d = kv_key e" "?p = kv_node e"
    and k: "k \<le> n_writes ?p es" "de_seq d = mn_seq (nodes m ?p) + of_nat k"
      "k = n_writes ?p es \<longrightarrow> last_write ?p es = Some LOGICALDELETE"
    using d by (auto simp: delset_origin_def)
  have T: "tables_ok look inv tabs m" and t: "kv_tableid e < length tabs" "look (tabs ! kv_tableid e) (kv_key e) = Some ?p"
    and idx: "unat (mn_seq (nodes m ?p)) \<le> W" and b: "W + length es < 2 ^ 64"
    using i e by (auto simp: installs_def)
  have p: "0 < ?p" "?p < brk m" using tables_range [OF T t] by auto
  then have a: "assoc tabs m (kv_tableid e) (kv_key e) ?p" using t by (simp add: assoc_def)
  have "k < 2 ^ 64" "unat (mn_seq (nodes m ?p)) + k < 2 ^ 64" using k(1) n_writes_le [of ?p es] idx b by linarith+
  then have s: "unat (de_seq d) = unat (mn_seq (nodes m ?p)) + k" by (simp add: k(2) unat_word_ariths unat_of_nat)
  note q = installs_seq(1) [OF i p(2)]
  have "mn_value (nodes m' ?p) = LOGICALDELETE" if "mn_seq (nodes m' ?p) = de_seq d"
  proof -
    have "k = n_writes ?p es" using q s that by simp
    then show ?thesis using k(3) i p(2) by (auto simp: installs_def node_effect_def)
  qed
  then show ?thesis using assoc_env [OF installs_env [OF i] a] q s k(1) e by (simp add: rm_ok_def)
qed

lemma installs_content:
  assumes i: "installs tabs m m' g (ws_entries ws) W"
    and xs: "map (\<lambda>e. (kv_tableid e, kv_key e, kv_val e)) (rev (ws_entries ws)) = wr_list xs"
  shows "content_of look tabs m' = own_writes xs (content_of look tabs m)"
proof -
  let ?es = "ws_entries ws"
  have T: "tables_ok look inv tabs m"
    and es: "\<forall>e \<in> set ?es. kv_tableid e < length tabs \<and> look (tabs ! kv_tableid e) (kv_key e) = Some (kv_node e)"
    using i by (auto simp: installs_def)
  have wl: "wlookup t k xs = map_option kv_val (find (\<lambda>e. kv_tableid e = t \<and> kv_key e = k) (rev ?es))" for t k
    using Lookup_wlookup [OF xs] Lookup_find by metis
  have "content_of look tabs m' (t, k) = own_writes xs (content_of look tabs m) (t, k)" for t k
  proof (cases "t < length tabs \<and> look (tabs ! t) k \<noteq> None")
    case True
    then obtain p where t: "t < length tabs" and p: "look (tabs ! t) k = Some p" by auto
    have "node_effect g ?es m m' p" using i tables_range [OF T t p] by (simp add: installs_def)
    then show ?thesis
      using last_write_key [OF T t p es] t p wl [of t k]
      by (auto simp: content_of_def own_writes_def node_effect_def split: option.splits)
  next
    case False
    have "wlookup t k xs = None"
    proof (rule ccontr)
      assume "wlookup t k xs \<noteq> None"
      then obtain e where "find (\<lambda>e. kv_tableid e = t \<and> kv_key e = k) (rev ?es) = Some e" by (auto simp: wl)
      then have "e \<in> set ?es" "kv_tableid e = t" "kv_key e = k" by (auto dest: find_SomeD)
      then show False using es False by auto
    qed
    with False show ?thesis by (auto simp: content_of_def own_writes_def)
  qed
  then show ?thesis by auto
qed

lemma explains_content:
  assumes rs: "rs_ok m rs" and v: "ReadSet_Validate m rs = Inr NO_CONFLICT" and x: "explains tabs m rs t k r"
  shows "valid_value (content_of look tabs m (t, k)) = r"
proof -
  obtain p e where e: "e \<in> set (rs_entries rs)" "rs_seqptr e = SeqOf p" "assoc tabs m t k p"
      "mn_seq (nodes m p) = rs_seq e \<longrightarrow> mn_value (nodes m p) \<noteq> HAVEREMOVED \<and> valid_value (mn_value (nodes m p)) = r"
    using x by (auto simp: explains_def)
  have "\<forall>e \<in> set (rs_entries rs). rs_label e \<noteq> NO_CONFLICT" using rs by (auto simp: rs_ok_def)
  then have "load m (rs_seqptr e) = Inr (rs_seq e)" using v e(1) by (simp add: Validate_iff)
  then have "mn_seq (nodes m p) = rs_seq e" using e(2) by (simp add: load_def)
  then show ?thesis using e(3,4) by (auto simp: assoc_def content_of_def)
qed

text \<open>What a successful commit is made of.\<close>

lemma commit_installs:
  assumes ok: "store_ok db W" and ws: "ws_ok (db_tables db) (db_mem db) (writeset tx0) xs"
    and tls: "tls_ok (db_tables db) (db_mem db) th0" and d0: "DELSet_wf (deleteset tx0)" "ds_entries (deleteset tx0) = []"
    and c: "Commit_region (db, th0, tx0) = Inr (True, db', th, tx)" and bound: "W + length (ws_entries (writeset tx0)) < 2 ^ 64"
  obtains w m' d ps where "ReadSet_Validate (db_mem db) (readset tx0) = Inr NO_CONFLICT"
    and "db' = db\<lparr>db_mem := m'\<rparr>" and "th = th0\<lparr>memnodesPool := ps\<rparr>" and "tx = tx0\<lparr>writeset := w, deleteset := d\<rparr>"
    and "installs (db_tables db) (db_mem db) m' (db_snapshot db) (ws_entries (writeset tx0)) W"
    and "pools_ok ps" and "pools_free ps = {}" and "length ps = length (db_tables db)" and "WriteSet_wf w" and "DELSet_wf d"
    and "\<forall>x \<in> set (ds_entries d). delset_origin (ws_entries (writeset tx0)) (db_mem db) x"
proof -
  let ?tabs = "db_tables db" and ?m = "db_mem db" and ?g = "db_snapshot db" and ?w = "writeset tx0" and ?es = "ws_entries (writeset tx0)"
  obtain w m' d ps where
    v: "ReadSet_Validate ?m (readset tx0) = Inr NO_CONFLICT" "CheckWriteSet ?m ?w"
    and wr: "WriteSet_Write ?g ?w (?m, deleteset tx0, memnodesPool th0) = Inr (w, m', d, ps)"
    and db': "db' = db\<lparr>db_mem := m'\<rparr>" "th = th0\<lparr>memnodesPool := ps\<rparr>" "tx = tx0\<lparr>writeset := w, deleteset := d\<rparr>"
    using c by (auto simp: Commit_region_def Let_def and_then_eq_Inr split: if_splits)
  obtain es' where st: "map_state (Write_elem ?g) ?es (?m, deleteset tx0, memnodesPool th0) = Inr (es', m', d, ps)"
    and w': "w = ?w\<lparr>ws_kvs := es' @ drop (ws_elems ?w) (ws_kvs ?w)\<rparr>"
    by (rule WriteSet_Write_Inr [OF wr])
  have T: "tables_ok look inv ?tabs ?m"
    and idx: "\<forall>t < length ?tabs. \<forall>k p. look (?tabs ! t) k = Some p \<longrightarrow>
      mn_value (nodes ?m p) \<noteq> HAVEREMOVED \<and> mn_counter (nodes ?m p) \<le> ?g \<and> unat (mn_seq (nodes ?m p)) \<le> W"
    using ok by (auto simp: store_ok_def)
  have le: "kv_tableid e < length ?tabs \<and> look (?tabs ! kv_tableid e) (kv_key e) = Some (kv_node e) \<and> kv_val e \<noteq> HAVEREMOVED"
    if "e \<in> set ?es" for e
    using that ws v(2) by (auto simp: ws_ok_def assoc_def CheckWriteSet_def list_all_iff ws_entries_def)
  have pf: "pools_ok (memnodesPool th0)" "pools_free (memnodesPool th0) = {}" "length (memnodesPool th0) = length ?tabs"
    using pools_free_empty [OF tls] tls by (auto simp: tls_ok_def)
  have "writable ?g ?m (memnodesPool th0) e" if "e \<in> set ?es" for e
    using le [OF that] idx tables_range [OF T, of "kv_tableid e" "kv_key e" "kv_node e"] pf(2,3) by (auto simp: writable_def)
  then have wrt: "\<forall>e \<in> set ?es. writable ?g ?m (memnodesPool th0) e" by blast
  note WL = Write_list_correct [OF pf(1) wrt st]
  have "\<forall>q < brk ?m. node_effect ?g ?es ?m m' q" using WL pf(2) by (auto simp: in_use_def)
  then have I: "installs ?tabs ?m m' ?g ?es W" using T WL bound le idx by (simp add: installs_def)
  have "WriteSet_wf w"
    using ws map_state_length [OF st] by (auto simp: w' ws_ok_def WriteSet_wf_def ws_entries_def)
  then show thesis
    using that [OF v(1) db' I] WL pf Write_list_delset [OF pf(1) wrt d0(1) st] d0(2) by auto
qed

lemma commit_step:
  assumes ok: "store_ok db W" and x: "thread_ok (db_tables db) (db_mem db) x" and pc: "t_pc x = Ready"
    and c: "Commit_region (db, t_tls x, t_tx x) = Inr (True, db', th, tx)"
    and bound: "W + length (ws_entries (writeset (t_tx x))) < 2 ^ 64"
  shows "env (db_tables db) (db_mem db) (db_tables db') (db_mem db')
    \<and> store_ok db' (W + length (ws_entries (writeset (t_tx x))))
    \<and> thread_ok (db_tables db') (db_mem db') (x\<lparr>t_tls := th, t_tx := tx, t_pc := Committed\<rparr>)
    \<and> serial_run (rev (t_ops x)) (content_of look (db_tables db) (db_mem db))
        = Some (content_of look (db_tables db') (db_mem db'))"
proof -
  let ?tabs = "db_tables db" and ?m = "db_mem db" and ?w = "writeset (t_tx x)"
  have r: "rs_ok ?m (readset (t_tx x))" "ws_ok ?tabs ?m ?w (t_ops x)" "tls_ok ?tabs ?m (t_tls x)"
      "ds_entries (deleteset (t_tx x)) = []" "explained (explains ?tabs ?m (readset (t_tx x))) (t_ops x)"
      "DELSet_wf (deleteset (t_tx x))" "buf_ok ?tabs ?m (buffer (t_tx x))" "localinit (t_tx x)"
    using x pc by (auto simp: thread_ok_def running_def)
  obtain w m' d ps where v: "ReadSet_Validate ?m (readset (t_tx x)) = Inr NO_CONFLICT"
    and db': "db' = db\<lparr>db_mem := m'\<rparr>" and th: "th = (t_tls x)\<lparr>memnodesPool := ps\<rparr>"
    and tx: "tx = (t_tx x)\<lparr>writeset := w, deleteset := d\<rparr>"
    and I: "installs ?tabs ?m m' (db_snapshot db) (ws_entries ?w) W"
    and ps: "pools_ok ps" "pools_free ps = {}" "length ps = length ?tabs" and wf: "WriteSet_wf w" "DELSet_wf d"
    and del: "\<forall>x \<in> set (ds_entries d). delset_origin (ws_entries ?w) ?m x"
    by (rule commit_installs [OF ok r(2,3,6,4) c bound])
  note E = installs_env [OF I]
  have "tables_ok look inv ?tabs m'"
    using I inv_mono by (auto simp: installs_def tables_ok_def)
  then have "store_ok db' (W + length (ws_entries ?w))"
    using ok installs_indexed [OF I] by (auto simp: store_ok_def db')
  moreover have "tls_ok ?tabs m' th"
    using tls_ok_env [OF E r(3)] ps by (auto simp: tls_ok_def th pools_ok_def pools_free_def)
  then have "thread_ok ?tabs m' (x\<lparr>t_tls := th, t_tx := tx, t_pc := Committed\<rparr>)"
    using r wf buf_ok_env [OF E r(7)] installs_delset [OF I] del by (auto simp: thread_ok_def running_def tx rs_ok_def)
  moreover have "explained (\<lambda>t k r. valid_value (content_of look ?tabs ?m (t, k)) = r) (t_ops x)"
    by (rule explained_mono [OF r(5)]) (rule explains_content [OF r(1) v])
  then have "serial_run (rev (t_ops x)) (content_of look ?tabs ?m) = Some (content_of look ?tabs m')"
    using serial_run_explained installs_content [OF I, of "t_ops x"] r(2) by (simp add: ws_ok_def)
  ultimately show ?thesis using E by (simp add: db')
qed

subsection \<open>Removal and collection\<close>

lemma remove_step:
  assumes ok: "store_ok db W" and th: "tls_ok (db_tables db) (db_mem db) th"
    and ob: "rm_ok (db_tables db) (db_mem db) (ro_tableid ob) (ro_key ob) (ro_node ob) (ro_seq ob)"
    and st: "RemoveAll_elem getdel ob (th, db_tables db, db_mem db) = Inr (th', tabs, m)" and bound: "W + 1 < 2 ^ 64"
  shows "env (db_tables db) (db_mem db) tabs m \<and> store_ok (db\<lparr>db_tables := tabs, db_mem := m\<rparr>) (W + 1)
    \<and> content_of look tabs m = content_of look (db_tables db) (db_mem db)"
proof -
  let ?p = "ro_node ob" and ?t = "ro_tableid ob" and ?k = "ro_key ob" and ?tabs = "db_tables db" and ?m = "db_mem db"
  let ?m1 = "upd_node ?p (\<lambda>x. x\<lparr>mn_gcRef := mn_gcRef x - 1\<rparr>) ?m"
  obtain r where rem: "RMPool_Remove getdel ob (?tabs, ?m1) = Inr (r, tabs, m)"
    using st by (auto simp: RemoveAll_elem_def Let_def and_then_eq_Inr)
  have T: "tables_ok look inv ?tabs ?m" using ok by (simp add: store_ok_def)
  then have T1: "tables_ok look inv ?tabs ?m1" by (simp add: tables_ok_def)
  have m1: "mn_value (nodes ?m1 q) = mn_value (nodes ?m q)" "mn_seq (nodes ?m1 q) = mn_seq (nodes ?m q)"
      "mn_counter (nodes ?m1 q) = mn_counter (nodes ?m q)" for q by (simp_all add: nodes_upd_node)
  show ?thesis
  proof (cases "mn_seq (nodes ?m1 ?p) = ro_seq ob")
    case False
    then have "tabs = ?tabs" "m = ?m1" using rem by (auto simp: RMPool_Remove_def)
    then show ?thesis
      using ok T1 m1 by (fastforce simp: env_def assoc_def store_ok_def content_of_def fun_eq_iff split: option.splits)
  next
    case True
    then have ld: "mn_value (nodes ?m ?p) = LOGICALDELETE" and t: "?t < length ?tabs"
      and lk: "look (?tabs ! ?t) ?k = Some ?p" using ob m1 by (auto simp: rm_ok_def assoc_def)
    obtain ix where R: "tables_ok look inv tabs m" "brk ?m \<le> brk m"
        "tabs = ?tabs[?t := ix]" "look ix = (look (?tabs ! ?t))(?k := None)"
      and p: "mn_value (nodes m ?p) = HAVEREMOVED" "mn_seq (nodes m ?p) = mn_seq (nodes ?m ?p) + 1"
      and q: "\<And>q. q < brk ?m \<Longrightarrow> q \<noteq> ?p \<Longrightarrow> nodes m q = nodes ?m q"
      using Remove_effect [OF rem True T1 t lk] m1 by (auto simp: nodes_upd_node)
    have look': "look (tabs ! t) k = (if t = ?t \<and> k = ?k then None else look (?tabs ! t) k)" if "t < length ?tabs" for t k
      using that t by (simp add: R(3,4) nth_list_update)
    have other: "t = ?t \<and> k = ?k" if "t < length ?tabs" "look (?tabs ! t) k = Some ?p" for t k
      using tables_inj [OF T that(1) t that(2) lk] .
    have pW: "unat (mn_seq (nodes ?m ?p)) \<le> W" using ok t lk by (auto simp: store_ok_def)
    then have s1: "unat (mn_seq (nodes m ?p)) = unat (mn_seq (nodes ?m ?p)) + 1"
      using bound p(2) by (simp add: unat_word_ariths)
    have "unat (mn_seq (nodes ?m q')) \<le> unat (mn_seq (nodes m q')) \<and>
        (mn_seq (nodes m q') = mn_seq (nodes ?m q') \<longrightarrow> mn_value (nodes m q') = mn_value (nodes ?m q'))" if "q' < brk ?m" for q'
      using q [OF that] s1 p(2) by (cases "q' = ?p") auto
    moreover have "assoc tabs m t k q'" if "assoc ?tabs ?m t k q'" for t k q'
      using that R(2,3) look' p(1) q lk by (cases "q' = ?p") (auto simp: assoc_def)
    ultimately have E: "env ?tabs ?m tabs m" using R(2,3) by (simp add: env_def)
    have idx: "mn_value (nodes m q') \<noteq> HAVEREMOVED \<and> mn_counter (nodes m q') \<le> db_snapshot db \<and> unat (mn_seq (nodes m q')) \<le> W + 1"
      if "t < length ?tabs" "look (tabs ! t) k = Some q'" for t k q'
    proof -
      have l: "look (?tabs ! t) k = Some q'" "q' \<noteq> ?p"
        using that look' other by (auto split: if_splits)
      then have "nodes m q' = nodes ?m q'" using q tables_range [OF T that(1)] by blast
      then show ?thesis using ok that(1) l(1) by (fastforce simp: store_ok_def)
    qed
    then have "store_ok (db\<lparr>db_tables := tabs, db_mem := m\<rparr>) (W + 1)"
      using ok R(1,3) by (auto simp: store_ok_def)
    moreover have "content_of look tabs m (t, k) = content_of look ?tabs ?m (t, k)" for t k
    proof (cases "t < length ?tabs \<and> look (?tabs ! t) k \<noteq> None")
      case True
      then obtain q' where t': "t < length ?tabs" and q': "look (?tabs ! t) k = Some q'" by auto
      show ?thesis
      proof (cases "q' = ?p")
        case True
        then have "t = ?t" "k = ?k" using other t' q' by blast+
        then show ?thesis using t lk ld R(3) look' [OF t] by (simp add: content_of_def)
      next
        case False
        then have "look (tabs ! t) k = Some q'" using look' [OF t'] q' lk by (auto split: if_splits)
        moreover have "nodes m q' = nodes ?m q'" using q False tables_range [OF T t' q'] by blast
        ultimately show ?thesis using t' q' R(3) by (simp add: content_of_def)
      qed
    next
      case False
      then show ?thesis using R(3) look' by (auto simp: content_of_def)
    qed
    ultimately show ?thesis using E by auto
  qed
qed

lemma tls_ok_AddDeletedNode:
  assumes "tls_ok tabs m th"
  shows "tls_ok tabs m (AddDeletedNode t n th)"
proof (cases "t < length tabs")
  case True
  let ?P = "memnodesPool th ! t"
  have "?P \<in> set (memnodesPool th)" using assms True by (simp add: tls_ok_def)
  then have "free_inv ?P" "free_objs ?P = []" using assms(1) by (auto simp: tls_ok_def)
  then have "free_inv (AddGCObj n 0 ?P)" "free_objs (AddGCObj n 0 ?P) = []" using AddGCObj_free [of ?P n 0] by auto
  then show ?thesis
    using assms(1) set_update_subset_insert [of "memnodesPool th" t "AddGCObj n 0 ?P"]
    by (auto simp: tls_ok_def AddDeletedNode_def dest: subsetD)
qed (use assms in \<open>simp add: tls_ok_def AddDeletedNode_def list_update_beyond\<close>)

lemma remove_tls:
  assumes th: "tls_ok tabs m th" and E: "env tabs m tabs' m'" and l: "rmlist (rmPool th) = ob # obs"
    and st: "RemoveAll_elem getdel ob (th, tabs, m) = Inr (th', tabs', m')"
  shows "tls_ok tabs' m' (th'\<lparr>rmPool := (rmPool th')\<lparr>rmlist := obs\<rparr>\<rparr>)"
proof -
  have "th' = th \<or> th' = AddDeletedNode (ro_tableid ob) (ro_node ob) th"
    using st by (auto simp: RemoveAll_elem_def Let_def and_then_eq_Inr)
  then have "tls_ok tabs m th'" "rmlist (rmPool th') = ob # obs"
    using th tls_ok_AddDeletedNode [OF th] l by (auto simp: AddDeletedNode_def)
  moreover from this have "tls_ok tabs' m' th'" using tls_ok_env [OF E] by blast
  ultimately show ?thesis by (auto simp: tls_ok_def)
qed

lemma tls_ok_AddDeletedValue [simp]: "tls_ok tabs m (AddDeletedValue t v sn th) = tls_ok tabs m th"
  by (simp add: tls_ok_def AddDeletedValue_def)

lemma tls_ok_CollectOldVersions: "tls_ok tabs m th \<Longrightarrow> tls_ok tabs m (CollectOldVersions sn m' es th)"
  by (induction es arbitrary: th) (auto simp: Let_def tls_ok_AddDeletedNode)

text \<open>A change of reference counts only.\<close>

definition counts_only :: "mem \<Rightarrow> mem \<Rightarrow> bool" where
  "counts_only m m' \<longleftrightarrow> brk m' = brk m \<and> (\<forall>q. mn_value (nodes m' q) = mn_value (nodes m q)
     \<and> mn_seq (nodes m' q) = mn_seq (nodes m q) \<and> mn_counter (nodes m' q) = mn_counter (nodes m q))"

lemma counts_only_refl [simp]: "counts_only m m"
  by (simp add: counts_only_def)

lemma counts_only_effect:
  assumes "counts_only m m'"
  shows "env tabs m tabs m'" and "content_of look tabs m' = content_of look tabs m"
    and "store_ok (db\<lparr>db_mem := m\<rparr>) W \<Longrightarrow> store_ok (db\<lparr>db_mem := m'\<rparr>) W"
proof -
  show "env tabs m tabs m'" using assms by (auto simp: counts_only_def env_def assoc_def)
  show "content_of look tabs m' = content_of look tabs m"
    using assms by (auto simp: counts_only_def content_of_def fun_eq_iff split: option.splits)
  show "store_ok (db\<lparr>db_mem := m'\<rparr>) W" if "store_ok (db\<lparr>db_mem := m\<rparr>) W"
    using that assms by (simp add: counts_only_def store_ok_def tables_ok_def)
qed

lemma GCRMNodes_step:
  assumes "tls_ok tabs m th" and "\<forall>d \<in> set ds. rm_ok tabs m (de_tableid d) (de_key d) (de_node d) (de_seq d)"
    and "GCRMNodes ds (th, m) = (th', m')"
  shows "tls_ok tabs m' th' \<and> counts_only m m'"
  using assms
proof (induction ds arbitrary: th m)
  case (Cons d ds)
  let ?m = "upd_node (de_node d) (\<lambda>x. x\<lparr>mn_gcRef := mn_gcRef x + 1\<rparr>) m"
  let ?ob = "\<lparr>ro_tableid = de_tableid d, ro_key = de_key d, ro_node = de_node d, ro_seq = de_seq d\<rparr>"
  let ?th = "th\<lparr>rmPool := (rmPool th)\<lparr>rmlist := ?ob # rmlist (rmPool th), rm_elems := rm_elems (rmPool th) + 1\<rparr>\<rparr>"
  have co: "counts_only m ?m" by (simp add: counts_only_def nodes_upd_node)
  note E = counts_only_effect(1) [OF co]
  have run: "GCRMNodes ds (?th, ?m) = (th', m')"
    using Cons.prems(3) by (simp add: AddRemoveNode_def AddRMObj_def Let_def)
  have "tls_ok tabs m ?th" using Cons.prems(1,2) by (simp add: tls_ok_def)
  then have "tls_ok tabs ?m ?th" using tls_ok_env [OF E] by blast
  moreover have "\<forall>d \<in> set ds. rm_ok tabs ?m (de_tableid d) (de_key d) (de_node d) (de_seq d)"
    using Cons.prems(2) rm_ok_env [OF E] by auto
  ultimately have "tls_ok tabs m' th' \<and> counts_only ?m m'" using Cons.IH run by blast
  then show ?case using co by (simp add: counts_only_def)
qed simp

lemma collect_step:
  assumes ok: "store_ok db W" and x: "thread_ok (db_tables db) (db_mem db) x" and pc: "t_pc x = Committed"
    and c: "End_collect (db, t_tls x, t_tx x) = (db', th, tx)"
  shows "env (db_tables db) (db_mem db) (db_tables db') (db_mem db') \<and> store_ok db' W
    \<and> thread_ok (db_tables db') (db_mem db') (x\<lparr>t_tls := th, t_tx := tx, t_pc := Ending\<rparr>)
    \<and> content_of look (db_tables db') (db_mem db') = content_of look (db_tables db) (db_mem db)"
proof -
  let ?th = "CollectOldVersions (ws_commitSN (writeset (t_tx x))) (db_mem db) (ws_entries (writeset (t_tx x))) (t_tls x)"
  obtain m where g: "GCRMNodes (ds_entries (deleteset (t_tx x))) (?th, db_mem db) = (th, m)"
    and db': "db' = db\<lparr>db_mem := m\<rparr>" "tx = t_tx x"
    using c by (auto simp: End_collect_def Let_def split: prod.splits)
  have o: "tls_ok (db_tables db) (db_mem db) (t_tls x)" "localinit (t_tx x)"
    and d: "\<forall>d \<in> set (ds_entries (deleteset (t_tx x))). rm_ok (db_tables db) (db_mem db) (de_tableid d) (de_key d) (de_node d) (de_seq d)"
    using x pc by (auto simp: thread_ok_def)
  have G: "tls_ok (db_tables db) m th" "counts_only (db_mem db) m"
    using GCRMNodes_step [OF tls_ok_CollectOldVersions [OF o(1)] d g] by auto
  note ce = counts_only_effect [OF G(2)]
  have "thread_ok (db_tables db) m (x\<lparr>t_tls := th, t_tx := tx, t_pc := Ending\<rparr>)"
    using thread_ok_env [OF ce(1) x] G(1) o(2) by (simp add: thread_ok_def running_def db')
  then show ?thesis using ce(1,2) ce(3) [of db] ok by (simp add: db')
qed

end

end
