(* ===== verification/Tx_Serial.thy ===== *)
theory Tx_Serial
  imports Tx_Effects
begin

text \<open>
  Serializability: every step of the system of theory \<open>Tx_System\<close> keeps the invariants, and the
  committed transactions, run one after the other in the order of their commits, give every read the
  answer it got and end in the content of the tables.
\<close>

section \<open>Every step\<close>

context memstore
begin

text \<open>What is shown of a step: it is one of \<open>env\<close> for the others, and the transactions it commits are serial.\<close>

definition good :: "'ix DBTables \<Rightarrow> nat \<Rightarrow> 'ix DBTables \<Rightarrow> thread \<Rightarrow> txop list list \<Rightarrow> nat \<Rightarrow> bool" where
  "good db W db' x' l w \<longleftrightarrow> env (db_tables db) (db_mem db) (db_tables db') (db_mem db') \<and> store_ok db' (W + w)
     \<and> thread_ok (db_tables db') (db_mem db') x'
     \<and> serial_txs l (content_of look (db_tables db) (db_mem db)) = Some (content_of look (db_tables db') (db_mem db'))"

lemma good_local:
  assumes "store_ok db W" and "db_tables db' = db_tables db" and "db_mem db' = db_mem db" and "db_number db' = db_number db"
    and "db_snapshot db' = db_snapshot db" and "thread_ok (db_tables db) (db_mem db) x'"
  shows "good db W db' x' [] 0"
  using assms by (simp add: good_def serial_txs_def store_ok_def)

lemma begin_step:
  assumes ok: "store_ok db W" and x: "thread_ok (db_tables db) (db_mem db) x"
    and b: "DBTX_Begin (db, t_tls x, t_tx x) = (db', th, tx)"
  shows "good db W db' (x\<lparr>t_tls := th, t_tx := tx, t_pc := Ready, t_ops := []\<rparr>) [] 0"
proof (rule good_local [OF ok])
  let ?tx = "DBTX_ThreadLocalInit (db_number db) (t_tx x)"
  have tx: "tx = TX_resets ?tx" "th = t_tls x" and db': "db' = db\<lparr>db_rcu := RCU_BeginTX (tl_tid th) (db_rcu db)\<rparr>"
    using b by (auto simp: DBTX_Begin_def)
  show "db_tables db' = db_tables db" "db_mem db' = db_mem db" "db_number db' = db_number db" "db_snapshot db' = db_snapshot db"
    by (simp_all add: db')
  have n: "db_number db = length (db_tables db)" using ok by (simp add: store_ok_def)
  have "localinit ?tx \<and> ReadSet_wf (readset ?tx) \<and> WriteSet_wf (writeset ?tx) \<and> DELSet_wf (deleteset ?tx)
      \<and> buf_ok (db_tables db) (db_mem db) (buffer ?tx)"
    using x ReadSet_wf_new WriteSet_wf_new DELSet_wf_new n
    by (auto simp: thread_ok_def DBTX_ThreadLocalInit_def buf_ok_def BufferNode_new_def)
  then show "thread_ok (db_tables db) (db_mem db) (x\<lparr>t_tls := th, t_tx := tx, t_pc := Ready, t_ops := []\<rparr>)"
    using x ReadSet_Reset_correct WriteSet_Reset_correct DELSet_Reset_correct
    by (auto simp: thread_ok_def tx TX_resets_def rs_ok_def ws_ok_def running_def)
qed

lemma abort_step:
  assumes ok: "store_ok db W" and x: "thread_ok (db_tables db) (db_mem db) x"
    and b: "DBTX_Abort (db, t_tls x, t_tx x) = (r, db', th, tx)"
  shows "good db W db' (x\<lparr>t_tls := th, t_tx := tx, t_pc := Idle\<rparr>) [] 0"
  using b x ReadSet_Reset_correct WriteSet_Reset_correct DELSet_Reset_correct
  by (intro good_local [OF ok]) (auto simp: DBTX_Abort_def thread_ok_def TX_resets_def running_def)

lemma Get_seq_step:
  assumes x: "thread_ok tabs m x" and pc: "t_pc x = GotNode t k l n" and g: "Get_seq n l m (t_tx x) = Inr (Some tx)"
  shows "thread_ok tabs m (x\<lparr>t_tx := tx, t_pc := GotSeq t k n\<rparr>)"
proof -
  let ?rs = "readset (t_tx x)"
  have r: "rs_ok m ?rs" "assoc tabs m t k n" "l \<noteq> NO_CONFLICT" "explained (explains tabs m ?rs) (t_ops x)"
    using x pc by (auto simp: thread_ok_def running_def)
  obtain rs' where a: "ReadSet_Add (SeqOf n) l m ?rs = Inr rs'" "ReadSet_wf rs'"
    "rs_entries rs' = rs_entries ?rs @ [\<lparr>rs_seq = mn_seq (nodes m n), rs_seqptr = SeqOf n, rs_label = l\<rparr>]" "rs_links rs' = rs_links ?rs"
    using ReadSet_Add_correct [of ?rs m "SeqOf n" "mn_seq (nodes m n)" l] r(1) by (auto simp: rs_ok_def load_def)
  have v: "mn_value (nodes m n) \<noteq> HAVEREMOVED" and tx: "tx = (t_tx x)\<lparr>readset := rs'\<rparr>"
    using g a(1) by (auto simp: Get_seq_def split: if_splits)
  have "rs_ok m rs'" using r(1,2,3) a(2-4) by (auto simp: rs_ok_def assoc_def)
  moreover have "explained (explains tabs m rs') (t_ops x)"
    by (rule explained_mono [OF r(4)]) (auto simp: explains_def a(3))
  ultimately show ?thesis
    using x pc v a(2,3) r(2) by (auto simp: thread_ok_def running_def tx)
qed

lemma read_result_value: "read_result (Get_value n m) = valid_value (mn_value (nodes m n))"
  by (simp add: read_result_def Get_value_def valid_value_def)

lemma Get_value_step:
  assumes x: "thread_ok tabs m x" and pc: "t_pc x = GotSeq t k n"
  shows "thread_ok tabs m (x\<lparr>t_pc := Ready, t_ops := RdOp t k (read_result (Get_value n m)) # t_ops x\<rparr>)"
proof -
  have "assoc tabs m t k n" "wlookup t k (t_ops x) = None"
    and "\<exists>e \<in> set (rs_entries (readset (t_tx x))). rs_seqptr e = SeqOf n \<and> (mn_seq (nodes m n) = rs_seq e \<longrightarrow> mn_value (nodes m n) \<noteq> HAVEREMOVED)"
    using x pc by (auto simp: thread_ok_def running_def)
  then show ?thesis
    using x pc by (auto simp: thread_ok_def running_def ws_ok_def explains_def read_result_value)
qed

lemma Get_own_step:
  assumes x: "thread_ok tabs m x" and pc: "t_pc x = Ready" and v: "WriteSet_Lookup t k (writeset (t_tx x)) = Some v"
  shows "thread_ok tabs m (x\<lparr>t_ops := RdOp t k (read_result (v \<noteq> LOGICALDELETE, v)) # t_ops x\<rparr>)"
proof -
  have ws: "ws_ok tabs m (writeset (t_tx x)) (t_ops x)" using x pc by (simp add: thread_ok_def running_def)
  then have "wlookup t k (t_ops x) = Some v"
    using v Lookup_wlookup [of "writeset (t_tx x)" "t_ops x" t k] by (simp add: ws_ok_def)
  moreover have "v \<noteq> HAVEREMOVED"
    using ws v by (auto simp: ws_ok_def Lookup_find dest: find_SomeD)
  ultimately show ?thesis
    using x pc by (auto simp: thread_ok_def running_def ws_ok_def read_result_def valid_value_def ValidateValue_def)
qed

lemma Add_hit_step:
  assumes x: "thread_ok tabs m x" and pc: "t_pc x = Adding t k v r" and h: "Buffer_hit t k m (t_tx x) = Inr (Some n)"
  shows "thread_ok tabs m (x\<lparr>t_pc := AddGot t k v r n\<rparr>)"
proof -
  have "t < length tabs" "buf_ok tabs m (buffer (t_tx x))" using x pc by (auto simp: thread_ok_def running_def)
  then have "assoc tabs m t k n" using h by (auto simp: Buffer_hit_def buf_ok_def Let_def split: if_splits)
  then show ?thesis using x pc by (simp add: thread_ok_def running_def)
qed

lemma Add_done_step:
  assumes x: "thread_ok tabs m x" and pc: "t_pc x = AddGot t k v r n"
  shows "thread_ok tabs m (x\<lparr>t_tx := (t_tx x)\<lparr>writeset := WriteSet_Add t k v n (writeset (t_tx x))\<rparr>, t_pc := Ready,
    t_ops := WrOp t k v # t_ops x\<rparr>)"
proof -
  have ws: "ws_ok tabs m (writeset (t_tx x)) (t_ops x)" "assoc tabs m t k n" "v \<noteq> HAVEREMOVED"
    using x pc by (auto simp: thread_ok_def running_def)
  have wf: "WriteSet_wf (writeset (t_tx x))" using ws(1) by (simp add: ws_ok_def)
  obtain e where "WriteSet_wf (WriteSet_Add t k v n (writeset (t_tx x)))"
      "ws_entries (WriteSet_Add t k v n (writeset (t_tx x))) = ws_entries (writeset (t_tx x)) @ [e]"
      "kv_tableid e = t" "kv_key e = k" "kv_val e = v" "kv_node e = n"
    by (rule WriteSet_Add_correct [OF wf, of t k v n])
  then show ?thesis using x pc ws by (auto simp: thread_ok_def running_def ws_ok_def)
qed

lemma buf_ok_set:
  "buf_ok tabs m bs \<Longrightarrow> assoc tabs m t k n \<Longrightarrow> buf_ok tabs m (bs[t := \<lparr>bn_key = k, bn_node = n\<rparr>])"
  by (auto simp: buf_ok_def nth_list_update assoc_def)

text \<open>An index call of a thread that is about to hold the node.\<close>

lemma index_step:
  assumes ok: "store_ok db W" and x: "thread_ok (db_tables db) (db_mem db) x" and run: "running (t_pc x)"
    and t: "t < length (db_tables db)" and g: "Index_GetWithInsert getins t k db = (n, db')"
    and c: "running c" and pc: "assoc (db_tables db') (db_mem db') t k n \<Longrightarrow> pc_ok (db_tables db') (db_mem db') (readset (t_tx x)) (t_ops x) c"
  shows "good db W db' (x\<lparr>t_tx := (if r then Buffer_set t k n (t_tx x) else t_tx x), t_pc := c\<rparr>) [] 0"
proof -
  have G: "env (db_tables db) (db_mem db) (db_tables db') (db_mem db')" "store_ok db' W" "assoc (db_tables db') (db_mem db') t k n"
      "content_of look (db_tables db') (db_mem db') = content_of look (db_tables db) (db_mem db)"
    using getins_step [OF ok t g] by auto
  then show ?thesis
    using thread_ok_env [OF G(1) x] run c pc [OF G(3)] buf_ok_set [OF _ G(3)]
    by (auto simp: good_def serial_txs_def thread_ok_def Buffer_set_def running_def)
qed

lemma commit_good:
  assumes "store_ok db W" and "thread_ok (db_tables db) (db_mem db) x" and "t_pc x = Ready"
    and "Commit_region (db, t_tls x, t_tx x) = Inr (True, db', th, tx)" and "W + length (ws_entries (writeset (t_tx x))) < 2 ^ 64"
  shows "good db W db' (x\<lparr>t_tls := th, t_tx := tx, t_pc := Committed\<rparr>) [rev (t_ops x)] (length (ws_entries (writeset (t_tx x))))"
  using commit_step [OF assms] by (simp add: good_def serial_txs_def)

lemma collect_good:
  assumes "store_ok db W" and "thread_ok (db_tables db) (db_mem db) x" and "t_pc x = Committed"
    and "End_collect (db, t_tls x, t_tx x) = (db', th, tx)"
  shows "good db W db' (x\<lparr>t_tls := th, t_tx := tx, t_pc := Ending\<rparr>) [] 0"
  using collect_step [OF assms] by (simp add: good_def serial_txs_def)

lemma remove_good:
  assumes ok: "store_ok db W" and x: "thread_ok (db_tables db) (db_mem db) x" and pc: "t_pc x = Idle"
    and l: "rmlist (rmPool (t_tls x)) = ob # obs" and bound: "W + 1 < 2 ^ 64"
    and r: "RemoveAll_elem getdel ob (t_tls x, db_tables db, db_mem db) = Inr (th, tabs, m)"
  shows "good db W (db\<lparr>db_tables := tabs, db_mem := m\<rparr>) (x\<lparr>t_tls := th\<lparr>rmPool := (rmPool th)\<lparr>rmlist := obs\<rparr>\<rparr>\<rparr>) [] 1"
proof -
  have th: "tls_ok (db_tables db) (db_mem db) (t_tls x)" using x by (simp add: thread_ok_def)
  then have ob: "rm_ok (db_tables db) (db_mem db) (ro_tableid ob) (ro_key ob) (ro_node ob) (ro_seq ob)"
    using l by (simp add: tls_ok_def)
  have R: "env (db_tables db) (db_mem db) tabs m" "store_ok (db\<lparr>db_tables := tabs, db_mem := m\<rparr>) (W + 1)"
      "content_of look tabs m = content_of look (db_tables db) (db_mem db)"
    using remove_step [OF ok th ob r bound] by auto
  have "thread_ok tabs m (x\<lparr>t_tls := th\<lparr>rmPool := (rmPool th)\<lparr>rmlist := obs\<rparr>\<rparr>\<rparr>)"
    using thread_ok_env [OF R(1) x] remove_tls [OF th R(1) l r] pc by (simp add: thread_ok_def running_def)
  then show ?thesis using R by (simp add: good_def serial_txs_def)
qed

lemma snapshot_good:
  assumes ok: "store_ok db W" and x: "thread_ok (db_tables db) (db_mem db) x" and bound: "W + 1 < 2 ^ 64 - 1"
  shows "good db W (db\<lparr>db_snapshot := db_snapshot db + 1\<rparr>) x [] 1"
proof -
  have "unat (db_snapshot db) \<le> W + 1" using ok by (simp add: store_ok_def)
  then have "unat (db_snapshot db) + 1 < 2 ^ 64" using bound by linarith
  then have s: "unat (db_snapshot db + 1) = unat (db_snapshot db) + 1" by (simp add: unat_word_ariths)
  have "c \<le> db_snapshot db \<Longrightarrow> c \<le> db_snapshot db + 1" for c
    unfolding word_le_nat_alt s by simp
  then show ?thesis using ok x s by (fastforce simp: good_def serial_txs_def store_ok_def)
qed

lemma thread_step_good:
  assumes st: "thread_step getins getdel db x db' x' l w" and ok: "store_ok db W"
    and x: "thread_ok (db_tables db) (db_mem db) x" and bound: "W + w < 2 ^ 64 - 1"
  shows "good db W db' x' l w"
  using st
proof cases
  case (step_Begin th tx)
  then show ?thesis using begin_step [OF ok x] by simp
next
  case (step_Get_own t k v)
  then show ?thesis using Get_own_step [OF x] by (simp add: good_local [OF ok])
next
  case (step_Get t lab k)
  have "ws_ok (db_tables db) (db_mem db) (writeset (t_tx x)) (t_ops x)" using x step_Get by (simp add: thread_ok_def running_def)
  then have "wlookup t k (t_ops x) = None"
    using step_Get Lookup_wlookup [of "writeset (t_tx x)" "t_ops x" t k] by (simp add: ws_ok_def)
  then have "thread_ok (db_tables db) (db_mem db) x'"
    using x step_Get by (simp add: thread_ok_def running_def)
  then show ?thesis using step_Get by (simp add: good_local [OF ok])
next
  case (step_Get_index t k lab n tx)
  have pc: "t < length (db_tables db)" "lab \<noteq> NO_CONFLICT" "wlookup t k (t_ops x) = None"
    using x step_Get_index by (auto simp: thread_ok_def running_def)
  have i: "Index_GetWithInsert getins t k db = (n, db')" and tx: "tx = (if n \<noteq> NULLP then Buffer_set t k n (t_tx x) else t_tx x)"
    using step_Get_index by (auto simp: Get_index_def split: prod.splits)
  show ?thesis
    using index_step [OF ok x _ pc(1) i, of "GotNode t k lab n" "n \<noteq> NULLP"] step_Get_index pc
    by (simp add: running_def tx)
next
  case (step_Get_seq t k lab n tx)
  then show ?thesis using Get_seq_step [OF x] by (simp add: good_local [OF ok])
next
  case (step_Get_retry t k lab n)
  have "thread_ok (db_tables db) (db_mem db) x'"
    using x step_Get_retry by (simp add: thread_ok_def running_def assoc_def)
  then show ?thesis using step_Get_retry by (simp add: good_local [OF ok])
next
  case (step_Get_value t k n)
  then show ?thesis using Get_value_step [OF x] by (simp add: good_local [OF ok])
next
  case (step_Add t v k r)
  have "thread_ok (db_tables db) (db_mem db) x'" using x step_Add by (simp add: thread_ok_def running_def)
  then show ?thesis using step_Add by (simp add: good_local [OF ok])
next
  case (step_Add_hit t k v r n)
  then show ?thesis using Add_hit_step [OF x] by (simp add: good_local [OF ok])
next
  case (step_Add_miss t k v r)
  have "thread_ok (db_tables db) (db_mem db) x'" using x step_Add_miss by (simp add: thread_ok_def running_def)
  then show ?thesis using step_Add_miss by (simp add: good_local [OF ok])
next
  case (step_Add_index t k v r n)
  have pc: "t < length (db_tables db)" "v \<noteq> HAVEREMOVED"
    using x step_Add_index by (auto simp: thread_ok_def running_def)
  show ?thesis
    using index_step [OF ok x _ pc(1) step_Add_index(5), of "AddGot t k v r n" r] step_Add_index pc
    by (simp add: running_def)
next
  case (step_Add_retry t k v r n)
  have "thread_ok (db_tables db) (db_mem db) x'"
    using x step_Add_retry by (simp add: thread_ok_def running_def assoc_def)
  then show ?thesis using step_Add_retry by (simp add: good_local [OF ok])
next
  case (step_Add_done t k v r n)
  then show ?thesis using Add_done_step [OF x] by (simp add: good_local [OF ok])
next
  case (step_Commit th tx)
  then show ?thesis using commit_good [OF ok x] bound by simp
next
  case (step_Fail s)
  have "thread_ok (db_tables db) (db_mem db) x'" using x step_Fail by (simp add: thread_ok_def running_def)
  then show ?thesis using step_Fail by (simp add: good_local [OF ok])
next
  case (step_Abort b th tx)
  then show ?thesis using abort_step [OF ok x] by simp
next
  case (step_Collect th tx)
  then show ?thesis using collect_good [OF ok x] by simp
next
  case step_End
  have "thread_ok (db_tables db) (db_mem db) x'" using x step_End by (simp add: thread_ok_def running_def)
  then show ?thesis using step_End by (simp add: good_local [OF ok])
next
  case (step_Remove ob obs th tabs m)
  then show ?thesis using remove_good [OF ok x] bound by simp
next
  case step_RO_Begin
  then show ?thesis using snapshot_good [OF ok x] bound by simp
qed

subsection \<open>Executions\<close>

definition sys_ok :: "content \<Rightarrow> 'ix sys \<Rightarrow> bool" where
  "sys_ok S s \<longleftrightarrow> store_ok (s_db s) (s_work s)
     \<and> (\<forall>i. thread_ok (db_tables (s_db s)) (db_mem (s_db s)) (s_thr s i))
     \<and> serial_txs (s_log s) S = Some (content_of look (db_tables (s_db s)) (db_mem (s_db s)))"

lemma serial_txs_append:
  "serial_txs (l @ l') S = (case serial_txs l S of None \<Rightarrow> None | Some S' \<Rightarrow> serial_txs l' S')"
  by (simp add: serial_txs_def serial_run_append split: option.splits)

lemma sys_ok_step:
  assumes ok: "sys_ok S s" and st: "thread_step getins getdel (s_db s) (s_thr s i) db' x' l w"
    and bound: "s_work s + w < 2 ^ 64 - 1"
  shows "sys_ok S \<lparr>s_db = db', s_thr = (s_thr s)(i := x'), s_log = s_log s @ l, s_work = s_work s + w\<rparr>"
proof -
  have "good (s_db s) (s_work s) db' x' l w"
    using thread_step_good [OF st _ _ bound] ok by (simp add: sys_ok_def)
  then have G: "env (db_tables (s_db s)) (db_mem (s_db s)) (db_tables db') (db_mem db')" "store_ok db' (s_work s + w)"
      "thread_ok (db_tables db') (db_mem db') x'"
      "serial_txs l (content_of look (db_tables (s_db s)) (db_mem (s_db s))) = Some (content_of look (db_tables db') (db_mem db'))"
    by (simp_all add: good_def)
  have "thread_ok (db_tables db') (db_mem db') (((s_thr s)(i := x')) j)" for j
    using G(3) thread_ok_env [OF G(1)] ok by (simp add: sys_ok_def)
  then show ?thesis using ok G by (simp add: sys_ok_def serial_txs_append)
qed

lemma reach_sys_ok:
  assumes "reach getins getdel s0 s" and "sys_ok S s0" and "s_work s < 2 ^ 64 - 1"
  shows "sys_ok S s"
  using assms
proof (induction rule: reach.induct)
  case (reach_step s i db' x' l w)
  then show ?case by (intro sys_ok_step) auto
qed

lemma OBJPool_new_free: "free_inv (OBJPool_new :: nptr OBJPool)" "free_objs (OBJPool_new :: nptr OBJPool) = []"
  using pool_inv_free_inv [OF pool_inv_new] by (auto simp: OBJPool_new_def free_objs_def)

lemma sys_ok_init:
  assumes "store_ok db 0"
  shows "sys_ok (content_of look (db_tables db) (db_mem db)) (sys_init db)"
proof -
  have "tls_ok (db_tables db) (db_mem db) (DBTables_ThreadLocalInit i db)" for i
    using assms OBJPool_new_free by (simp add: tls_ok_def DBTables_ThreadLocalInit_def RMPool_new_def store_ok_def)
  then show ?thesis
    using assms by (simp add: sys_ok_def sys_init_def thread_ok_def TX_new_def running_def serial_txs_def)
qed

end

section \<open>Serializability\<close>


lemma reach_thread:
  assumes "reach getins getdel s0 s" and "s_db s = db" and "s_thr s i = x" and "thread_step getins getdel db x db' x' l w"
  obtains s' where "reach getins getdel s0 s'" and "s_db s' = db'" and "s_thr s' i = x'"
    and "s_log s' = s_log s @ l" and "s_work s' = s_work s + w"
  using reach_step [OF assms(1), of i db' x' l w] assms by (intro that) auto

definition ex_db :: "list_index DBTables" where
  "ex_db = DBTables_new 1 1 [] \<lparr>nodes = (\<lambda>_. MemNode_new), brk = 1, words = (\<lambda>_. 0)\<rparr>"

text \<open>A transaction of thread 0 that inserts key 7 and commits.\<close>

lemma ex_commit_region:
  assumes "db_mem db = \<lparr>nodes = (\<lambda>_. MemNode_new), brk = 2, words = (\<lambda>_. 0)\<rparr>" and "db_snapshot db = 1"
    and "rs_entries (readset tx) = []" and "rs_links (readset tx) = []"
    and "ws_entries (writeset tx) = [e]" and "kv_val e = 5" and "kv_node e = 1"
  shows "\<exists>db' th' tx'. Commit_region (db, th, tx) = Inr (True, db', th', tx')"
proof -
  have "ReadSet_Validate (db_mem db) (readset tx) = Inr NO_CONFLICT"
    using assms(3,4) by (simp add: ReadSet_Validate_def flip: rs_entries_def rs_links_def)
  moreover have "CheckWriteSet (db_mem db) (writeset tx)"
    using assms by (simp add: CheckWriteSet_def MemNode_new_def HAVEREMOVED_def flip: ws_entries_def)
  moreover obtain r where "WriteSet_Write (db_snapshot db) (writeset tx) (db_mem db, deleteset tx, memnodesPool th) = Inr r"
    using assms by (simp add: WriteSet_Write_def Write_elem_def MemNode_new_def LOGICALDELETE_def Let_def)
  ultimately show ?thesis by (cases r) (simp add: Commit_region_def)
qed

lemma ex_commit_reached:
  "\<exists>s. reach li_getins li_getdel (sys_init ex_db) s \<and> s_log s = [[WrOp 0 7 5]] \<and> s_work s = 1"
proof -
  let ?th = "DBTables_ThreadLocalInit 0 ex_db" and ?tx = "TX_resets (DBTX_ThreadLocalInit 1 TX_new)"
  let ?db = "ex_db\<lparr>db_rcu := RCU_BeginTX (tl_tid ?th) (db_rcu ex_db)\<rparr>"
  let ?db' = "?db\<lparr>db_tables := [[(7, 1)]], db_mem := \<lparr>nodes = (\<lambda>_. MemNode_new), brk = 2, words = (\<lambda>_. 0)\<rparr>\<rparr>"
  have wf: "WriteSet_wf (writeset ?tx)" and w0: "ws_entries (writeset ?tx) = []"
    and rs: "rs_entries (readset ?tx) = []" "rs_links (readset ?tx) = []"
    using WriteSet_Reset_correct [of WriteSet_new] WriteSet_wf_new ReadSet_Reset_correct [of ReadSet_new] ReadSet_wf_new
    by (auto simp: TX_resets_def DBTX_ThreadLocalInit_def TX_new_def)
  obtain e where e: "ws_entries (WriteSet_Add 0 7 5 1 (writeset ?tx)) = [e]" "kv_val e = 5" "kv_node e = 1"
    using WriteSet_Add_correct [OF wf, of 0 7 5 1] w0 by auto
  have gi: "Index_GetWithInsert li_getins 0 7 ?db = (1, ?db')"
    by (auto simp: Index_GetWithInsert_def li_getins_def GetMemNode_def ex_db_def DBTables_new_def fun_eq_iff)
  have s0: "reach li_getins li_getdel (sys_init ex_db) (sys_init ex_db)" "s_db (sys_init ex_db) = ex_db"
      "s_thr (sys_init ex_db) 0 = \<lparr>t_tls = ?th, t_tx = TX_new, t_pc = Idle, t_ops = []\<rparr>"
    by (auto simp: sys_init_def intro: reach_refl)
  obtain s1 where s1: "reach li_getins li_getdel (sys_init ex_db) s1" "s_db s1 = ?db"
      "s_thr s1 0 = \<lparr>t_tls = ?th, t_tx = ?tx, t_pc = Ready, t_ops = []\<rparr>" "s_log s1 = []" "s_work s1 = 0"
    by (rule reach_thread [OF s0 step_Begin [where db' = ?db and th = ?th and tx = ?tx]])
       (simp_all add: sys_init_def DBTX_Begin_def ex_db_def DBTables_new_def)
  obtain s2 where s2: "reach li_getins li_getdel (sys_init ex_db) s2" "s_db s2 = ?db"
      "s_thr s2 0 = \<lparr>t_tls = ?th, t_tx = ?tx, t_pc = Adding 0 7 5 False, t_ops = []\<rparr>" "s_log s2 = []" "s_work s2 = 0"
    by (rule reach_thread [OF s1(1-3) step_Add [where t = 0 and v = 5 and k = 7 and r = False]])
       (simp_all add: s1 ex_db_def DBTables_new_def HAVEREMOVED_def)
  obtain s3 where s3: "reach li_getins li_getdel (sys_init ex_db) s3" "s_db s3 = ?db"
      "s_thr s3 0 = \<lparr>t_tls = ?th, t_tx = ?tx, t_pc = AddIndex 0 7 5 False, t_ops = []\<rparr>" "s_log s3 = []" "s_work s3 = 0"
    by (rule reach_thread [OF s2(1-3) step_Add_miss [where t = 0 and v = 5 and k = 7 and r = False]])
       (simp_all add: s2 Buffer_hit_def TX_resets_def DBTX_ThreadLocalInit_def TX_new_def BufferNode_new_def Let_def)
  obtain s4 where s4: "reach li_getins li_getdel (sys_init ex_db) s4" "s_db s4 = ?db'"
      "s_thr s4 0 = \<lparr>t_tls = ?th, t_tx = ?tx, t_pc = AddGot 0 7 5 False 1, t_ops = []\<rparr>" "s_log s4 = []" "s_work s4 = 0"
    by (rule reach_thread [OF s3(1-3) step_Add_index [where t = 0 and v = 5 and k = 7 and r = False and n = 1 and db' = ?db']])
       (use gi s3 in simp_all)
  let ?tx5 = "?tx\<lparr>writeset := WriteSet_Add 0 7 5 1 (writeset ?tx)\<rparr>"
  obtain s5 where s5: "reach li_getins li_getdel (sys_init ex_db) s5" "s_db s5 = ?db'"
      "s_thr s5 0 = \<lparr>t_tls = ?th, t_tx = ?tx5, t_pc = Ready, t_ops = [WrOp 0 7 5]\<rparr>" "s_log s5 = []" "s_work s5 = 0"
    by (rule reach_thread [OF s4(1-3) step_Add_done [where t = 0 and v = 5 and k = 7 and r = False and n = 1]])
       (simp_all add: s4 MemNode_new_def HAVEREMOVED_def)
  obtain db6 th6 tx6 where c: "Commit_region (?db', ?th, ?tx5) = Inr (True, db6, th6, tx6)"
    using ex_commit_region [of ?db' ?tx5 e ?th] rs e by (auto simp: ex_db_def DBTables_new_def)
  have ab: "\<not> tx_abort ?tx5" by (simp add: TX_resets_def DBTX_ThreadLocalInit_def TX_new_def)
  obtain s6 where "reach li_getins li_getdel (sys_init ex_db) s6" "s_log s6 = [[WrOp 0 7 5]]" "s_work s6 = 1"
    by (rule reach_thread [OF s5(1-3) step_Commit [where db' = db6 and th = th6 and tx = tx6]])
       (use ab c e(1) s5(4,5) in simp_all)
  then show ?thesis by blast
qed


end
