(* ===== verification/Coding.thy ===== *)
theory Coding
  imports Prelude
begin

text \<open>
  \<^verbatim>\<open>util/coding.h\<close> and \<^verbatim>\<open>util/coding.cc\<close>: the byte formats that every file and record of the LevelDB part is
  made of. A \<^verbatim>\<open>std::string\<close> or \<^verbatim>\<open>Slice\<close> is a list of bytes; an encoder that writes through a pointer returns
  the bytes it writes, a decoder gives the value with the bytes that remain. Both branches of the
  endianness test produce the same bytes, so there is one definition for them.
\<close>

type_synonym u8 = "8 word"
type_synonym bytes = "u8 list"

section \<open>Fixed width\<close>

definition EncodeFixed32 :: "u32 \<Rightarrow> bytes" where
  "EncodeFixed32 v = [ucast (v AND 0xff), ucast (drop_bit 8 v AND 0xff),
     ucast (drop_bit 16 v AND 0xff), ucast (drop_bit 24 v AND 0xff)]"

definition EncodeFixed64 :: "u64 \<Rightarrow> bytes" where
  "EncodeFixed64 v = [ucast (v AND 0xff), ucast (drop_bit 8 v AND 0xff),
     ucast (drop_bit 16 v AND 0xff), ucast (drop_bit 24 v AND 0xff),
     ucast (drop_bit 32 v AND 0xff), ucast (drop_bit 40 v AND 0xff),
     ucast (drop_bit 48 v AND 0xff), ucast (drop_bit 56 v AND 0xff)]"

definition PutFixed32 :: "bytes \<Rightarrow> u32 \<Rightarrow> bytes" where
  "PutFixed32 dst v = dst @ EncodeFixed32 v"

definition PutFixed64 :: "bytes \<Rightarrow> u64 \<Rightarrow> bytes" where
  "PutFixed64 dst v = dst @ EncodeFixed64 v"

text \<open>Reading from a pointer; None when that would read past the end of the bytes.\<close>

fun DecodeFixed32 :: "bytes \<Rightarrow> u32 option" where
  "DecodeFixed32 (b0 # b1 # b2 # b3 # p) =
     Some (ucast b0 OR push_bit 8 (ucast b1) OR push_bit 16 (ucast b2) OR push_bit 24 (ucast b3))"
| "DecodeFixed32 p = None"

definition DecodeFixed64 :: "bytes \<Rightarrow> u64 option" where
  "DecodeFixed64 p =
     (case DecodeFixed32 p of None \<Rightarrow> None
      | Some lo \<Rightarrow> (case DecodeFixed32 (drop 4 p) of None \<Rightarrow> None
                   | Some hi \<Rightarrow> Some (push_bit 32 (ucast hi) OR ucast lo)))"

section \<open>Variable width\<close>

definition EncodeVarint32 :: "u32 \<Rightarrow> bytes" where
  "EncodeVarint32 v =
     (if v < 2 ^ 7 then [ucast v]
      else if v < 2 ^ 14 then [ucast (v OR 128), ucast (drop_bit 7 v)]
      else if v < 2 ^ 21 then [ucast (v OR 128), ucast (drop_bit 7 v OR 128), ucast (drop_bit 14 v)]
      else if v < 2 ^ 28 then [ucast (v OR 128), ucast (drop_bit 7 v OR 128), ucast (drop_bit 14 v OR 128),
                               ucast (drop_bit 21 v)]
      else [ucast (v OR 128), ucast (drop_bit 7 v OR 128), ucast (drop_bit 14 v OR 128),
            ucast (drop_bit 21 v OR 128), ucast (drop_bit 28 v)])"

definition PutVarint32 :: "bytes \<Rightarrow> u32 \<Rightarrow> bytes" where
  "PutVarint32 dst v = dst @ EncodeVarint32 v"

lemma unat_drop_bit_less: "0 < n \<Longrightarrow> v \<noteq> 0 \<Longrightarrow> unat (drop_bit n v) < unat v" for v :: "'a::len word"
  unfolding unat_drop_bit_eq unfolding drop_bit_eq_div
  using one_less_power [of "2 :: nat" n] by (intro div_less_dividend) (simp_all add: unat_gt_0)

function EncodeVarint64 :: "u64 \<Rightarrow> bytes" where
  "EncodeVarint64 v = (if 128 \<le> v then ucast ((v AND 127) OR 128) # EncodeVarint64 (drop_bit 7 v) else [ucast v])"
  by auto
termination by (relation "measure unat") (auto intro!: unat_drop_bit_less)

definition PutVarint64 :: "bytes \<Rightarrow> u64 \<Rightarrow> bytes" where
  "PutVarint64 dst v = dst @ EncodeVarint64 v"

text \<open>The size of the slice is cut to 32 bits by the call.\<close>

definition PutLengthPrefixedSlice :: "bytes \<Rightarrow> bytes \<Rightarrow> bytes" where
  "PutLengthPrefixedSlice dst v = PutVarint32 dst (of_nat (length v)) @ v"

function VarintLength :: "u64 \<Rightarrow> nat" where
  "VarintLength v = (if 128 \<le> v then Suc (VarintLength (drop_bit 7 v)) else 1)"
  by auto
termination by (relation "measure unat") (auto intro!: unat_drop_bit_less)

declare EncodeVarint64.simps [simp del] VarintLength.simps [simp del]

text \<open>
  The loop of \<open>GetVarint32PtrFallback\<close> and \<open>GetVarint64Ptr\<close>, which differ in the width and in the last
  shift they allow.
\<close>

fun GetVarint_loop :: "nat \<Rightarrow> nat \<Rightarrow> 'a::len word \<Rightarrow> bytes \<Rightarrow> ('a word \<times> bytes) option" where
  "GetVarint_loop last_shift shift result [] = None"
| "GetVarint_loop last_shift shift result (b # p) =
     (if shift \<le> last_shift then
        if (ucast b :: 'a word) AND 128 \<noteq> 0
        then GetVarint_loop last_shift (shift + 7) (result OR push_bit shift (ucast b AND 127)) p
        else Some (result OR push_bit shift (ucast b), p)
      else None)"

definition GetVarint32PtrFallback :: "bytes \<Rightarrow> (u32 \<times> bytes) option" where
  "GetVarint32PtrFallback p = GetVarint_loop 28 0 0 p"

definition GetVarint32Ptr :: "bytes \<Rightarrow> (u32 \<times> bytes) option" where
  "GetVarint32Ptr p =
     (case p of [] \<Rightarrow> GetVarint32PtrFallback p
      | b # q \<Rightarrow> if (ucast b :: u32) AND 128 = 0 then Some (ucast b, q) else GetVarint32PtrFallback p)"

definition GetVarint64Ptr :: "bytes \<Rightarrow> (u64 \<times> bytes) option" where
  "GetVarint64Ptr p = GetVarint_loop 63 0 0 p"

text \<open>The \<^verbatim>\<open>Slice\<close> variants: the value, if there is one, and what the slice is afterwards.\<close>

definition GetVarint32 :: "bytes \<Rightarrow> u32 option \<times> bytes" where
  "GetVarint32 input = (case GetVarint32Ptr input of None \<Rightarrow> (None, input) | Some (v, q) \<Rightarrow> (Some v, q))"

definition GetVarint64 :: "bytes \<Rightarrow> u64 option \<times> bytes" where
  "GetVarint64 input = (case GetVarint64Ptr input of None \<Rightarrow> (None, input) | Some (v, q) \<Rightarrow> (Some v, q))"

definition GetLengthPrefixedSlice_ptr :: "bytes \<Rightarrow> (bytes \<times> bytes) option" where
  "GetLengthPrefixedSlice_ptr p =
     (case GetVarint32Ptr p of None \<Rightarrow> None
      | Some (len, q) \<Rightarrow> if length q < unat len then None else Some (take (unat len) q, drop (unat len) q))"

definition GetLengthPrefixedSlice :: "bytes \<Rightarrow> bytes option \<times> bytes" where
  "GetLengthPrefixedSlice input =
     (case GetVarint32 input of
        (None, i) \<Rightarrow> (None, i)
      | (Some len, i) \<Rightarrow> if unat len \<le> length i then (Some (take (unat len) i), drop (unat len) i) else (None, i))"

section \<open>Fixed width: round trip\<close>

named_theorems coding_simps \<open>decoding of what an encoder has written\<close>

lemma bit_byte:
  "bit (ucast (v AND 0xff :: 'a::len word) :: u8) n \<longleftrightarrow> n < 8 \<and> n < LENGTH('a) \<and> bit v n"
proof -
  have "(0xff :: 'a word) = mask 8" by (simp add: mask_eq_decr_exp)
  then show ?thesis by (simp only: bit_simps) (auto simp: bit_simps)
qed

lemma bit_u8_high: "8 \<le> n \<Longrightarrow> \<not> bit b n" for b :: u8
  using bit_imp_le_length [of b n] by auto

lemma fixed32_bits:
  "bit (ucast b0 OR push_bit 8 (ucast b1) OR push_bit 16 (ucast b2) OR push_bit 24 (ucast b3) :: u32) n \<longleftrightarrow>
     (if n < 8 then bit b0 n else if n < 16 then bit b1 (n - 8) else if n < 24 then bit b2 (n - 16)
      else n < 32 \<and> bit b3 (n - 24))" for b0 b1 b2 b3 :: u8
  by (cases "n < 8"; cases "n < 16"; cases "n < 24"; cases "n < 32") (simp_all add: bit_simps bit_u8_high, auto)

lemma DecodeFixed32_Encode [simp, coding_simps]: "DecodeFixed32 (EncodeFixed32 v @ p) = Some v"
  unfolding EncodeFixed32_def
  by (simp, rule bit_word_eqI, simp add: fixed32_bits bit_byte bit_drop_bit_eq, auto)

lemma length_EncodeFixed [simp]: "length (EncodeFixed32 v) = 4" "length (EncodeFixed64 w) = 8"
  by (simp_all add: EncodeFixed32_def EncodeFixed64_def)

text \<open>A 64-bit number is written as its two halves.\<close>

lemma EncodeFixed64_halves: "EncodeFixed64 v = EncodeFixed32 (ucast v) @ EncodeFixed32 (ucast (drop_bit 32 v))"
proof -
  have 255: "(0xff :: u64) = mask 8" "(0xff :: u32) = mask 8" by (simp_all add: mask_eq_decr_exp)
  show ?thesis
    unfolding EncodeFixed64_def EncodeFixed32_def 255
    by (auto simp: bit_eq_iff bit_simps ac_simps)
qed

lemma DecodeFixed64_Encode [simp, coding_simps]: "DecodeFixed64 (EncodeFixed64 v @ p) = Some v"
proof -
  have "push_bit 32 (ucast (ucast (drop_bit 32 v) :: u32)) OR ucast (ucast v :: u32) = v"
    by (rule bit_word_eqI) (auto simp: bit_simps)
  then show ?thesis by (simp add: DecodeFixed64_def EncodeFixed64_halves)
qed

lemma DecodeFixed32_None: "DecodeFixed32 p = None \<longleftrightarrow> length p < 4"
  by (cases p rule: DecodeFixed32.cases) auto

lemma DecodeFixed64_None: "DecodeFixed64 p = None \<longleftrightarrow> length p < 8"
proof -
  have "DecodeFixed64 p = None \<longleftrightarrow> DecodeFixed32 p = None \<or> DecodeFixed32 (drop 4 p) = None"
    by (simp add: DecodeFixed64_def split: option.splits)
  then show ?thesis by (auto simp: DecodeFixed32_None)
qed

section \<open>Variable width: a reference and the round trip\<close>

text \<open>Seven bits a byte, least significant first, the top bit set in every byte but the last.\<close>

fun varint :: "nat \<Rightarrow> bytes" where
  "varint n = (if n < 128 then [of_nat n] else of_nat (n mod 128 + 128) # varint (n div 128))"

declare varint.simps [simp del]

lemma or_exp_nat: "take_bit (Suc k) (n OR 2 ^ k) = take_bit k n + 2 ^ k" for n :: nat
proof -
  have "take_bit k n + 2 ^ k = take_bit k n OR 2 ^ k"
    by (rule disjunctive_add) (auto simp: bit_take_bit_iff bit_exp_iff)
  also have "\<dots> = take_bit (Suc k) (n OR 2 ^ k)"
    by (rule bit_eqI) (auto simp: bit_simps less_Suc_eq)
  finally show ?thesis by simp
qed

lemma or_exp_low_nat: "n < 2 ^ k \<Longrightarrow> n OR push_bit k m = n + push_bit k m" for n :: nat
proof -
  assume "n < 2 ^ k"
  then have "take_bit k n = n" by (rule take_bit_nat_eq_self)
  then have "bit n i \<Longrightarrow> i < k" for i by (metis bit_take_bit_iff)
  then show ?thesis by (intro disjunctive_add [symmetric]) (auto simp: bit_push_bit_iff linorder_not_le [symmetric])
qed

lemma unat_or_128: "8 \<le> LENGTH('a) \<Longrightarrow> unat (ucast (v OR 128) :: u8) = unat v mod 128 + 128" for v :: "'a::len word"
proof -
  assume "8 \<le> LENGTH('a)"
  then have "(128 :: nat) < 2 ^ LENGTH('a)" using power_increasing [of 8 "LENGTH('a)" "2 :: nat"] by simp
  then have "unat (128 :: 'a word) = 2 ^ 7" by (simp add: unat_numeral take_bit_nat_eq_self)
  then have "unat (v OR 128) = unat v OR 2 ^ 7" by (simp add: unsigned_or_eq)
  then have "unat (ucast (v OR 128) :: u8) = take_bit (Suc 7) (unat v OR 2 ^ 7)" by (simp add: unsigned_ucast_eq)
  then show ?thesis by (simp only: or_exp_nat) (simp add: take_bit_eq_mod)
qed

lemma unat_or_push:
  fixes r x :: "'a::len word"
  assumes r: "unat r < 2 ^ k" and x: "unat x * 2 ^ k < 2 ^ LENGTH('a)"
  shows "unat (r OR push_bit k x) = unat r + unat x * 2 ^ k"
proof -
  have "unat (r OR push_bit k x) = unat r OR push_bit k (unat x)"
    using x by (simp only: unsigned_or_eq unsigned_push_bit_eq) (simp add: push_bit_eq_mult take_bit_nat_eq_self)
  then show ?thesis by (simp add: or_exp_low_nat [OF r]) (simp add: push_bit_eq_mult)
qed

text \<open>One byte of a varint as the decoder sees it.\<close>

lemma unat_byte: "m < 256 \<Longrightarrow> 8 \<le> LENGTH('a) \<Longrightarrow> unat (ucast (of_nat m :: u8) :: 'a::len word) = m"
  using power_increasing [of 8 "LENGTH('a)" "2 :: nat"] by (simp add: unsigned_ucast_eq unat_of_nat take_bit_nat_eq_self)

lemma take_bit_small: "m < 256 \<Longrightarrow> 8 \<le> LENGTH('a::len) \<Longrightarrow> take_bit LENGTH('a) m = m" for m :: nat
  using power_increasing [of 8 "LENGTH('a)" "2 :: nat"] by (simp add: take_bit_nat_eq_self)

lemma word_of_unat: "unat w = m \<Longrightarrow> w = of_nat m" for w :: "'a::len word"
  by auto

lemma and_exp_nat: "n < 2 ^ k \<Longrightarrow> n AND 2 ^ k = 0" "n < 2 ^ k \<Longrightarrow> (n + 2 ^ k) AND 2 ^ k \<noteq> 0" for n :: nat
proof -
  assume n: "n < 2 ^ k"
  then have "take_bit k n = n" by (rule take_bit_nat_eq_self)
  then have "\<not> bit n k" by (metis bit_take_bit_iff less_irrefl)
  then show "n AND 2 ^ k = 0" by (intro bit_eqI) (auto simp: bit_simps)
  have "n + 2 ^ k = n OR push_bit k 1" using or_exp_low_nat [OF n, of 1] by (simp add: push_bit_eq_mult)
  then have "bit (n + 2 ^ k) k" by (simp add: bit_simps)
  then show "(n + 2 ^ k) AND 2 ^ k \<noteq> 0" by (simp add: and_exp_eq_0_iff_not_bit)
qed

lemma varint_more:
  assumes n: "n < 128" and l: "8 \<le> LENGTH('a)"
  shows "(ucast (of_nat (n + 128) :: u8) :: 'a::len word) AND 128 \<noteq> 0"
    and "unat ((ucast (of_nat (n + 128) :: u8) :: 'a word) AND 127) = n"
proof -
  have u: "unat (ucast (of_nat (n + 128) :: u8) :: 'a word) = n + 128"
    using n l by (intro unat_byte) simp_all
  have c: "unat ((ucast (of_nat (n + 128) :: u8) :: 'a word) AND 128) = (n + 128) AND 128"
      "unat ((ucast (of_nat (n + 128) :: u8) :: 'a word) AND 127) = (n + 128) AND 127"
    using l by (simp_all only: unsigned_and_eq u) (simp_all add: unat_numeral take_bit_small [where 'a = 'a])
  have "(n + 128) AND 127 = (n + 128) mod 128"
    using take_bit_eq_mask [of 7 "n + 128"] by (simp add: mask_eq_exp_minus_1 take_bit_eq_mod)
  then show "unat ((ucast (of_nat (n + 128) :: u8) :: 'a word) AND 127) = n" using c n by simp
  have "(n + 128) AND 128 \<noteq> 0" using and_exp_nat(2) [of n 7] n by simp
  then show "(ucast (of_nat (n + 128) :: u8) :: 'a word) AND 128 \<noteq> 0" using c(1) by (metis unsigned_0)
qed

lemma varint_last:
  assumes n: "n < 128" and l: "8 \<le> LENGTH('a)"
  shows "(ucast (of_nat n :: u8) :: 'a::len word) AND 128 = 0" and "unat (ucast (of_nat n :: u8) :: 'a word) = n"
proof -
  show u: "unat (ucast (of_nat n :: u8) :: 'a word) = n"
    using n l by (intro unat_byte) simp_all
  have "unat ((ucast (of_nat n :: u8) :: 'a word) AND 128) = n AND 128"
    using l by (simp only: unsigned_and_eq u) (simp add: unat_numeral take_bit_small [where 'a = 'a])
  then show "(ucast (of_nat n :: u8) :: 'a word) AND 128 = 0"
    using and_exp_nat(1) [of n 7] n by (simp add: unat_eq_zero)
qed

text \<open>The decoding loop undoes the reference encoding.\<close>

lemma GetVarint_loop_varint:
  fixes r :: "'a::len word"
  assumes "unat r < 2 ^ k" and "n * 2 ^ k < 2 ^ LENGTH('a)" and "7 dvd k" and l: "8 \<le> LENGTH('a)"
    and mx: "\<And>s. 7 dvd s \<Longrightarrow> s < LENGTH('a) \<Longrightarrow> s \<le> mx"  and "k < LENGTH('a)"
  shows "GetVarint_loop mx k r (varint n @ p) = Some (of_nat (unat r + n * 2 ^ k), p)"
  using assms(1-3,6)
proof (induction n arbitrary: k r rule: varint.induct)
  case (1 n)
  have le: "k \<le> mx" using mx 1(4,5) by blast
  show ?case
  proof (cases "n < 128")
    case True
    note last = varint_last [OF True l]
    have "unat (r OR push_bit k (ucast (of_nat n :: u8))) = unat r + n * 2 ^ k"
      using unat_or_push [of r k "ucast (of_nat n :: u8)"] 1(2,3) last(2) by simp
    then have "r OR push_bit k (ucast (of_nat n :: u8)) = of_nat (unat r + n * 2 ^ k)" by (rule word_of_unat)
    then show ?thesis using True le last(1) by (simp add: varint.simps [of n])
  next
    case False
    let ?d = "n mod 128" and ?q = "n div 128"
    have n: "n = ?d + 128 * ?q" by simp
    have q: "0 < ?q" using False by (simp add: div_greater_zero_iff)
    have d128: "?d < 128" by simp
    note more = varint_more [OF d128 l]
    have "?d * 2 ^ k \<le> n * 2 ^ k" by simp
    then have small: "?d * 2 ^ k < 2 ^ LENGTH('a)" using 1(3) by linarith
    let ?r = "r OR push_bit k (ucast (of_nat (?d + 128) :: u8) AND 127)"
    have ur: "unat ?r = unat r + ?d * 2 ^ k"
      using unat_or_push [of r k "ucast (of_nat (?d + 128) :: u8) AND 127"] 1(2) small more(2) by simp
    have p7: "(2::nat) ^ (k + 7) = 128 * 2 ^ k" by (simp add: power_add)
    have lt: "unat ?r < 2 ^ (k + 7)"
    proof -
      have "(?d + 1) * 2 ^ k \<le> 128 * 2 ^ k" using d128 by (intro mult_right_mono) auto
      then have "?d * 2 ^ k + 2 ^ k \<le> 128 * 2 ^ k" by (simp only: distrib_right mult_1)
      then show ?thesis unfolding ur p7 using 1(2) by linarith
    qed
    have "?q * 2 ^ (k + 7) \<le> n * 2 ^ k" by (subst (2) n) (simp add: p7 distrib_right)
    then have qb: "?q * 2 ^ (k + 7) < 2 ^ LENGTH('a)" using 1(3) by linarith
    have "2 ^ (k + 7) \<le> ?q * 2 ^ (k + 7)" using q by simp
    then have "(2 :: nat) ^ (k + 7) < 2 ^ LENGTH('a)" using qb by linarith
    then have k7: "k + 7 < LENGTH('a)" by simp
    have IH: "GetVarint_loop mx (k + 7) ?r (varint ?q @ p) = Some (of_nat (unat ?r + ?q * 2 ^ (k + 7)), p)"
      using 1(1) [OF False lt qb _ k7] 1(4) by simp
    have "n * x = ?d * x + ?q * (128 * x)" for x
    proof -
      have "n * x = (?d + ?q * 128) * x" by simp
      then show ?thesis by (simp only: distrib_right mult.assoc)
    qed
    then have "unat ?r + ?q * 2 ^ (k + 7) = unat r + n * 2 ^ k" unfolding ur p7 by simp
    with IH have "GetVarint_loop mx (k + 7) ?r (varint ?q @ p) = Some (of_nat (unat r + n * 2 ^ k), p)" by (simp only:)
    then show ?thesis using False le more(1) by (simp add: varint.simps [of n] del: of_nat_add of_nat_mult)
  qed
qed

lemma varint_cases: "n < 128 \<Longrightarrow> varint n = [of_nat n]" "128 \<le> n \<Longrightarrow> varint n = of_nat (n mod 128 + 128) # varint (n div 128)"
  by (simp_all add: varint.simps [of n])

lemma ucast_or_128: "8 \<le> LENGTH('a) \<Longrightarrow> (ucast (v OR 128) :: u8) = of_nat (unat v mod 128 + 128)" for v :: "'a::len word"
  by (intro word_of_unat unat_or_128)

lemma unat_drop_div: "unat (drop_bit k v) = unat v div 2 ^ k" for v :: "'a::len word"
  unfolding unat_drop_bit_eq unfolding drop_bit_eq_div ..

lemma EncodeVarint64_varint: "EncodeVarint64 v = varint (unat v)"
proof (induction v rule: EncodeVarint64.induct)
  case (1 v)
  show ?case
  proof (cases "128 \<le> v")
    case True
    have "unat (v AND 127) = unat v mod 128"
      using take_bit_eq_mask [of 7 "unat v"] by (simp add: unsigned_and_eq mask_eq_exp_minus_1 take_bit_eq_mod)
    then have "(ucast ((v AND 127) OR 128) :: u8) = of_nat (unat v mod 128 + 128)"
      by (simp only: ucast_or_128 [where 'a = 64, simplified]) simp
    then show ?thesis
      using True 1 by (simp add: EncodeVarint64.simps [of v] varint_cases(2) word_le_nat_alt unat_drop_div)
  next
    case False
    then show ?thesis by (simp add: EncodeVarint64.simps [of v] varint_cases(1) word_le_nat_alt)
  qed
qed

lemma ucast_drop:
  "(ucast (drop_bit k v) :: u8) = of_nat (unat v div 2 ^ k)"
  "8 \<le> LENGTH('a) \<Longrightarrow> (ucast (drop_bit k v OR 128) :: u8) = of_nat (unat v div 2 ^ k mod 128 + 128)"
  for v :: "'a::len word"
  by (simp_all only: ucast_or_128 flip: unat_drop_div) simp

lemma EncodeVarint32_varint: "EncodeVarint32 v = varint (unat v)"
proof -
  let ?n = "unat v"
  have n: "?n < 2 ^ 32" using unsigned_less [of v] by simp
  have div: "?n div 128 div 128 = ?n div 16384" "?n div 16384 div 128 = ?n div 2097152" "?n div 2097152 div 128 = ?n div 268435456"
    by (simp_all add: div_mult2_eq [symmetric])
  note facts = EncodeVarint32_def ucast_or_128 [where 'a = 32, simplified] ucast_drop [where 'a = 32, simplified] unat_drop_div word_less_nat_alt
  consider "?n < 2 ^ 7" | "2 ^ 7 \<le> ?n" "?n < 2 ^ 14" | "2 ^ 14 \<le> ?n" "?n < 2 ^ 21" | "2 ^ 21 \<le> ?n" "?n < 2 ^ 28" | "2 ^ 28 \<le> ?n"
    by linarith
  then show ?thesis
  proof cases
    case 1
    then show ?thesis by (simp add: facts varint_cases)
  next
    case 2
    then have "128 \<le> ?n" "?n div 128 < 128" by auto
    then show ?thesis using 2 by (simp add: facts varint_cases)
  next
    case 3
    then have a: "128 \<le> ?n" "128 \<le> ?n div 128" "?n div 16384 < 128" by auto
    show ?thesis
      using 3 varint_cases(2) [OF a(1)] varint_cases(2) [OF a(2)] varint_cases(1) [OF a(3)] by (simp add: facts div)
  next
    case 4
    then have a: "128 \<le> ?n" "128 \<le> ?n div 128" "128 \<le> ?n div 16384" "?n div 2097152 < 128" by auto
    show ?thesis
      using 4 varint_cases(2) [OF a(1)] varint_cases(2) [OF a(2)] varint_cases(2) [OF a(3)] varint_cases(1) [OF a(4)]
      by (simp add: facts div)
  next
    case 5
    then have a: "128 \<le> ?n" "128 \<le> ?n div 128" "128 \<le> ?n div 16384" "128 \<le> ?n div 2097152" "?n div 268435456 < 128" using n by auto
    show ?thesis
      using 5 varint_cases(2) [OF a(1)] varint_cases(2) [OF a(2)] varint_cases(2) [OF a(3)] varint_cases(2) [OF a(4)]
        varint_cases(1) [OF a(5)]
      by (simp add: facts div)
  qed
qed

lemma GetVarint32Ptr_varint [simp, coding_simps]: "GetVarint32Ptr (EncodeVarint32 v @ p) = Some (v, p)"
proof -
  have "s \<le> 28" if "7 dvd s" "s < 32" for s :: nat using that by (auto elim!: dvdE)
  then have l: "GetVarint_loop 28 0 0 (varint (unat v) @ p) = Some (v, p)"
    using GetVarint_loop_varint [of "0 :: u32" 0 "unat v" 28 p] unsigned_less [of v] by simp
  show ?thesis
  proof (cases "unat v < 128")
    case True
    then show ?thesis
      using varint_last [OF True, where 'a = 32] by (simp add: GetVarint32Ptr_def EncodeVarint32_varint varint_cases word_unat_eq_iff)
  next
    case False
    then obtain b q where "varint (unat v) = b # q" "(ucast b :: u32) AND 128 \<noteq> 0"
      using varint_more [of "unat v mod 128", where 'a = 32] by (auto simp: varint_cases)
    then show ?thesis using l by (simp add: GetVarint32Ptr_def GetVarint32PtrFallback_def EncodeVarint32_varint)
  qed
qed

lemma GetVarint64Ptr_varint [simp, coding_simps]: "GetVarint64Ptr (EncodeVarint64 v @ p) = Some (v, p)"
proof -
  have "s \<le> 63" if "7 dvd s" "s < 64" for s :: nat using that by (auto elim!: dvdE)
  then show ?thesis
    using GetVarint_loop_varint [of "0 :: u64" 0 "unat v" 63 p] unsigned_less [of v]
    by (simp add: GetVarint64Ptr_def EncodeVarint64_varint)
qed

lemma GetVarint_slice [simp, coding_simps]:
  "GetVarint32 (EncodeVarint32 v @ p) = (Some v, p)" "GetVarint64 (EncodeVarint64 w @ p) = (Some w, p)"
  by (simp_all add: GetVarint32_def GetVarint64_def)

lemma GetLengthPrefixedSlice_Put [simp, coding_simps]:
  "length s < 2 ^ 32 \<Longrightarrow> GetLengthPrefixedSlice (EncodeVarint32 (of_nat (length s)) @ s @ p) = (Some s, p)"
  "length s < 2 ^ 32 \<Longrightarrow> GetLengthPrefixedSlice_ptr (EncodeVarint32 (of_nat (length s)) @ s @ p) = Some (s, p)"
  by (simp_all add: GetLengthPrefixedSlice_def GetLengthPrefixedSlice_ptr_def unat_of_nat)

text \<open>A decoder that succeeds has consumed at least one byte and leaves a suffix of its input.\<close>

lemma GetVarint_loop_suffix: "GetVarint_loop mx k r p = Some (v, q) \<Longrightarrow> \<exists>u. u \<noteq> [] \<and> p = u @ q"
proof (induction mx k r p rule: GetVarint_loop.induct)
  case (2 mx k r b p)
  then show ?case by (force split: if_splits)
qed simp

lemma GetVarint32Ptr_suffix: "GetVarint32Ptr p = Some (v, q) \<Longrightarrow> \<exists>u. u \<noteq> [] \<and> p = u @ q"
  by (auto simp: GetVarint32Ptr_def GetVarint32PtrFallback_def dest: GetVarint_loop_suffix split: list.splits if_splits)

lemma GetVarint32_suffix: "GetVarint32 p = (Some v, q) \<Longrightarrow> \<exists>u. u \<noteq> [] \<and> p = u @ q"
  by (auto simp: GetVarint32_def dest: GetVarint32Ptr_suffix split: option.splits)

lemma GetVarint64_suffix: "GetVarint64 p = (Some v, q) \<Longrightarrow> \<exists>u. u \<noteq> [] \<and> p = u @ q"
  by (auto simp: GetVarint64_def GetVarint64Ptr_def dest: GetVarint_loop_suffix split: option.splits)

lemma GetLengthPrefixedSlice_suffix: "GetLengthPrefixedSlice p = (Some s, q) \<Longrightarrow> \<exists>u. u \<noteq> [] \<and> p = u @ s @ q"
  by (auto simp: GetLengthPrefixedSlice_def dest!: GetVarint32_suffix split: prod.splits option.splits if_splits)

lemma length_varint: "n < 2 ^ (7 * k) \<Longrightarrow> 0 < k \<Longrightarrow> length (varint n) \<le> k"
proof (induction n arbitrary: k rule: varint.induct)
  case (1 n)
  show ?case
  proof (cases "n < 128")
    case False
    then obtain j where k: "k = Suc j" "0 < j" using 1(2,3) by (cases k; cases "k - 1") auto
    have "n div 128 < 2 ^ (7 * j)" using 1(2) by (simp add: k(1) power_add less_mult_imp_div_less)
    then show ?thesis using 1(1) [OF False _ k(2)] False by (simp add: varint_cases k(1))
  qed (use 1(3) in \<open>simp add: varint_cases\<close>)
qed

lemma length_varint_pos: "varint n \<noteq> []"
  by (cases "n < 128") (simp_all add: varint_cases)

lemma VarintLength_length: "VarintLength v = length (EncodeVarint64 v)"
  by (induction v rule: VarintLength.induct) (simp add: VarintLength.simps [of v for v] EncodeVarint64.simps [of v for v])

lemma VarintLength_length_core:
  "length (EncodeVarint32 v) \<le> 5" "length (EncodeVarint64 w) \<le> 10"
proof -
  have "unat v < 2 ^ 32" "unat w < 2 ^ 64" using unsigned_less [of v] unsigned_less [of w] by simp_all
  then show "length (EncodeVarint32 v) \<le> 5" "length (EncodeVarint64 w) \<le> 10"
    using length_varint [of "unat v" 5] length_varint [of "unat w" 10]
    by (simp_all add: EncodeVarint32_varint EncodeVarint64_varint)
qed

section \<open>Properties\<close>

text \<open>
  C26. What the encoders of \<^verbatim>\<open>util/coding.cc\<close> append, the decoders read back: both fixed-width formats, both
  varint formats, and a slice behind its length, whatever bytes follow. A slice must be shorter than
  4 GiB, since its length is cut to 32 bits.
\<close>

theorem coding_roundtrip:
  assumes "length s < 2 ^ 32"
  shows "DecodeFixed32 (PutFixed32 [] v @ p) = Some v \<and> DecodeFixed64 (PutFixed64 [] w @ p) = Some w
    \<and> GetVarint32 (PutVarint32 [] v @ p) = (Some v, p) \<and> GetVarint64 (PutVarint64 [] w @ p) = (Some w, p)
    \<and> GetLengthPrefixedSlice (PutLengthPrefixedSlice [] s @ p) = (Some s, p)"
  using assms by (simp add: PutFixed32_def PutFixed64_def PutVarint32_def PutVarint64_def PutLengthPrefixedSlice_def)

theorem coding_roundtrip_witness:
  "DecodeFixed32 (PutFixed32 [] 77 @ [1]) = Some 77 \<and> DecodeFixed64 (PutFixed64 [] 5 @ [1]) = Some 5
    \<and> GetVarint32 (PutVarint32 [] 77 @ [1]) = (Some 77, [1]) \<and> GetVarint64 (PutVarint64 [] 5 @ [1]) = (Some 5, [1])
    \<and> GetLengthPrefixedSlice (PutLengthPrefixedSlice [] [3, 4] @ [1]) = (Some [3, 4], [1])"
  by (rule coding_roundtrip) simp


end
