(* ===== verification/Comparators.thy ===== *)
theory Comparators
  imports Coding "HOL-Library.List_Lexorder"
begin

text \<open>
  The order of keys: \<^verbatim>\<open>Slice::compare\<close> (\<^verbatim>\<open>include/leveldb/slice.h\<close>) and the bytewise comparator
  (\<^verbatim>\<open>util/comparator.cc\<close>). The locale \<open>comparator\<close> is the interface \<^verbatim>\<open>include/leveldb/comparator.h\<close> that the rest of
  LevelDB programs against; the bytewise comparator is its first instance, the internal-key comparator
  of theory \<open>Dbformat\<close> the second.
\<close>

section \<open>The interface\<close>

text \<open>
  \<open>ok\<close> holds of the keys a comparator is meant for. The separator of two keys lies in the half-open
  interval between them, and equal keys are left alone; the successor is not smaller than the key.
\<close>

locale comparator =
  fixes cmp :: "bytes \<Rightarrow> bytes \<Rightarrow> int"
    and shortest_separator :: "bytes \<Rightarrow> bytes \<Rightarrow> bytes"
    and short_successor :: "bytes \<Rightarrow> bytes"
    and ok :: "bytes \<Rightarrow> bool"
  assumes cmp_eq: "ok a \<Longrightarrow> ok b \<Longrightarrow> cmp a b = 0 \<longleftrightarrow> a = b"
    and cmp_swap: "ok a \<Longrightarrow> ok b \<Longrightarrow> cmp a b < 0 \<longleftrightarrow> 0 < cmp b a"
    and cmp_trans: "ok a \<Longrightarrow> ok b \<Longrightarrow> ok c \<Longrightarrow> cmp a b < 0 \<Longrightarrow> cmp b c < 0 \<Longrightarrow> cmp a c < 0"
    and sep_ok: "ok a \<Longrightarrow> ok b \<Longrightarrow> ok (shortest_separator a b)"
    and sep_between: "ok a \<Longrightarrow> ok b \<Longrightarrow> cmp a b < 0 \<Longrightarrow>
      cmp a (shortest_separator a b) \<le> 0 \<and> cmp (shortest_separator a b) b < 0"
    and sep_same: "ok a \<Longrightarrow> shortest_separator a a = a"
    and succ_ok: "ok a \<Longrightarrow> ok (short_successor a)"
    and succ_ge: "ok a \<Longrightarrow> cmp a (short_successor a) \<le> 0"
begin

lemma cmp_refl: "ok a \<Longrightarrow> cmp a a = 0"
  using cmp_eq by blast

lemma cmp_cases: "ok a \<Longrightarrow> ok b \<Longrightarrow> cmp a b < 0 \<or> a = b \<or> cmp b a < 0"
  using cmp_eq [of a b] cmp_swap [of b a] by linarith

lemma cmp_asym: "ok a \<Longrightarrow> ok b \<Longrightarrow> cmp a b < 0 \<Longrightarrow> \<not> cmp b a < 0"
  using cmp_swap [of a b] by linarith

lemma cmp_le_trans: "ok a \<Longrightarrow> ok b \<Longrightarrow> ok c \<Longrightarrow> cmp a b \<le> 0 \<Longrightarrow> cmp b c < 0 \<Longrightarrow> cmp a c < 0"
  using cmp_eq [of a b] cmp_trans [of a b c] by (cases "cmp a b = 0") auto

end

section \<open>Slices\<close>

text \<open>\<^verbatim>\<open>memcmp\<close>, of which only the sign of the result is specified.\<close>

fun memcmp :: "bytes \<Rightarrow> bytes \<Rightarrow> int" where
  "memcmp (a # as) (b # bs) = (if a < b then - 1 else if b < a then 1 else memcmp as bs)"
| "memcmp _ _ = 0"

definition Slice_compare :: "bytes \<Rightarrow> bytes \<Rightarrow> int" where
  "Slice_compare a b =
     (let min_len = (if length a < length b then length a else length b);
          r = memcmp (take min_len a) (take min_len b)
      in if r = 0 then if length a < length b then - 1 else if length b < length a then 1 else r else r)"

section \<open>The bytewise comparator\<close>

fun diff_index :: "bytes \<Rightarrow> bytes \<Rightarrow> nat" where
  "diff_index (a # as) (b # bs) = (if a = b then Suc (diff_index as bs) else 0)"
| "diff_index _ _ = 0"

definition Bytewise_FindShortestSeparator :: "bytes \<Rightarrow> bytes \<Rightarrow> bytes" where
  "Bytewise_FindShortestSeparator start limit =
     (let min_length = min (length start) (length limit);
          i = diff_index start limit
      in if min_length \<le> i then start
         else let diff_byte = start ! i
              in if diff_byte < 0xff \<and> unat diff_byte + 1 < unat (limit ! i)
                 then take (i + 1) (start[i := diff_byte + 1]) else start)"

fun Bytewise_FindShortSuccessor :: "bytes \<Rightarrow> bytes" where
  "Bytewise_FindShortSuccessor [] = []"
| "Bytewise_FindShortSuccessor (b # key) = (if b \<noteq> 0xff then [b + 1] else b # Bytewise_FindShortSuccessor key)"

section \<open>Correctness\<close>

text \<open>\<open>Slice::compare\<close> is the lexicographic order of the library.\<close>

lemma Slice_compare_Cons:
  "Slice_compare (a # as) (b # bs) = (if a < b then - 1 else if b < a then 1 else Slice_compare as bs)"
  by (simp add: Slice_compare_def Let_def)

lemma Slice_compare_Nil: "Slice_compare [] b = (if b = [] then 0 else - 1)" "Slice_compare a [] = (if a = [] then 0 else 1)"
  by (simp_all add: Slice_compare_def Let_def)

lemma Slice_compare_lex: "Slice_compare a b = (if a < b then - 1 else if a = b then 0 else 1)"
proof (induction a arbitrary: b)
  case Nil
  then show ?case by (cases b) (simp_all add: Slice_compare_Nil)
next
  case (Cons x xs)
  then show ?case by (cases b) (auto simp: Slice_compare_Nil Slice_compare_Cons)
qed

lemma Bytewise_sep_Cons:
  "Bytewise_FindShortestSeparator (a # as) (b # bs) =
     (if a = b then a # Bytewise_FindShortestSeparator as bs
      else if a < 0xff \<and> unat a + 1 < unat b then [a + 1] else a # as)"
  by (auto simp: Bytewise_FindShortestSeparator_def Let_def)

lemma byte_inc: "b \<noteq> 0xff \<Longrightarrow> b < b + 1" for b :: u8
proof -
  assume "b \<noteq> 0xff"
  then have "unat b \<noteq> 255" by (simp add: word_unat_eq_iff)
  moreover have "unat b < 256" using unsigned_less [of b] by simp
  ultimately have "unat (b + 1) = unat b + 1" by (simp add: unat_word_ariths)
  then show ?thesis by (simp add: word_less_nat_alt)
qed

lemma byte_inc_less: "unat a + 1 < unat b \<Longrightarrow> a + 1 < b" for a b :: u8
  using unsigned_less [of b] by (simp add: word_less_nat_alt unat_word_ariths)

lemma Bytewise_sep_between: "a < b \<Longrightarrow> a \<le> Bytewise_FindShortestSeparator a b \<and> Bytewise_FindShortestSeparator a b < b"
proof (induction a arbitrary: b)
  case Nil
  then show ?case by (simp add: Bytewise_FindShortestSeparator_def Let_def)
next
  case (Cons x xs)
  then obtain y ys where b: "b = y # ys" by (cases b) auto
  then show ?case using Cons byte_inc [of x] byte_inc_less [of x y] by (auto simp: Bytewise_sep_Cons)
qed

lemma Bytewise_sep_same: "Bytewise_FindShortestSeparator a a = a"
  by (induction a) (simp_all add: Bytewise_sep_Cons Bytewise_FindShortestSeparator_def)

lemma Bytewise_succ_ge: "a \<le> Bytewise_FindShortSuccessor a"
  by (induction a) (use byte_inc in auto)

interpretation bytewise: comparator Slice_compare Bytewise_FindShortestSeparator Bytewise_FindShortSuccessor "\<lambda>_. True"
proof unfold_locales
  show "Slice_compare a b < 0 \<longleftrightarrow> 0 < Slice_compare b a" for a b
    by (auto simp: Slice_compare_lex)
  show "Slice_compare a b < 0 \<Longrightarrow> Slice_compare b c < 0 \<Longrightarrow> Slice_compare a c < 0" for a b c
    by (auto simp: Slice_compare_lex split: if_splits)
  show "Slice_compare a (Bytewise_FindShortestSeparator a b) \<le> 0 \<and> Slice_compare (Bytewise_FindShortestSeparator a b) b < 0"
    if "Slice_compare a b < 0" for a b
    using that Bytewise_sep_between [of a b] by (auto simp: Slice_compare_lex split: if_splits)
  show "Slice_compare a (Bytewise_FindShortSuccessor a) \<le> 0" for a
    using Bytewise_succ_ge [of a] by (auto simp: Slice_compare_lex)
qed (auto simp: Slice_compare_lex Bytewise_sep_same)

end
