(* ===== verification/Dbformat.thy ===== *)
theory Dbformat
  imports Comparators
begin

text \<open>
  Internal keys (\<^verbatim>\<open>db/dbformat.h\<close>, \<^verbatim>\<open>db/dbformat.cc\<close>): a user key followed by eight bytes that pack a sequence
  number and a value type. \<open>InternalKeyComparator\<close> sorts them by user key, newest first.
\<close>

section \<open>Keys\<close>

datatype ValueType = kTypeDeletion | kTypeValue

fun type_code :: "ValueType \<Rightarrow> u64" where
  "type_code kTypeDeletion = 0x0"
| "type_code kTypeValue = 0x1"

definition kValueTypeForSeek :: ValueType where
  "kValueTypeForSeek = kTypeValue"

definition kMaxSequenceNumber :: u64 where
  "kMaxSequenceNumber = push_bit 56 1 - 1"

record ParsedInternalKey =
  user_key :: bytes
  sequence :: u64
  ik_type :: ValueType

definition InternalKeyEncodingLength :: "ParsedInternalKey \<Rightarrow> nat" where
  "InternalKeyEncodingLength key = length (user_key key) + 8"

definition PackSequenceAndType :: "u64 \<Rightarrow> ValueType \<Rightarrow> u64" where
  "PackSequenceAndType seq t = push_bit 8 seq OR type_code t"

definition AppendInternalKey :: "bytes \<Rightarrow> ParsedInternalKey \<Rightarrow> bytes" where
  "AppendInternalKey result key = PutFixed64 (result @ user_key key) (PackSequenceAndType (sequence key) (ik_type key))"

text \<open>
  The last eight bytes of a key, for keys that have them; a shorter key would be an out-of-bounds
  access, which the callers exclude.
\<close>

definition ExtractUserKey :: "bytes \<Rightarrow> bytes" where
  "ExtractUserKey k = take (length k - 8) k"

definition key_num :: "bytes \<Rightarrow> u64" where
  "key_num k = (case DecodeFixed64 (drop (length k - 8) k) of Some num \<Rightarrow> num | None \<Rightarrow> 0)"

text \<open>\<open>static_cast\<close> of the low byte to the enumeration; None for a byte that is none of its values.\<close>

definition type_of_code :: "u64 \<Rightarrow> ValueType option" where
  "type_of_code c = (if c = 0 then Some kTypeDeletion else if c = 1 then Some kTypeValue else None)"

definition ExtractValueType :: "bytes \<Rightarrow> ValueType option" where
  "ExtractValueType k = type_of_code (key_num k AND 0xff)"

definition ParseInternalKey :: "bytes \<Rightarrow> ParsedInternalKey option" where
  "ParseInternalKey k =
     (if length k < 8 then None
      else let num = key_num k
           in map_option (\<lambda>t. \<lparr>user_key = take (length k - 8) k, sequence = drop_bit 8 num, ik_type = t\<rparr>)
                (type_of_code (num AND 0xff)))"

section \<open>The comparator of internal keys\<close>

text \<open>The user comparator is an argument: its three-way comparison and its two shortening operations.\<close>

definition InternalKeyComparator_Compare :: "(bytes \<Rightarrow> bytes \<Rightarrow> int) \<Rightarrow> bytes \<Rightarrow> bytes \<Rightarrow> int" where
  "InternalKeyComparator_Compare ucmp akey bkey =
     (let r = ucmp (ExtractUserKey akey) (ExtractUserKey bkey)
      in if r = 0 then
           let anum = key_num akey; bnum = key_num bkey
           in if bnum < anum then - 1 else if anum < bnum then 1 else r
         else r)"

definition InternalKeyComparator_FindShortestSeparator ::
    "(bytes \<Rightarrow> bytes \<Rightarrow> int) \<Rightarrow> (bytes \<Rightarrow> bytes \<Rightarrow> bytes) \<Rightarrow> bytes \<Rightarrow> bytes \<Rightarrow> bytes" where
  "InternalKeyComparator_FindShortestSeparator ucmp usep start limit =
     (let user_start = ExtractUserKey start; user_limit = ExtractUserKey limit;
          tmp = usep user_start user_limit
      in if length tmp < length user_start \<and> ucmp user_start tmp < 0
         then PutFixed64 tmp (PackSequenceAndType kMaxSequenceNumber kValueTypeForSeek)
         else start)"

definition InternalKeyComparator_FindShortSuccessor ::
    "(bytes \<Rightarrow> bytes \<Rightarrow> int) \<Rightarrow> (bytes \<Rightarrow> bytes) \<Rightarrow> bytes \<Rightarrow> bytes" where
  "InternalKeyComparator_FindShortSuccessor ucmp usucc key =
     (let ukey = ExtractUserKey key; tmp = usucc ukey
      in if length tmp < length ukey \<and> ucmp ukey tmp < 0
         then PutFixed64 tmp (PackSequenceAndType kMaxSequenceNumber kValueTypeForSeek)
         else key)"

section \<open>Lookup keys\<close>

text \<open>
  The buffer of a \<open>LookupKey\<close> with the offset \<open>kstart\<close> of the internal key in it; \<open>needed\<close> is the size the
  constructor reserves.
\<close>

record LookupKey =
  lk_buf :: bytes
  lk_kstart :: nat
  lk_needed :: nat

definition LookupKey_new :: "bytes \<Rightarrow> u64 \<Rightarrow> LookupKey" where
  "LookupKey_new ukey s =
     (let usize = length ukey; len = EncodeVarint32 (of_nat (usize + 8))
      in \<lparr>lk_buf = len @ ukey @ EncodeFixed64 (PackSequenceAndType s kValueTypeForSeek),
          lk_kstart = length len, lk_needed = usize + 13\<rparr>)"

definition memtable_key :: "LookupKey \<Rightarrow> bytes" where
  "memtable_key k = lk_buf k"

definition lk_internal_key :: "LookupKey \<Rightarrow> bytes" where
  "lk_internal_key k = drop (lk_kstart k) (lk_buf k)"

definition lk_user_key :: "LookupKey \<Rightarrow> bytes" where
  "lk_user_key k = take (length (lk_buf k) - lk_kstart k - 8) (drop (lk_kstart k) (lk_buf k))"

section \<open>Packing and parsing\<close>

lemma EncodeFixed32_decoded:
  "EncodeFixed32 (ucast b0 OR push_bit 8 (ucast b1) OR push_bit 16 (ucast b2) OR push_bit 24 (ucast b3)) = [b0, b1, b2, b3]"
  for b0 b1 b2 b3 :: u8
proof -
  define x :: u32 where "x = ucast b0 OR push_bit 8 (ucast b1) OR push_bit 16 (ucast b2) OR push_bit 24 (ucast b3)"
  have "bit x n \<longleftrightarrow> (if n < 8 then bit b0 n else if n < 16 then bit b1 (n - 8) else if n < 24 then bit b2 (n - 16)
      else n < 32 \<and> bit b3 (n - 24))" for n
    unfolding x_def by (rule fixed32_bits)
  then show ?thesis
    unfolding x_def [symmetric] EncodeFixed32_def list.inject
    by (intro conjI bit_word_eqI refl) (simp_all add: bit_byte bit_drop_bit_eq)
qed

lemma EncodeFixed32_Decode: "DecodeFixed32 p = Some v \<Longrightarrow> EncodeFixed32 v = take 4 p"
  by (cases p rule: DecodeFixed32.cases) (auto simp: EncodeFixed32_decoded)

lemma EncodeFixed64_Decode: "DecodeFixed64 p = Some v \<Longrightarrow> EncodeFixed64 v = take 8 p"
proof -
  assume "DecodeFixed64 p = Some v"
  then obtain lo hi where d: "DecodeFixed32 p = Some lo" "DecodeFixed32 (drop 4 p) = Some hi" "v = push_bit 32 (ucast hi) OR ucast lo"
    by (auto simp: DecodeFixed64_def split: option.splits)
  have "ucast v = lo" "ucast (drop_bit 32 v) = hi"
    unfolding d(3) by (rule bit_word_eqI; auto simp: bit_simps dest: bit_imp_le_length)+
  then have "EncodeFixed64 v = take 4 p @ take 4 (drop 4 p)"
    using d(1,2) EncodeFixed32_Decode by (simp add: EncodeFixed64_halves)
  then show ?thesis by (simp add: take_add [of 4 4, simplified])
qed

lemma type_of_code_inverse [simp]: "type_of_code (type_code t) = Some t"
  by (cases t) (simp_all add: type_of_code_def)

lemma type_code_of: "type_of_code c = Some t \<longleftrightarrow> c = type_code t"
  by (cases t) (auto simp: type_of_code_def split: if_splits)

lemma mask_255: "(0xff :: u64) = mask 8"
  by (simp add: mask_eq_exp_minus_1)

lemma Pack_type: "PackSequenceAndType s t AND 0xff = type_code t"
  unfolding mask_255 PackSequenceAndType_def take_bit_eq_mask [symmetric] take_bit_or
  by (cases t) (simp_all add: take_bit_push_bit)

lemma Pack_sequence: "s \<le> kMaxSequenceNumber \<Longrightarrow> drop_bit 8 (PackSequenceAndType s t) = s"
proof -
  assume "s \<le> kMaxSequenceNumber"
  then have "unat s < 2 ^ 56" by (simp add: kMaxSequenceNumber_def word_le_nat_alt)
  then have "take_bit 56 (unat s) = unat s" by (rule take_bit_nat_eq_self)
  then have s: "take_bit 56 s = s" by (simp add: word_unat_eq_iff unsigned_take_bit_eq)
  have t: "drop_bit 8 (type_code t) = 0" by (cases t) simp_all
  have "drop_bit 8 (push_bit 8 s) = take_bit 56 s"
    by (rule bit_word_eqI) (auto simp: bit_simps)
  then show ?thesis by (simp only: PackSequenceAndType_def drop_bit_or t s or.right_neutral)
qed

lemma Pack_unpack: "type_code t = num AND 0xff \<Longrightarrow> PackSequenceAndType (drop_bit 8 num) t = num"
  unfolding mask_255 PackSequenceAndType_def
  by (simp, rule bit_word_eqI) (auto simp: bit_simps)

lemma key_num_append [simp]: "key_num (k @ EncodeFixed64 n) = n"
  using DecodeFixed64_Encode [of n "[]"] by (simp add: key_num_def)

lemma ExtractUserKey_append [simp]: "ExtractUserKey (k @ EncodeFixed64 n) = k"
  by (simp add: ExtractUserKey_def)

lemma key_split: "8 \<le> length k \<Longrightarrow> k = ExtractUserKey k @ EncodeFixed64 (key_num k)"
proof -
  assume k: "8 \<le> length k"
  then obtain v where v: "DecodeFixed64 (drop (length k - 8) k) = Some v"
    using DecodeFixed64_None [of "drop (length k - 8) k"] by fastforce
  then have "EncodeFixed64 (key_num k) = drop (length k - 8) k"
    using EncodeFixed64_Decode [OF v] k by (simp add: key_num_def)
  then show ?thesis by (simp add: ExtractUserKey_def)
qed

lemma ParseInternalKey_Append:
  assumes "sequence k \<le> kMaxSequenceNumber"
  shows "ParseInternalKey (AppendInternalKey [] k) = Some k"
  using assms Pack_type [of "sequence k" "ik_type k"] Pack_sequence [OF assms]
  by (simp add: ParseInternalKey_def AppendInternalKey_def PutFixed64_def Let_def)

lemma AppendInternalKey_Parse: "ParseInternalKey k = Some r \<Longrightarrow> AppendInternalKey [] r = k"
  using key_split [of k]
  by (auto simp: ParseInternalKey_def AppendInternalKey_def PutFixed64_def Let_def type_code_of ExtractUserKey_def Pack_unpack
      split: if_splits)

section \<open>The order of internal keys\<close>

context comparator
begin

abbreviation icmp :: "bytes \<Rightarrow> bytes \<Rightarrow> int" where
  "icmp \<equiv> InternalKeyComparator_Compare cmp"

definition ikey_ok :: "bytes \<Rightarrow> bool" where
  "ikey_ok k \<longleftrightarrow> 8 \<le> length k \<and> ok (ExtractUserKey k)"

lemma icmp_less_iff:
  assumes "ikey_ok a" and "ikey_ok b"
  shows "icmp a b < 0 \<longleftrightarrow> cmp (ExtractUserKey a) (ExtractUserKey b) < 0
    \<or> ExtractUserKey a = ExtractUserKey b \<and> key_num b < key_num a"
  using assms cmp_eq [of "ExtractUserKey a" "ExtractUserKey b"]
  by (auto simp: InternalKeyComparator_Compare_def ikey_ok_def Let_def)

lemma icmp_greater_iff:
  assumes "ikey_ok a" and "ikey_ok b"
  shows "0 < icmp a b \<longleftrightarrow> 0 < cmp (ExtractUserKey a) (ExtractUserKey b)
    \<or> ExtractUserKey a = ExtractUserKey b \<and> key_num a < key_num b"
  using assms cmp_eq [of "ExtractUserKey a" "ExtractUserKey b"]
  by (auto simp: InternalKeyComparator_Compare_def ikey_ok_def Let_def)

lemma icmp_eq:
  assumes "ikey_ok a" and "ikey_ok b"
  shows "icmp a b = 0 \<longleftrightarrow> a = b"
proof
  assume "icmp a b = 0"
  then have "cmp (ExtractUserKey a) (ExtractUserKey b) = 0" "key_num a = key_num b"
    by (auto simp: InternalKeyComparator_Compare_def Let_def split: if_splits)
  then show "a = b" using assms cmp_eq key_split [of a] key_split [of b] by (auto simp: ikey_ok_def)
qed (use assms cmp_eq in \<open>simp add: InternalKeyComparator_Compare_def ikey_ok_def Let_def\<close>)

text \<open>Shortening an internal key: the new user key is strictly larger, whatever the trailer.\<close>

lemma isep_cases:
  "InternalKeyComparator_FindShortestSeparator cmp shortest_separator a b = a
   \<or> (\<exists>u. u = shortest_separator (ExtractUserKey a) (ExtractUserKey b) \<and> cmp (ExtractUserKey a) u < 0
        \<and> InternalKeyComparator_FindShortestSeparator cmp shortest_separator a b
            = u @ EncodeFixed64 (PackSequenceAndType kMaxSequenceNumber kValueTypeForSeek))"
  by (simp add: InternalKeyComparator_FindShortestSeparator_def Let_def PutFixed64_def)

lemma isucc_cases:
  "InternalKeyComparator_FindShortSuccessor cmp short_successor a = a
   \<or> (\<exists>u. u = short_successor (ExtractUserKey a) \<and> cmp (ExtractUserKey a) u < 0
        \<and> InternalKeyComparator_FindShortSuccessor cmp short_successor a
            = u @ EncodeFixed64 (PackSequenceAndType kMaxSequenceNumber kValueTypeForSeek))"
  by (simp add: InternalKeyComparator_FindShortSuccessor_def Let_def PutFixed64_def)

lemma isep_between:
  assumes a: "ikey_ok a" and b: "ikey_ok b" and ab: "icmp a b < 0"
  defines "s \<equiv> InternalKeyComparator_FindShortestSeparator cmp shortest_separator a b"
  shows "icmp a s \<le> 0 \<and> icmp s b < 0 \<and> ikey_ok s"
  using isep_cases [of a b, folded s_def]
proof
  assume "s = a"
  then show ?thesis using a ab icmp_eq [OF a a] by simp
next
  let ?ua = "ExtractUserKey a" and ?ub = "ExtractUserKey b"
  assume "\<exists>u. u = shortest_separator ?ua ?ub \<and> cmp ?ua u < 0
      \<and> s = u @ EncodeFixed64 (PackSequenceAndType kMaxSequenceNumber kValueTypeForSeek)"
  then obtain u n where u: "u = shortest_separator ?ua ?ub" "cmp ?ua u < 0" and s: "s = u @ EncodeFixed64 n" by blast
  have o: "ok ?ua" "ok ?ub" "ok u" using a b sep_ok u(1) by (auto simp: ikey_ok_def)
  have "?ua \<noteq> ?ub" using u sep_same [OF o(1)] cmp_refl [OF o(1)] by auto
  then have "cmp ?ua ?ub < 0" using ab icmp_less_iff [OF a b] by blast
  then have "cmp u ?ub < 0" using sep_between [OF o(1,2)] u(1) by simp
  moreover have k: "ikey_ok s" using o(3) by (simp add: s ikey_ok_def)
  ultimately show ?thesis
    using icmp_less_iff [OF a k] icmp_less_iff [OF k b] u(2) by (simp add: s)
qed

lemma isucc_ge:
  assumes a: "ikey_ok a"
  defines "s \<equiv> InternalKeyComparator_FindShortSuccessor cmp short_successor a"
  shows "icmp a s \<le> 0 \<and> ikey_ok s"
  using isucc_cases [of a, folded s_def]
proof
  assume "s = a"
  then show ?thesis using a icmp_eq [OF a a] by simp
next
  let ?ua = "ExtractUserKey a"
  assume "\<exists>u. u = short_successor ?ua \<and> cmp ?ua u < 0
      \<and> s = u @ EncodeFixed64 (PackSequenceAndType kMaxSequenceNumber kValueTypeForSeek)"
  then obtain u n where u: "u = short_successor ?ua" "cmp ?ua u < 0" and s: "s = u @ EncodeFixed64 n" by blast
  have k: "ikey_ok s" using a succ_ok u(1) by (simp add: s ikey_ok_def)
  then show ?thesis using icmp_less_iff [OF a k] u(2) by (simp add: s)
qed

text \<open>The internal-key comparator over any comparator is a comparator.\<close>

lemma internal_comparator:
  "comparator icmp (InternalKeyComparator_FindShortestSeparator cmp shortest_separator)
     (InternalKeyComparator_FindShortSuccessor cmp short_successor) ikey_ok"
proof
  fix a b c assume o: "ikey_ok a" "ikey_ok b" "ikey_ok c"
  then have ok: "ok (ExtractUserKey a)" "ok (ExtractUserKey b)" "ok (ExtractUserKey c)" by (simp_all add: ikey_ok_def)
  show "icmp a b < 0 \<Longrightarrow> icmp b c < 0 \<Longrightarrow> icmp a c < 0"
    unfolding icmp_less_iff [OF o(1,2)] icmp_less_iff [OF o(2,3)] icmp_less_iff [OF o(1,3)]
    using cmp_trans [OF ok] by auto
next
  fix a b assume o: "ikey_ok a" "ikey_ok b"
  show "icmp a b = 0 \<longleftrightarrow> a = b" by (rule icmp_eq [OF o])
  show "icmp a b < 0 \<longleftrightarrow> 0 < icmp b a"
    unfolding icmp_less_iff [OF o] icmp_greater_iff [OF o(2,1)]
    using o cmp_swap by (auto simp: ikey_ok_def)
  show "icmp a b < 0 \<Longrightarrow> icmp a (InternalKeyComparator_FindShortestSeparator cmp shortest_separator a b) \<le> 0
      \<and> icmp (InternalKeyComparator_FindShortestSeparator cmp shortest_separator a b) b < 0"
    using isep_between [OF o] by blast
  show "ikey_ok (InternalKeyComparator_FindShortestSeparator cmp shortest_separator a b)"
    using isep_cases [of a b] o sep_ok by (auto simp: ikey_ok_def)
next
  fix a assume o: "ikey_ok a"
  then show "InternalKeyComparator_FindShortestSeparator cmp shortest_separator a a = a"
    using isep_cases [of a a] sep_same [of "ExtractUserKey a"] cmp_refl [of "ExtractUserKey a"] by (auto simp: ikey_ok_def)
  show "ikey_ok (InternalKeyComparator_FindShortSuccessor cmp short_successor a)"
      "icmp a (InternalKeyComparator_FindShortSuccessor cmp short_successor a) \<le> 0"
    using isucc_ge [OF o] by auto
qed

end

interpretation ikey: comparator "InternalKeyComparator_Compare Slice_compare"
    "InternalKeyComparator_FindShortestSeparator Slice_compare Bytewise_FindShortestSeparator"
    "InternalKeyComparator_FindShortSuccessor Slice_compare Bytewise_FindShortSuccessor"
    "comparator.ikey_ok (\<lambda>_. True)"
  by (rule bytewise.internal_comparator)

lemma unat_type_code: "unat (type_code t) < 2 ^ 8"
  by (cases t) simp_all

lemma unat_Pack: "s \<le> kMaxSequenceNumber \<Longrightarrow> unat (PackSequenceAndType s t) = unat (type_code t) + unat s * 2 ^ 8"
proof -
  assume "s \<le> kMaxSequenceNumber"
  then have "unat s < 2 ^ 56" by (simp add: kMaxSequenceNumber_def word_le_nat_alt)
  then have "unat s * 2 ^ 8 < 2 ^ LENGTH(64)" by simp
  then show ?thesis
    using unat_or_push [OF unat_type_code [of t], of s] by (simp only: PackSequenceAndType_def or.commute)
qed

lemma Pack_less_iff:
  assumes "s \<le> kMaxSequenceNumber" and "s' \<le> kMaxSequenceNumber"
  shows "PackSequenceAndType s t < PackSequenceAndType s' t' \<longleftrightarrow> s < s' \<or> s = s' \<and> type_code t < type_code t'"
proof -
  have "unat (type_code t) < 256" "unat (type_code t') < 256" using unat_type_code [of t] unat_type_code [of t'] by simp_all
  then show ?thesis
    unfolding word_less_nat_alt unat_Pack [OF assms(1)] unat_Pack [OF assms(2)] by (auto simp: word_unat_eq_iff)
qed

lemma AppendInternalKey_parts [simp]:
  "ExtractUserKey (AppendInternalKey [] k) = user_key k"
  "key_num (AppendInternalKey [] k) = PackSequenceAndType (sequence k) (ik_type k)"
  "bytewise.ikey_ok (AppendInternalKey [] k)"
  by (simp_all add: AppendInternalKey_def PutFixed64_def bytewise.ikey_ok_def)

lemma Slice_compare_less: "Slice_compare a b < 0 \<longleftrightarrow> a < b"
  by (simp add: Slice_compare_lex)

section \<open>Properties\<close>

text \<open>
  C25. Internal keys survive serialisation: parsing what \<open>AppendInternalKey\<close> writes gives the key back for
  every sequence number of 56 bits, and a byte string that parses is exactly what its parts serialise
  to, so that no two internal keys share a serialisation.
\<close>

theorem internal_key_roundtrip:
  assumes "sequence k \<le> kMaxSequenceNumber" and "ParseInternalKey s = Some r"
  shows "ParseInternalKey (AppendInternalKey [] k) = Some k
    \<and> length (AppendInternalKey [] k) = InternalKeyEncodingLength k \<and> AppendInternalKey [] r = s"
  using ParseInternalKey_Append [OF assms(1)] AppendInternalKey_Parse [OF assms(2)]
  by (simp add: AppendInternalKey_def PutFixed64_def InternalKeyEncodingLength_def)

theorem internal_key_roundtrip_witness:
  "\<exists>r. ParseInternalKey [7, 1, 5, 0, 0, 0, 0, 0, 0] = Some r \<and> AppendInternalKey [] r = [7, 1, 5, 0, 0, 0, 0, 0, 0]"
proof -
  let ?s = "[7, 1, 5, 0, 0, 0, 0, 0, 0] :: bytes"
  let ?k = "\<lparr>user_key = [7], sequence = 5, ik_type = kTypeValue\<rparr>"
  have k: "sequence ?k \<le> kMaxSequenceNumber" by (simp add: kMaxSequenceNumber_def)
  obtain r where r: "ParseInternalKey ?s = Some r"
    by (simp add: ParseInternalKey_def key_num_def DecodeFixed64_def type_of_code_def)
  from internal_key_roundtrip [OF k r] r show ?thesis by blast
qed

text \<open>
  C23. The order of internal keys is the documented one: ascending user keys in bytewise order, then
  descending sequence numbers, then descending types.
\<close>

theorem internal_key_order:
  assumes "sequence a \<le> kMaxSequenceNumber" and "sequence b \<le> kMaxSequenceNumber"
  shows "(InternalKeyComparator_Compare Slice_compare (AppendInternalKey [] a) (AppendInternalKey [] b) < 0) =
    (user_key a < user_key b \<or> user_key a = user_key b \<and>
       (sequence b < sequence a \<or> sequence b = sequence a \<and> type_code (ik_type b) < type_code (ik_type a)))"
  unfolding bytewise.icmp_less_iff [OF AppendInternalKey_parts(3) AppendInternalKey_parts(3)]
  by (simp add: Pack_less_iff [OF assms(2,1)] Slice_compare_less)

theorem internal_key_order_witness:
  "InternalKeyComparator_Compare Slice_compare
     (AppendInternalKey [] \<lparr>user_key = [7], sequence = 9, ik_type = kTypeValue\<rparr>)
     (AppendInternalKey [] \<lparr>user_key = [7], sequence = 5, ik_type = kTypeValue\<rparr>) < 0"
  using internal_key_order [of "\<lparr>user_key = [7], sequence = 9, ik_type = kTypeValue\<rparr>" "\<lparr>user_key = [7], sequence = 5, ik_type = kTypeValue\<rparr>"]
  by (simp add: kMaxSequenceNumber_def)

text \<open>
  C24. The separators that tables put between blocks are correct for internal keys: for \<open>start\<close> before
  \<open>limit\<close> the shortened key is at least \<open>start\<close> and still before \<open>limit\<close>, and the short successor of a key is
  not smaller than the key; both are internal keys again.
\<close>

theorem internal_separator:
  assumes "8 \<le> length start" and "8 \<le> length limit" and "InternalKeyComparator_Compare Slice_compare start limit < 0"
  defines "sep \<equiv> InternalKeyComparator_FindShortestSeparator Slice_compare Bytewise_FindShortestSeparator start limit"
    and "suc \<equiv> InternalKeyComparator_FindShortSuccessor Slice_compare Bytewise_FindShortSuccessor start"
  shows "InternalKeyComparator_Compare Slice_compare start sep \<le> 0 \<and> InternalKeyComparator_Compare Slice_compare sep limit < 0
    \<and> InternalKeyComparator_Compare Slice_compare start suc \<le> 0 \<and> 8 \<le> length sep \<and> 8 \<le> length suc"
  using bytewise.isep_between [of start limit] bytewise.isucc_ge [of start] assms by (simp add: bytewise.ikey_ok_def)

theorem internal_separator_witness:
  "let start = [1, 2, 3, 1, 5, 0, 0, 0, 0, 0, 0]; limit = [1, 9, 1, 5, 0, 0, 0, 0, 0, 0];
       sep = InternalKeyComparator_FindShortestSeparator Slice_compare Bytewise_FindShortestSeparator start limit
   in InternalKeyComparator_Compare Slice_compare start sep \<le> 0 \<and> InternalKeyComparator_Compare Slice_compare sep limit < 0"
proof -
  have "InternalKeyComparator_Compare Slice_compare [1, 2, 3, 1, 5, 0, 0, 0, 0, 0, 0] [1, 9, 1, 5, 0, 0, 0, 0, 0, 0] < 0"
    by (simp add: InternalKeyComparator_Compare_def ExtractUserKey_def Slice_compare_def Let_def)
  from internal_separator [OF _ _ this] show ?thesis by (simp add: Let_def)
qed

text \<open>
  C22. A lookup key fits the space its constructor reserves, contains the user key and the internal key
  it stands for, and sorts at or before an entry for its user key exactly when the entry is visible at
  its sequence number.
\<close>

theorem LookupKey_seeks_snapshot:
  assumes "s \<le> kMaxSequenceNumber" and "sequence e \<le> kMaxSequenceNumber" and "user_key e = u" and "length u + 8 < 2 ^ 32"
  defines "k \<equiv> LookupKey_new u s"
  shows "length (lk_buf k) \<le> lk_needed k \<and> lk_user_key k = u
    \<and> ParseInternalKey (lk_internal_key k) = Some \<lparr>user_key = u, sequence = s, ik_type = kValueTypeForSeek\<rparr>
    \<and> GetLengthPrefixedSlice (memtable_key k) = (Some (lk_internal_key k), [])
    \<and> (InternalKeyComparator_Compare Slice_compare (lk_internal_key k) (AppendInternalKey [] e) \<le> 0 \<longleftrightarrow> sequence e \<le> s)"
proof -
  let ?q = "\<lparr>user_key = u, sequence = s, ik_type = kValueTypeForSeek\<rparr>"
  have ik: "lk_internal_key k = AppendInternalKey [] ?q"
    by (simp add: k_def LookupKey_new_def lk_internal_key_def AppendInternalKey_def PutFixed64_def Let_def)
  have "length (lk_buf k) \<le> lk_needed k"
    using VarintLength_length_core(1) [of "of_nat (length u + 8)"] by (simp add: k_def LookupKey_new_def Let_def)
  moreover have "lk_user_key k = u" by (simp add: k_def LookupKey_new_def lk_user_key_def Let_def)
  moreover have "GetLengthPrefixedSlice (memtable_key k) = (Some (lk_internal_key k), [])"
    using GetLengthPrefixedSlice_Put(1) [of "lk_internal_key k" "[]"] assms(4)
    by (simp add: k_def memtable_key_def LookupKey_new_def lk_internal_key_def Let_def)
  moreover have "ParseInternalKey (lk_internal_key k) = Some ?q"
    unfolding ik using assms(1) by (intro ParseInternalKey_Append) simp
  moreover have "InternalKeyComparator_Compare Slice_compare (lk_internal_key k) (AppendInternalKey [] e) \<le> 0 \<longleftrightarrow> sequence e \<le> s"
  proof -
    have "0 < InternalKeyComparator_Compare Slice_compare (lk_internal_key k) (AppendInternalKey [] e)
        \<longleftrightarrow> PackSequenceAndType s kValueTypeForSeek < PackSequenceAndType (sequence e) (ik_type e)"
      unfolding ik bytewise.icmp_greater_iff [OF AppendInternalKey_parts(3) AppendInternalKey_parts(3)]
      using assms(3) by (simp add: Slice_compare_lex)
    also have "\<dots> \<longleftrightarrow> s < sequence e"
      using Pack_less_iff [OF assms(1,2)] by (cases "ik_type e") (auto simp: kValueTypeForSeek_def)
    finally show ?thesis by (simp add: linorder_not_less [symmetric])
  qed
  ultimately show ?thesis by blast
qed

theorem LookupKey_seeks_snapshot_witness:
  "let k = LookupKey_new [7] 9; e = \<lparr>user_key = [7], sequence = 5, ik_type = kTypeValue\<rparr>
   in lk_user_key k = [7] \<and> InternalKeyComparator_Compare Slice_compare (lk_internal_key k) (AppendInternalKey [] e) \<le> 0"
  using LookupKey_seeks_snapshot [of 9 "\<lparr>user_key = [7], sequence = 5, ik_type = kTypeValue\<rparr>" "[7]"]
  by (simp add: kMaxSequenceNumber_def Let_def)

end
