(* ===== verification/Statuses.thy ===== *)
theory Statuses
  imports Coding
begin

text \<open>
  \<open>Status\<close> (\<^verbatim>\<open>include/leveldb/status.h\<close>, \<^verbatim>\<open>util/status.cc\<close>): success is a null pointer, an error is a byte array
  that holds the length of the message, the code and the message.
\<close>

section \<open>Definitions\<close>

text \<open>The bytes of a string literal.\<close>

definition str :: "string \<Rightarrow> bytes" where
  "str s = map of_char s"

datatype Code = kOk | kNotFound | kCorruption | kNotSupported | kInvalidArgument | kIOError

fun code_byte :: "Code \<Rightarrow> u8" where
  "code_byte kOk = 0" | "code_byte kNotFound = 1" | "code_byte kCorruption = 2"
| "code_byte kNotSupported = 3" | "code_byte kInvalidArgument = 4" | "code_byte kIOError = 5"

type_synonym Status = "bytes option"

definition Status_OK :: Status where
  "Status_OK = None"

definition Status_new :: "Code \<Rightarrow> bytes \<Rightarrow> bytes \<Rightarrow> Status" where
  "Status_new c msg msg2 =
     (let len1 = of_nat (length msg) :: u32; len2 = of_nat (length msg2) :: u32;
          size = len1 + (if len2 \<noteq> 0 then 2 + len2 else 0)
      in Some (EncodeFixed32 size @ [code_byte c] @ msg @ (if len2 \<noteq> 0 then str '': '' @ msg2 else [])))"

definition NotFound :: "bytes \<Rightarrow> bytes \<Rightarrow> Status" where
  "NotFound = Status_new kNotFound"

definition Corruption :: "bytes \<Rightarrow> bytes \<Rightarrow> Status" where
  "Corruption = Status_new kCorruption"

definition NotSupported :: "bytes \<Rightarrow> bytes \<Rightarrow> Status" where
  "NotSupported = Status_new kNotSupported"

definition InvalidArgument :: "bytes \<Rightarrow> bytes \<Rightarrow> Status" where
  "InvalidArgument = Status_new kInvalidArgument"

definition IOError :: "bytes \<Rightarrow> bytes \<Rightarrow> Status" where
  "IOError = Status_new kIOError"

definition Status_ok :: "Status \<Rightarrow> bool" where
  "Status_ok s \<longleftrightarrow> s = None"

definition Status_code :: "Status \<Rightarrow> u8" where
  "Status_code s = (case s of None \<Rightarrow> 0 | Some st \<Rightarrow> st ! 4)"

definition IsNotFound :: "Status \<Rightarrow> bool" where
  "IsNotFound s \<longleftrightarrow> Status_code s = code_byte kNotFound"

definition IsCorruption :: "Status \<Rightarrow> bool" where
  "IsCorruption s \<longleftrightarrow> Status_code s = code_byte kCorruption"

definition IsIOError :: "Status \<Rightarrow> bool" where
  "IsIOError s \<longleftrightarrow> Status_code s = code_byte kIOError"

text \<open>The copy made by the copy constructor and by assignment: as many bytes as the length field says.\<close>

definition CopyState :: "bytes \<Rightarrow> bytes option" where
  "CopyState state = map_option (\<lambda>size. take (unat (size + 5)) state) (DecodeFixed32 state)"

fun code_text :: "u8 \<Rightarrow> bytes \<Rightarrow> bytes" where
  "code_text c unknown =
     (if c = 0 then str ''OK'' else if c = 1 then str ''NotFound: '' else if c = 2 then str ''Corruption: ''
      else if c = 3 then str ''Not implemented: '' else if c = 4 then str ''Invalid argument: ''
      else if c = 5 then str ''IO error: '' else unknown)"

text \<open>\<open>ToString\<close>; \<open>unknown\<close> is the text printed for a code outside the enumeration.\<close>

definition Status_ToString :: "bytes \<Rightarrow> Status \<Rightarrow> bytes" where
  "Status_ToString unknown s =
     (case s of None \<Rightarrow> str ''OK''
      | Some st \<Rightarrow> code_text (Status_code s) unknown
          @ (case DecodeFixed32 st of None \<Rightarrow> [] | Some len \<Rightarrow> take (unat len) (drop 5 st)))"

section \<open>Facts\<close>

lemmas error_defs = NotFound_def Corruption_def NotSupported_def InvalidArgument_def IOError_def

lemma Status_new_not_ok [simp]: "\<not> Status_ok (Status_new c m m2)" "Status_ok Status_OK"
  by (simp_all add: Status_ok_def Status_new_def Status_OK_def Let_def)

lemma Corruption_not_ok [simp]: "\<not> Status_ok (Corruption m m2)" "Corruption m m2 \<noteq> Status_OK" "Corruption m m2 \<noteq> None"
  by (simp_all add: Corruption_def Status_new_def Status_OK_def Status_ok_def Let_def)

lemma EncodeFixed32_nth_4: "(EncodeFixed32 v @ b # p) ! 4 = b"
  by (simp add: nth_append)

lemma Status_code_new [simp]: "Status_code (Status_new c m m2) = code_byte c"
  by (simp add: Status_code_def Status_new_def Let_def EncodeFixed32_nth_4)

lemma str_length [simp]: "length (str s) = length s"
  by (simp add: str_def)

lemma Status_new_size:
  assumes "length m + length m2 + 7 < 2 ^ 32"
  shows "unat (of_nat (length m) + (if (of_nat (length m2) :: u32) \<noteq> 0 then 2 + of_nat (length m2) else 0) :: u32)
    = length (m @ (if m2 \<noteq> [] then str '': '' @ m2 else []))"
    and "(of_nat (length m2) :: u32) \<noteq> 0 \<longleftrightarrow> m2 \<noteq> []"
proof -
  have l: "unat (of_nat (length m2) :: u32) = length m2" "unat (of_nat (length m) :: u32) = length m"
    using assms by (simp_all add: unat_of_nat)
  show e: "(of_nat (length m2) :: u32) \<noteq> 0 \<longleftrightarrow> m2 \<noteq> []" using l(1) by (auto simp: unat_eq_zero [symmetric])
  show "unat (of_nat (length m) + (if (of_nat (length m2) :: u32) \<noteq> 0 then 2 + of_nat (length m2) else 0) :: u32)
    = length (m @ (if m2 \<noteq> [] then str '': '' @ m2 else []))"
    unfolding e using assms by (simp add: unat_word_ariths unat_of_nat)
qed

text \<open>
  C30. An error status keeps its code and its message: it is never taken for success, the predicates
  recognise exactly their code, its text is the code's text followed by both messages, and copying it
  changes nothing. Messages together stay below 4 GiB.
\<close>

theorem status_roundtrip:
  assumes "length m + length m2 + 7 < 2 ^ 32" and "c \<noteq> kOk"
  shows "\<not> Status_ok (Status_new c m m2) \<and> (IsNotFound (Status_new c m m2) \<longleftrightarrow> c = kNotFound)
    \<and> (IsCorruption (Status_new c m m2) \<longleftrightarrow> c = kCorruption) \<and> (IsIOError (Status_new c m m2) \<longleftrightarrow> c = kIOError)
    \<and> Status_ToString u (Status_new c m m2) = code_text (code_byte c) u @ m @ (if m2 \<noteq> [] then str '': '' @ m2 else [])
    \<and> CopyState (the (Status_new c m m2)) = Status_new c m m2"
proof -
  let ?size = "of_nat (length m) + (if (of_nat (length m2) :: u32) \<noteq> 0 then 2 + of_nat (length m2) else 0) :: u32"
  let ?msg = "m @ (if m2 \<noteq> [] then str '': '' @ m2 else [])"
  note sz = Status_new_size [OF assms(1)]
  have new: "Status_new c m m2 = Some (EncodeFixed32 ?size @ code_byte c # ?msg)"
    using sz(2) by (simp add: Status_new_def Let_def)
  have five: "unat (?size + 5) = length ?msg + 5"
    using sz(1) assms(1) by (simp add: unat_word_ariths)
  have "CopyState (the (Status_new c m m2)) = Status_new c m m2"
    unfolding new using five by (simp add: CopyState_def)
  moreover have "Status_ToString u (Status_new c m m2) = code_text (code_byte c) u @ ?msg"
    using sz(1) Status_code_new [of c m m2] by (simp add: Status_ToString_def new del: code_text.simps)
  moreover have "(code_byte c = code_byte d) = (c = d)" for d by (cases c; cases d) simp_all
  ultimately show ?thesis by (simp add: IsNotFound_def IsCorruption_def IsIOError_def del: code_text.simps code_byte.simps)
qed

theorem status_roundtrip_witness:
  "Status_ToString [] (Corruption (str ''VersionEdit'') (str ''unknown tag'')) = str ''Corruption: VersionEdit: unknown tag''"
  using status_roundtrip [of "str ''VersionEdit''" "str ''unknown tag''" kCorruption "[]"]
  by (simp add: Corruption_def str_def)

end
