(* ===== verification/Write_Batch.thy ===== *)
theory Write_Batch
  imports Statuses Dbformat
begin

text \<open>
  \<open>WriteBatch\<close> (\<^verbatim>\<open>db/write_batch.cc\<close>): a batch is one byte string, a header with a sequence number and a
  count followed by the records. The handler that \<open>Iterate\<close> calls is a pair of state transformers.
\<close>

section \<open>Definitions\<close>

definition kHeader :: nat where
  "kHeader = 12"

definition WriteBatch_Clear :: bytes where
  "WriteBatch_Clear = replicate kHeader 0"

text \<open>The fields of the header; a batch shorter than the header would be read out of bounds.\<close>

definition Batch_Count :: "bytes \<Rightarrow> u32" where
  "Batch_Count rep = (case DecodeFixed32 (drop 8 rep) of Some n \<Rightarrow> n | None \<Rightarrow> 0)"

definition Batch_SetCount :: "bytes \<Rightarrow> u32 \<Rightarrow> bytes" where
  "Batch_SetCount rep n = take 8 rep @ EncodeFixed32 n @ drop 12 rep"

definition Batch_Sequence :: "bytes \<Rightarrow> u64" where
  "Batch_Sequence rep = (case DecodeFixed64 rep of Some n \<Rightarrow> n | None \<Rightarrow> 0)"

definition Batch_SetSequence :: "bytes \<Rightarrow> u64 \<Rightarrow> bytes" where
  "Batch_SetSequence rep seq = EncodeFixed64 seq @ drop 8 rep"

definition WriteBatch_Put :: "bytes \<Rightarrow> bytes \<Rightarrow> bytes \<Rightarrow> bytes" where
  "WriteBatch_Put key val rep =
     (let r1 = Batch_SetCount rep (Batch_Count rep + 1); r2 = r1 @ [1]
      in PutLengthPrefixedSlice (PutLengthPrefixedSlice r2 key) val)"

definition WriteBatch_Delete :: "bytes \<Rightarrow> bytes \<Rightarrow> bytes" where
  "WriteBatch_Delete key rep =
     (let r1 = Batch_SetCount rep (Batch_Count rep + 1); r2 = r1 @ [0]
      in PutLengthPrefixedSlice r2 key)"

definition Batch_Append :: "bytes \<Rightarrow> bytes \<Rightarrow> bytes" where
  "Batch_Append dst src = Batch_SetCount dst (Batch_Count dst + Batch_Count src) @ drop kHeader src"

lemma GetLengthPrefixedSlice_shorter: "(Some s, q) = GetLengthPrefixedSlice p \<Longrightarrow> length q < length p"
  using GetLengthPrefixedSlice_suffix [of p s q] by auto

text \<open>
  The loop of \<open>Iterate\<close>: the error it stops with, or the number of records, with the handler's state.
\<close>

function Iterate_loop ::
    "(bytes \<Rightarrow> bytes \<Rightarrow> 's \<Rightarrow> 's) \<Rightarrow> (bytes \<Rightarrow> 's \<Rightarrow> 's) \<Rightarrow> bytes \<Rightarrow> nat \<Rightarrow> 's \<Rightarrow> (Status + nat) \<times> 's" where
  "Iterate_loop hput hdel [] found s = (Inr found, s)"
| "Iterate_loop hput hdel (tag # input) found s =
     (if tag = 1 then
        (case GetLengthPrefixedSlice input of
           (Some key, i1) \<Rightarrow>
             (case GetLengthPrefixedSlice i1 of
                (Some val, i2) \<Rightarrow> Iterate_loop hput hdel i2 (found + 1) (hput key val s)
              | (None, i2) \<Rightarrow> (Inl (Corruption (str ''bad WriteBatch Put'') []), s))
         | (None, i1) \<Rightarrow> (Inl (Corruption (str ''bad WriteBatch Put'') []), s))
      else if tag = 0 then
        (case GetLengthPrefixedSlice input of
           (Some key, i1) \<Rightarrow> Iterate_loop hput hdel i1 (found + 1) (hdel key s)
         | (None, i1) \<Rightarrow> (Inl (Corruption (str ''bad WriteBatch Delete'') []), s))
      else (Inl (Corruption (str ''unknown WriteBatch tag'') []), s))"
  by pat_completeness auto
termination
  by (relation "measure (\<lambda>(hput, hdel, input, found, s). length input)")
     (auto dest!: GetLengthPrefixedSlice_shorter)

definition WriteBatch_Iterate ::
    "(bytes \<Rightarrow> bytes \<Rightarrow> 's \<Rightarrow> 's) \<Rightarrow> (bytes \<Rightarrow> 's \<Rightarrow> 's) \<Rightarrow> bytes \<Rightarrow> 's \<Rightarrow> Status \<times> 's" where
  "WriteBatch_Iterate hput hdel rep s =
     (if length rep < kHeader then (Corruption (str ''malformed WriteBatch (too small)'') [], s)
      else case Iterate_loop hput hdel (drop kHeader rep) 0 s of
             (Inl st, s') \<Rightarrow> (st, s')
           | (Inr found, s') \<Rightarrow>
               if of_nat found \<noteq> Batch_Count rep then (Corruption (str ''WriteBatch has wrong count'') [], s')
               else (Status_OK, s'))"

text \<open>\<open>MemTableInserter\<close> and \<open>InsertInto\<close>; \<open>add\<close> is \<open>MemTable::Add\<close>.\<close>

definition Inserter_Put ::
    "(u64 \<Rightarrow> ValueType \<Rightarrow> bytes \<Rightarrow> bytes \<Rightarrow> 'm \<Rightarrow> 'm) \<Rightarrow> bytes \<Rightarrow> bytes \<Rightarrow> u64 \<times> 'm \<Rightarrow> u64 \<times> 'm" where
  "Inserter_Put add key val = (\<lambda>(seq, mem). (seq + 1, add seq kTypeValue key val mem))"

definition Inserter_Delete ::
    "(u64 \<Rightarrow> ValueType \<Rightarrow> bytes \<Rightarrow> bytes \<Rightarrow> 'm \<Rightarrow> 'm) \<Rightarrow> bytes \<Rightarrow> u64 \<times> 'm \<Rightarrow> u64 \<times> 'm" where
  "Inserter_Delete add key = (\<lambda>(seq, mem). (seq + 1, add seq kTypeDeletion key [] mem))"

definition InsertInto ::
    "(u64 \<Rightarrow> ValueType \<Rightarrow> bytes \<Rightarrow> bytes \<Rightarrow> 'm \<Rightarrow> 'm) \<Rightarrow> bytes \<Rightarrow> 'm \<Rightarrow> Status \<times> 'm" where
  "InsertInto add b mem =
     (case WriteBatch_Iterate (Inserter_Put add) (Inserter_Delete add) b (Batch_Sequence b, mem) of
        (st, seq, mem') \<Rightarrow> (st, mem'))"

section \<open>Operations of a batch\<close>

datatype batch_op = BPut bytes bytes | BDelete bytes

fun batch_op_apply :: "batch_op \<Rightarrow> bytes \<Rightarrow> bytes" where
  "batch_op_apply (BPut k v) rep = WriteBatch_Put k v rep"
| "batch_op_apply (BDelete k) rep = WriteBatch_Delete k rep"

fun batch_op_bytes :: "batch_op \<Rightarrow> bytes" where
  "batch_op_bytes (BPut k v) = 1 # EncodeVarint32 (of_nat (length k)) @ k @ EncodeVarint32 (of_nat (length v)) @ v"
| "batch_op_bytes (BDelete k) = 0 # EncodeVarint32 (of_nat (length k)) @ k"

fun batch_op_ok :: "batch_op \<Rightarrow> bool" where
  "batch_op_ok (BPut k v) \<longleftrightarrow> length k < 2 ^ 32 \<and> length v < 2 ^ 32"
| "batch_op_ok (BDelete k) \<longleftrightarrow> length k < 2 ^ 32"

fun batch_op_handle :: "(bytes \<Rightarrow> bytes \<Rightarrow> 's \<Rightarrow> 's) \<Rightarrow> (bytes \<Rightarrow> 's \<Rightarrow> 's) \<Rightarrow> batch_op \<Rightarrow> 's \<Rightarrow> 's" where
  "batch_op_handle hput hdel (BPut k v) = hput k v"
| "batch_op_handle hput hdel (BDelete k) = hdel k"

text \<open>A batch that holds given operations under a given sequence number.\<close>

definition batch_of :: "u64 \<Rightarrow> batch_op list \<Rightarrow> bytes" where
  "batch_of seq ops = EncodeFixed64 seq @ EncodeFixed32 (of_nat (length ops)) @ concat (map batch_op_bytes ops)"

lemma EncodeFixed64_0: "EncodeFixed64 0 = replicate 8 0" "EncodeFixed32 0 = replicate 4 0"
  by (simp_all add: EncodeFixed64_def EncodeFixed32_def numeral_eq_Suc)

lemma batch_of_Clear: "WriteBatch_Clear = batch_of 0 []"
  by (simp add: WriteBatch_Clear_def batch_of_def kHeader_def EncodeFixed64_0 flip: replicate_add)

lemma batch_of_fields [simp]:
  "Batch_Count (batch_of seq ops) = of_nat (length ops)"
  "Batch_Sequence (batch_of seq ops) = seq"
  "Batch_SetSequence (batch_of seq ops) seq' = batch_of seq' ops"
  "drop kHeader (batch_of seq ops) = concat (map batch_op_bytes ops)"
  "kHeader \<le> length (batch_of seq ops)"
  by (simp_all add: Batch_Count_def Batch_Sequence_def Batch_SetSequence_def batch_of_def kHeader_def)

lemma batch_of_SetCount:
  "Batch_SetCount (batch_of seq ops) n = EncodeFixed64 seq @ EncodeFixed32 n @ concat (map batch_op_bytes ops)"
  by (simp add: Batch_SetCount_def batch_of_def)

lemma batch_of_apply: "batch_op_apply x (batch_of seq ops) = batch_of seq (ops @ [x])"
  by (cases x) (simp_all add: WriteBatch_Put_def WriteBatch_Delete_def batch_of_SetCount Let_def PutLengthPrefixedSlice_def
      PutVarint32_def, simp_all add: batch_of_def add.commute)

lemma batch_of_fold: "fold batch_op_apply xs (batch_of seq ops) = batch_of seq (ops @ xs)"
  by (induction xs arbitrary: ops) (simp_all add: batch_of_apply)

lemma batch_of_Append: "Batch_Append (batch_of seq ops) (batch_of seq' ops') = batch_of seq (ops @ ops')"
  by (simp add: Batch_Append_def batch_of_SetCount) (simp add: batch_of_def)

lemma Iterate_loop_ops:
  "list_all batch_op_ok ops \<Longrightarrow> Iterate_loop hput hdel (concat (map batch_op_bytes ops)) n s
     = (Inr (n + length ops), fold (batch_op_handle hput hdel) ops s)"
proof (induction ops arbitrary: n s)
  case (Cons x ops)
  then show ?case by (cases x) simp_all
qed simp

lemma Iterate_batch_of:
  "list_all batch_op_ok ops \<Longrightarrow> WriteBatch_Iterate hput hdel (batch_of seq ops) s = (Status_OK, fold (batch_op_handle hput hdel) ops s)"
  using Iterate_loop_ops [of ops hput hdel 0 s] by (simp add: WriteBatch_Iterate_def linorder_not_less)

section \<open>Properties\<close>



end
