(* ===== verification/Version_Edit.thy ===== *)
theory Version_Edit
  imports Statuses Dbformat "HOL-Library.Product_Lexorder"
begin

text \<open>
  \<open>VersionEdit\<close> (\<^verbatim>\<open>db/version_edit.h\<close>, \<^verbatim>\<open>db/version_edit.cc\<close>): the records of the manifest. The set of deleted
  files is the sorted list a \<^verbatim>\<open>std::set\<close> is iterated as.
\<close>

section \<open>Definitions\<close>

definition kNumLevels :: nat where
  "kNumLevels = 7"

record FileMetaData =
  refs :: int
  allowed_seeks :: int
  fm_number :: u64
  file_size :: u64
  smallest :: bytes
  largest :: bytes

text \<open>The constructor leaves the file number unset; it is 0 here.\<close>

definition FileMetaData_new :: FileMetaData where
  "FileMetaData_new = \<lparr>refs = 0, allowed_seeks = 2 ^ 30, fm_number = 0, file_size = 0, smallest = [], largest = []\<rparr>"

record VersionEdit =
  ve_comparator :: bytes
  log_number :: u64
  prev_log_number :: u64
  next_file_number :: u64
  last_sequence :: u64
  has_comparator :: bool
  has_log_number :: bool
  has_prev_log_number :: bool
  has_next_file_number :: bool
  has_last_sequence :: bool
  compact_pointers :: "(nat \<times> bytes) list"
  deleted_files :: "(nat \<times> u64) list"
  new_files :: "(nat \<times> FileMetaData) list"

definition VersionEdit_Clear :: "VersionEdit \<Rightarrow> VersionEdit" where
  "VersionEdit_Clear ed = ed\<lparr>ve_comparator := [], log_number := 0, prev_log_number := 0, last_sequence := 0,
     next_file_number := 0, has_comparator := False, has_log_number := False, has_prev_log_number := False,
     has_next_file_number := False, has_last_sequence := False, deleted_files := [], new_files := []\<rparr>"

definition VersionEdit_new :: VersionEdit where
  "VersionEdit_new = \<lparr>ve_comparator = [], log_number = 0, prev_log_number = 0, next_file_number = 0, last_sequence = 0,
     has_comparator = False, has_log_number = False, has_prev_log_number = False, has_next_file_number = False,
     has_last_sequence = False, compact_pointers = [], deleted_files = [], new_files = []\<rparr>"

definition SetComparatorName :: "bytes \<Rightarrow> VersionEdit \<Rightarrow> VersionEdit" where
  "SetComparatorName name ed = ed\<lparr>has_comparator := True, ve_comparator := name\<rparr>"

definition SetLogNumber :: "u64 \<Rightarrow> VersionEdit \<Rightarrow> VersionEdit" where
  "SetLogNumber num ed = ed\<lparr>has_log_number := True, log_number := num\<rparr>"

definition SetPrevLogNumber :: "u64 \<Rightarrow> VersionEdit \<Rightarrow> VersionEdit" where
  "SetPrevLogNumber num ed = ed\<lparr>has_prev_log_number := True, prev_log_number := num\<rparr>"

definition SetNextFile :: "u64 \<Rightarrow> VersionEdit \<Rightarrow> VersionEdit" where
  "SetNextFile num ed = ed\<lparr>has_next_file_number := True, next_file_number := num\<rparr>"

definition SetLastSequence :: "u64 \<Rightarrow> VersionEdit \<Rightarrow> VersionEdit" where
  "SetLastSequence seq ed = ed\<lparr>has_last_sequence := True, last_sequence := seq\<rparr>"

definition SetCompactPointer :: "nat \<Rightarrow> bytes \<Rightarrow> VersionEdit \<Rightarrow> VersionEdit" where
  "SetCompactPointer level key ed = ed\<lparr>compact_pointers := compact_pointers ed @ [(level, key)]\<rparr>"

definition AddFile :: "nat \<Rightarrow> u64 \<Rightarrow> u64 \<Rightarrow> bytes \<Rightarrow> bytes \<Rightarrow> VersionEdit \<Rightarrow> VersionEdit" where
  "AddFile level file sz small large ed =
     ed\<lparr>new_files := new_files ed
          @ [(level, FileMetaData_new\<lparr>fm_number := file, file_size := sz, smallest := small, largest := large\<rparr>)]\<rparr>"

definition DeleteFile :: "nat \<Rightarrow> u64 \<Rightarrow> VersionEdit \<Rightarrow> VersionEdit" where
  "DeleteFile level file ed = ed\<lparr>deleted_files := insort_insert (level, file) (deleted_files ed)\<rparr>"

subsection \<open>Encoding\<close>

definition put_compact_pointer :: "nat \<times> bytes \<Rightarrow> bytes \<Rightarrow> bytes" where
  "put_compact_pointer p dst = PutLengthPrefixedSlice (PutVarint32 (PutVarint32 dst 5) (of_nat (fst p))) (snd p)"

definition put_deleted_file :: "nat \<times> u64 \<Rightarrow> bytes \<Rightarrow> bytes" where
  "put_deleted_file p dst = PutVarint64 (PutVarint32 (PutVarint32 dst 6) (of_nat (fst p))) (snd p)"

definition put_new_file :: "nat \<times> FileMetaData \<Rightarrow> bytes \<Rightarrow> bytes" where
  "put_new_file p dst =
     (let f = snd p;
          d1 = PutVarint32 (PutVarint32 dst 7) (of_nat (fst p));
          d2 = PutVarint64 (PutVarint64 d1 (fm_number f)) (file_size f)
      in PutLengthPrefixedSlice (PutLengthPrefixedSlice d2 (smallest f)) (largest f))"

definition EncodeTo :: "VersionEdit \<Rightarrow> bytes \<Rightarrow> bytes" where
  "EncodeTo ed dst =
     (let d1 = (if has_comparator ed then PutLengthPrefixedSlice (PutVarint32 dst 1) (ve_comparator ed) else dst);
          d2 = (if has_log_number ed then PutVarint64 (PutVarint32 d1 2) (log_number ed) else d1);
          d3 = (if has_prev_log_number ed then PutVarint64 (PutVarint32 d2 9) (prev_log_number ed) else d2);
          d4 = (if has_next_file_number ed then PutVarint64 (PutVarint32 d3 3) (next_file_number ed) else d3);
          d5 = (if has_last_sequence ed then PutVarint64 (PutVarint32 d4 4) (last_sequence ed) else d4);
          d6 = fold put_compact_pointer (compact_pointers ed) d5;
          d7 = fold put_deleted_file (deleted_files ed) d6
      in fold put_new_file (new_files ed) d7)"

subsection \<open>Decoding\<close>

definition GetLevel :: "bytes \<Rightarrow> nat option \<times> bytes" where
  "GetLevel input = (case GetVarint32 input of
     (Some v, i) \<Rightarrow> (if unat v < kNumLevels then Some (unat v) else None, i) | (None, i) \<Rightarrow> (None, i))"

text \<open>
  One iteration of the decoding loop after the tag was read: the error message, if any, the rest of the
  input and the edit.
\<close>

fun DecodeField :: "u32 \<Rightarrow> bytes \<Rightarrow> VersionEdit \<Rightarrow> bytes option \<times> bytes \<times> VersionEdit" where
  "DecodeField tag input ed =
     (if tag = 1 then
        (case GetLengthPrefixedSlice input of
           (Some s, i) \<Rightarrow> (None, i, ed\<lparr>ve_comparator := s, has_comparator := True\<rparr>)
         | (None, i) \<Rightarrow> (Some (str ''comparator name''), i, ed))
      else if tag = 2 then
        (case GetVarint64 input of
           (Some n, i) \<Rightarrow> (None, i, ed\<lparr>log_number := n, has_log_number := True\<rparr>)
         | (None, i) \<Rightarrow> (Some (str ''log number''), i, ed))
      else if tag = 9 then
        (case GetVarint64 input of
           (Some n, i) \<Rightarrow> (None, i, ed\<lparr>prev_log_number := n, has_prev_log_number := True\<rparr>)
         | (None, i) \<Rightarrow> (Some (str ''previous log number''), i, ed))
      else if tag = 3 then
        (case GetVarint64 input of
           (Some n, i) \<Rightarrow> (None, i, ed\<lparr>next_file_number := n, has_next_file_number := True\<rparr>)
         | (None, i) \<Rightarrow> (Some (str ''next file number''), i, ed))
      else if tag = 4 then
        (case GetVarint64 input of
           (Some n, i) \<Rightarrow> (None, i, ed\<lparr>last_sequence := n, has_last_sequence := True\<rparr>)
         | (None, i) \<Rightarrow> (Some (str ''last sequence number''), i, ed))
      else if tag = 5 then
        (case GetLevel input of
           (None, i) \<Rightarrow> (Some (str ''compaction pointer''), i, ed)
         | (Some level, i) \<Rightarrow>
             (case GetLengthPrefixedSlice i of
                (None, i') \<Rightarrow> (Some (str ''compaction pointer''), i', ed)
              | (Some key, i') \<Rightarrow> (None, i', ed\<lparr>compact_pointers := compact_pointers ed @ [(level, key)]\<rparr>)))
      else if tag = 6 then
        (case GetLevel input of
           (None, i) \<Rightarrow> (Some (str ''deleted file''), i, ed)
         | (Some level, i) \<Rightarrow>
             (case GetVarint64 i of
                (None, i') \<Rightarrow> (Some (str ''deleted file''), i', ed)
              | (Some n, i') \<Rightarrow> (None, i', ed\<lparr>deleted_files := insort_insert (level, n) (deleted_files ed)\<rparr>)))
      else if tag = 7 then
        (case GetLevel input of
           (None, i) \<Rightarrow> (Some (str ''new-file entry''), i, ed)
         | (Some level, i) \<Rightarrow>
             (case GetVarint64 i of
                (None, i1) \<Rightarrow> (Some (str ''new-file entry''), i1, ed)
              | (Some n, i1) \<Rightarrow>
                  (case GetVarint64 i1 of
                     (None, i2) \<Rightarrow> (Some (str ''new-file entry''), i2, ed)
                   | (Some sz, i2) \<Rightarrow>
                       (case GetLengthPrefixedSlice i2 of
                          (None, i3) \<Rightarrow> (Some (str ''new-file entry''), i3, ed)
                        | (Some small, i3) \<Rightarrow>
                            (case GetLengthPrefixedSlice i3 of
                               (None, i4) \<Rightarrow> (Some (str ''new-file entry''), i4, ed)
                             | (Some large, i4) \<Rightarrow>
                                 (None, i4, ed\<lparr>new_files := new_files ed
                                    @ [(level, FileMetaData_new\<lparr>fm_number := n, file_size := sz,
                                                 smallest := small, largest := large\<rparr>)]\<rparr>))))))
      else (Some (str ''unknown tag''), input, ed))"

declare DecodeField.simps [simp del]

text \<open>A decoder of one item leaves at most what it was given.\<close>

lemma Get_length_le:
  "length (snd (GetVarint32 p)) \<le> length p" "length (snd (GetVarint64 p)) \<le> length p"
  "length (snd (GetLengthPrefixedSlice p)) \<le> length p" "length (snd (GetLevel p)) \<le> length p"
proof -
  show a: "length (snd (GetVarint32 p)) \<le> length p" for p
    using GetVarint32_suffix [of p] by (cases "GetVarint32 p"; cases "fst (GetVarint32 p)")
      (auto simp: GetVarint32_def split: option.splits)
  show "length (snd (GetVarint64 p)) \<le> length p"
    using GetVarint64_suffix [of p] by (cases "GetVarint64 p"; cases "fst (GetVarint64 p)")
      (auto simp: GetVarint64_def split: option.splits)
  show "length (snd (GetLengthPrefixedSlice p)) \<le> length p"
    using a [of p] by (auto simp: GetLengthPrefixedSlice_def split: prod.splits option.splits)
  show "length (snd (GetLevel p)) \<le> length p"
    using a [of p] by (auto simp: GetLevel_def split: prod.splits option.splits)
qed

lemma DecodeField_length: "length (fst (snd (DecodeField tag p ed))) \<le> length p"
proof -
  have a: "GetVarint64 p = (r, q) \<Longrightarrow> length q \<le> length p" "GetLengthPrefixedSlice p = (r', q) \<Longrightarrow> length q \<le> length p"
      "GetLevel p = (r'', q) \<Longrightarrow> length q \<le> length p" for p q r r' r''
    using Get_length_le [of p] by auto
  show ?thesis
    unfolding DecodeField.simps [of tag p ed]
    by (auto split: prod.splits option.splits dest!: a)
qed

function DecodeLoop :: "bytes \<Rightarrow> VersionEdit \<Rightarrow> bytes option \<times> bytes \<times> VersionEdit" where
  "DecodeLoop input ed =
     (case GetVarint32 input of
        (None, i) \<Rightarrow> (None, i, ed)
      | (Some tag, i) \<Rightarrow>
          (case DecodeField tag i ed of
             (Some msg, i', ed') \<Rightarrow> (Some msg, i', ed')
           | (None, i', ed') \<Rightarrow> DecodeLoop i' ed'))"
  by auto
termination
proof (relation "measure (\<lambda>(i, ed). length i)", goal_cases)
  case (2 input ed x i tag y z i' ed')
  have "length i < length input" using 2(1,2) GetVarint32_suffix [of input tag i] by auto
  moreover have "length i' \<le> length i" using 2(3-5) DecodeField_length [of tag i ed] by (metis fst_conv snd_conv)
  ultimately show ?case by simp
qed simp

declare DecodeLoop.simps [simp del]

definition DecodeFrom :: "bytes \<Rightarrow> VersionEdit \<Rightarrow> Status \<times> VersionEdit" where
  "DecodeFrom src ed0 =
     (case DecodeLoop src (VersionEdit_Clear ed0) of
        (msg, input, ed) \<Rightarrow>
          let msg' = (if msg = None \<and> input \<noteq> [] then Some (str ''invalid tag'') else msg)
          in (case msg' of None \<Rightarrow> (Status_OK, ed) | Some m \<Rightarrow> (Corruption (str ''VersionEdit'') m, ed)))"

section \<open>Round trip\<close>

text \<open>The encoding as a concatenation of fields.\<close>

definition slice_bytes :: "bytes \<Rightarrow> bytes" where
  "slice_bytes s = EncodeVarint32 (of_nat (length s)) @ s"

definition cp_bytes :: "nat \<times> bytes \<Rightarrow> bytes" where
  "cp_bytes p = EncodeVarint32 5 @ EncodeVarint32 (of_nat (fst p)) @ slice_bytes (snd p)"

definition df_bytes :: "nat \<times> u64 \<Rightarrow> bytes" where
  "df_bytes p = EncodeVarint32 6 @ EncodeVarint32 (of_nat (fst p)) @ EncodeVarint64 (snd p)"

definition nf_bytes :: "nat \<times> FileMetaData \<Rightarrow> bytes" where
  "nf_bytes p = EncodeVarint32 7 @ EncodeVarint32 (of_nat (fst p)) @ EncodeVarint64 (fm_number (snd p))
     @ EncodeVarint64 (file_size (snd p)) @ slice_bytes (smallest (snd p)) @ slice_bytes (largest (snd p))"

definition num_bytes :: "bool \<Rightarrow> u32 \<Rightarrow> u64 \<Rightarrow> bytes" where
  "num_bytes b tag n = (if b then EncodeVarint32 tag @ EncodeVarint64 n else [])"

lemmas put_defs = PutVarint32_def PutVarint64_def PutLengthPrefixedSlice_def

lemma insort_snoc: "\<forall>y\<in>set xs. y \<le> x \<Longrightarrow> x \<notin> set xs \<Longrightarrow> insort x xs = xs @ [x]"
  for x :: "'a::linorder"
  by (induction xs) auto

lemma fold_append: "(\<And>x d. f x d = d @ g x) \<Longrightarrow> fold f xs d = d @ concat (map g xs)"
  by (induction xs arbitrary: d) simp_all

lemma put_bytes:
  "put_compact_pointer x d = d @ cp_bytes x" "put_deleted_file y d = d @ df_bytes y" "put_new_file z d = d @ nf_bytes z"
  by (simp_all add: put_compact_pointer_def put_deleted_file_def put_new_file_def cp_bytes_def df_bytes_def nf_bytes_def
      slice_bytes_def put_defs Let_def)

lemma EncodeTo_bytes:
  "EncodeTo ed dst = dst @ (if has_comparator ed then EncodeVarint32 1 @ slice_bytes (ve_comparator ed) else [])
     @ num_bytes (has_log_number ed) 2 (log_number ed) @ num_bytes (has_prev_log_number ed) 9 (prev_log_number ed)
     @ num_bytes (has_next_file_number ed) 3 (next_file_number ed) @ num_bytes (has_last_sequence ed) 4 (last_sequence ed)
     @ concat (map cp_bytes (compact_pointers ed)) @ concat (map df_bytes (deleted_files ed)) @ concat (map nf_bytes (new_files ed))"
  by (simp add: EncodeTo_def Let_def put_defs num_bytes_def slice_bytes_def
      fold_append [of put_compact_pointer, OF put_bytes(1)] fold_append [of put_deleted_file, OF put_bytes(2)]
      fold_append [of put_new_file, OF put_bytes(3)])

text \<open>Levels in range, keys of moderate size, and new files as \<open>AddFile\<close> makes them.\<close>

definition file_ok :: "nat \<times> FileMetaData \<Rightarrow> bool" where
  "file_ok p \<longleftrightarrow> fst p < kNumLevels \<and> refs (snd p) = 0 \<and> allowed_seeks (snd p) = 2 ^ 30
     \<and> length (smallest (snd p)) < 2 ^ 32 \<and> length (largest (snd p)) < 2 ^ 32"

definition edit_ok :: "VersionEdit \<Rightarrow> bool" where
  "edit_ok ed \<longleftrightarrow> length (ve_comparator ed) < 2 ^ 32
     \<and> (\<not> has_comparator ed \<longrightarrow> ve_comparator ed = []) \<and> (\<not> has_log_number ed \<longrightarrow> log_number ed = 0)
     \<and> (\<not> has_prev_log_number ed \<longrightarrow> prev_log_number ed = 0) \<and> (\<not> has_next_file_number ed \<longrightarrow> next_file_number ed = 0)
     \<and> (\<not> has_last_sequence ed \<longrightarrow> last_sequence ed = 0)
     \<and> list_all (\<lambda>p. fst p < kNumLevels \<and> length (snd p) < 2 ^ 32) (compact_pointers ed)
     \<and> list_all (\<lambda>p. fst p < kNumLevels) (deleted_files ed) \<and> sorted (deleted_files ed) \<and> distinct (deleted_files ed)
     \<and> list_all file_ok (new_files ed)"

text \<open>Every operation keeps this.\<close>

lemma edit_ok_new: "edit_ok VersionEdit_new"
  by (simp add: edit_ok_def VersionEdit_new_def)

lemma edit_ok_ops:
  assumes "edit_ok ed"
  shows "length name < 2 ^ 32 \<Longrightarrow> edit_ok (SetComparatorName name ed)"
    and "edit_ok (SetLogNumber n ed)" and "edit_ok (SetPrevLogNumber n ed)" and "edit_ok (SetNextFile n ed)"
    and "edit_ok (SetLastSequence n ed)"
    and "level < kNumLevels \<Longrightarrow> length key < 2 ^ 32 \<Longrightarrow> edit_ok (SetCompactPointer level key ed)"
    and "level < kNumLevels \<Longrightarrow> length a < 2 ^ 32 \<Longrightarrow> length b < 2 ^ 32 \<Longrightarrow> edit_ok (AddFile level n s a b ed)"
    and "level < kNumLevels \<Longrightarrow> edit_ok (DeleteFile level n ed)"
  using assms
  by (auto simp: edit_ok_def SetComparatorName_def SetLogNumber_def SetPrevLogNumber_def SetNextFile_def SetLastSequence_def
      SetCompactPointer_def AddFile_def DeleteFile_def FileMetaData_new_def file_ok_def list_all_iff
      sorted_insort_insert distinct_insort_insert set_insort_insert)

lemma GetLevel_level [simp]: "l < kNumLevels \<Longrightarrow> GetLevel (EncodeVarint32 (of_nat l) @ p) = (Some l, p)"
  by (simp add: GetLevel_def kNumLevels_def unat_of_nat)

lemma GetLengthPrefixedSlice_slice [simp]: "length s < 2 ^ 32 \<Longrightarrow> GetLengthPrefixedSlice (slice_bytes s @ p) = (Some s, p)"
  by (simp add: slice_bytes_def)

lemma DecodeLoop_field:
  "DecodeField tag p ed = (None, q, ed') \<Longrightarrow> DecodeLoop (EncodeVarint32 tag @ p) ed = DecodeLoop q ed'"
  by (simp add: DecodeLoop.simps [of "EncodeVarint32 tag @ p"])

lemma DecodeLoop_comparator:
  assumes "length s < 2 ^ 32"
  shows "DecodeLoop ((if b then EncodeVarint32 1 @ slice_bytes s else []) @ p) ed
     = DecodeLoop p (if b then ed\<lparr>ve_comparator := s, has_comparator := True\<rparr> else ed)"
  using assms by (simp add: DecodeLoop_field DecodeField.simps)

lemma DecodeLoop_numbers:
  "DecodeLoop (num_bytes b 2 n @ p) ed = DecodeLoop p (if b then ed\<lparr>log_number := n, has_log_number := True\<rparr> else ed)"
  "DecodeLoop (num_bytes b 9 n @ p) ed = DecodeLoop p (if b then ed\<lparr>prev_log_number := n, has_prev_log_number := True\<rparr> else ed)"
  "DecodeLoop (num_bytes b 3 n @ p) ed = DecodeLoop p (if b then ed\<lparr>next_file_number := n, has_next_file_number := True\<rparr> else ed)"
  "DecodeLoop (num_bytes b 4 n @ p) ed = DecodeLoop p (if b then ed\<lparr>last_sequence := n, has_last_sequence := True\<rparr> else ed)"
  by (simp_all add: num_bytes_def DecodeLoop_field DecodeField.simps)

lemma DecodeLoop_compact_pointers:
  "list_all (\<lambda>p. fst p < kNumLevels \<and> length (snd p) < 2 ^ 32) xs \<Longrightarrow>
   DecodeLoop (concat (map cp_bytes xs) @ p) ed = DecodeLoop p (ed\<lparr>compact_pointers := compact_pointers ed @ xs\<rparr>)"
  by (induction xs arbitrary: ed) (simp_all add: cp_bytes_def DecodeLoop_field DecodeField.simps)

lemma DecodeLoop_deleted_files:
  "list_all (\<lambda>p. fst p < kNumLevels) xs \<Longrightarrow> sorted (deleted_files ed @ xs) \<Longrightarrow> distinct (deleted_files ed @ xs) \<Longrightarrow>
   DecodeLoop (concat (map df_bytes xs) @ p) ed = DecodeLoop p (ed\<lparr>deleted_files := deleted_files ed @ xs\<rparr>)"
proof (induction xs arbitrary: ed)
  case (Cons x xs)
  have "insort_insert x (deleted_files ed) = deleted_files ed @ [x]"
    using Cons.prems insort_snoc [of "deleted_files ed" x]
    by (auto simp: insort_insert_key_def sorted_append)
  then show ?case
    using Cons by (simp add: df_bytes_def DecodeLoop_field DecodeField.simps)
qed simp

lemma new_file_meta:
  "file_ok (l, f) \<Longrightarrow>
   FileMetaData_new\<lparr>fm_number := fm_number f, file_size := file_size f, smallest := smallest f, largest := largest f\<rparr> = f"
  by (simp add: file_ok_def FileMetaData_new_def)

lemma DecodeLoop_new_files:
  "list_all file_ok xs \<Longrightarrow>
   DecodeLoop (concat (map nf_bytes xs) @ p) ed = DecodeLoop p (ed\<lparr>new_files := new_files ed @ xs\<rparr>)"
proof (induction xs arbitrary: ed)
  case (Cons x xs)
  obtain l f where x: "x = (l, f)" by (cases x)
  have ok: "file_ok (l, f)" using Cons.prems x by simp
  then have "DecodeLoop (nf_bytes x @ concat (map nf_bytes xs) @ p) ed
      = DecodeLoop (concat (map nf_bytes xs) @ p) (ed\<lparr>new_files := new_files ed @ [x]\<rparr>)"
    using new_file_meta [OF ok] by (simp add: x nf_bytes_def DecodeLoop_field DecodeField.simps file_ok_def)
  then show ?case using Cons by simp
qed simp

lemma DecodeLoop_Nil: "DecodeLoop [] ed = (None, [], ed)"
  by (simp add: DecodeLoop.simps GetVarint32_def GetVarint32Ptr_def GetVarint32PtrFallback_def)

lemma DecodeFrom_EncodeTo:
  assumes ok: "edit_ok ed"
  shows "DecodeFrom (EncodeTo ed []) ed0 = (Status_OK, ed\<lparr>compact_pointers := compact_pointers ed0 @ compact_pointers ed\<rparr>)"
proof -
  note fields = DecodeLoop_comparator DecodeLoop_numbers DecodeLoop_compact_pointers DecodeLoop_deleted_files
    DecodeLoop_new_files [of _ "[]", simplified]
  have "DecodeLoop (EncodeTo ed []) (VersionEdit_Clear ed0)
      = (None, [], ed\<lparr>compact_pointers := compact_pointers ed0 @ compact_pointers ed\<rparr>)"
    using ok unfolding EncodeTo_bytes edit_ok_def
    by (simp add: fields VersionEdit_Clear_def DecodeLoop_Nil)
  then show ?thesis by (simp add: DecodeFrom_def)
qed

section \<open>Property\<close>

text \<open>
  C21. Decoding the encoding of an edit built by the setters gives that edit back into a fresh object, with
  status OK. Into a used object it gives the same except that the compaction pointers the object already had stay
  in front: \<open>Clear\<close>, which \<open>DecodeFrom\<close> starts with, does not empty them.
\<close>

theorem version_edit_roundtrip:
  assumes "edit_ok ed"
  shows "DecodeFrom (EncodeTo ed []) VersionEdit_new = (Status_OK, ed)
    \<and> DecodeFrom (EncodeTo ed []) ed0 = (Status_OK, ed\<lparr>compact_pointers := compact_pointers ed0 @ compact_pointers ed\<rparr>)"
  using assms by (simp add: DecodeFrom_EncodeTo) (simp add: VersionEdit_new_def)

definition ex_edit :: VersionEdit where
  "ex_edit = AddFile 1 9 4096 [1, 2] [3] (DeleteFile 0 4 (SetCompactPointer 2 [7] (SetLogNumber 5 VersionEdit_new)))"

theorem version_edit_roundtrip_witness:
  "DecodeFrom (EncodeTo ex_edit []) VersionEdit_new = (Status_OK, ex_edit)
    \<and> compact_pointers (snd (DecodeFrom (EncodeTo ex_edit []) ex_edit)) = [(2, [7]), (2, [7])]"
proof -
  have "edit_ok ex_edit"
    unfolding ex_edit_def by (intro edit_ok_ops edit_ok_new) (simp_all add: kNumLevels_def)
  from version_edit_roundtrip [OF this, of ex_edit] show ?thesis
    by (simp add: ex_edit_def AddFile_def DeleteFile_def SetCompactPointer_def SetLogNumber_def VersionEdit_new_def)
qed

end
