(* ===== verification/Randoms.thy ===== *)
theory Randoms
  imports Prelude
begin

text \<open>
  The pseudo-random generator (\<^verbatim>\<open>util/random.h\<close>). Each operation returns the number and the new seed.
\<close>

section \<open>Definitions\<close>

definition Random_new :: "u32 \<Rightarrow> u32" where
  "Random_new s = s AND 0x7fffffff"

definition Random_Next :: "u32 \<Rightarrow> u32" where
  "Random_Next seed =
     (let product = (ucast seed :: u64) * 16807;
          s = ucast (drop_bit 31 product + (product AND 2147483647)) :: u32
      in if 2147483647 < s then s - 2147483647 else s)"

definition Random_Uniform :: "u32 \<Rightarrow> u32 \<Rightarrow> u32 \<times> u32" where
  "Random_Uniform n seed = (let r = Random_Next seed in (r mod n, r))"

definition Random_OneIn :: "u32 \<Rightarrow> u32 \<Rightarrow> bool \<times> u32" where
  "Random_OneIn n seed = (let r = Random_Next seed in (r mod n = 0, r))"

definition Random_Skewed :: "u32 \<Rightarrow> u32 \<Rightarrow> u32 \<times> u32" where
  "Random_Skewed max_log seed =
     (case Random_Uniform (max_log + 1) seed of (b, seed') \<Rightarrow> Random_Uniform (push_bit (unat b) 1) seed')"

section \<open>The generator computes a product modulo 2147483647\<close>

lemma unat_Random_new: "unat (Random_new s) \<le> 2147483647"
proof -
  have "Random_new s = take_bit 31 s"
    by (simp add: Random_new_def take_bit_eq_mask mask_eq_decr_exp)
  then show ?thesis
    using take_bit_nat_less_exp [of 31 "unat s"] by (simp add: unsigned_take_bit_eq)
qed

text \<open>The two reductions of the product, on natural numbers.\<close>

lemma mod_pred: "p mod m = (p div Suc m + p mod Suc m) mod m" for p :: nat
proof -
  have "p div Suc m * m + (p div Suc m + p mod Suc m) = p"
    using div_mult_mod_eq [of p "Suc m"] by simp
  then show ?thesis
    using mod_mult_self3 [of "p div Suc m" m "p div Suc m + p mod Suc m"] by simp
qed

lemma fold_31: "p mod 2147483647 = (p div 2147483648 + p mod 2147483648) mod 2147483647" for p :: nat
  using mod_pred [of p 2147483647] by (simp only: Suc_numeral Num.add_num_simps)

lemma Random_Next_unat:
  assumes "unat seed \<le> 2147483647"
  shows "unat (Random_Next seed) =
    (let p = unat seed * 16807; s = p div 2147483648 + p mod 2147483648 in if 2147483647 < s then s - 2147483647 else s)"
    and "unat (Random_Next seed) \<le> 2147483647"
proof -
  define p where "p = unat seed * 16807"
  define s where "s = p div 2147483648 + p mod 2147483648"
  define q where "q = (ucast seed :: u64) * 16807"
  have p: "p \<le> 2147483647 * 16807" using assms unfolding p_def by simp
  have up: "unat q = p"
    using p unsigned_less [of seed] by (simp add: unat_word_ariths p_def q_def unsigned_ucast_eq take_bit_eq_mod)
  have "p div 2147483648 \<le> 16807" using p by linarith
  moreover have "p mod 2147483648 < 2147483648" by simp
  ultimately have s_le: "s \<le> 2147500454" unfolding s_def by linarith
  have a: "unat (drop_bit 31 q) = p div 2147483648"
    unfolding unat_drop_bit_eq up by (simp add: drop_bit_eq_div)
  have "q AND 2147483647 = take_bit 31 q"
    by (simp add: take_bit_eq_mask mask_eq_decr_exp)
  then have b: "unat (q AND 2147483647) = p mod 2147483648"
    using unsigned_take_bit_eq [of 31 q, where 'a = nat] by (simp add: up take_bit_eq_mod)
  have c: "unat (drop_bit 31 q + (q AND 2147483647)) = s"
    using s_le by (simp add: unat_word_ariths a b s_def)
  then have d: "unat (ucast (drop_bit 31 q + (q AND 2147483647)) :: u32) = s"
    using s_le by (simp add: unsigned_ucast_eq take_bit_eq_mod)
  have e: "unat (Random_Next seed) = (if 2147483647 < s then s - 2147483647 else s)"
    using s_le unfolding Random_Next_def q_def [symmetric] by (auto simp: Let_def word_less_nat_alt d unat_sub_if_size)
  then show "unat (Random_Next seed) =
    (let p = unat seed * 16807; s = p div 2147483648 + p mod 2147483648 in if 2147483647 < s then s - 2147483647 else s)"
    by (simp add: Let_def s_def p_def)
  show "unat (Random_Next seed) \<le> 2147483647" unfolding e using s_le by auto
qed

lemma Random_Next_mod:
  assumes "0 < unat seed" "unat seed < 2147483647"
  shows "unat (Random_Next seed) = unat seed * 16807 mod 2147483647 \<and> 0 < unat (Random_Next seed)
    \<and> unat (Random_Next seed) < 2147483647"
proof -
  define s where "s = unat seed * 16807 div 2147483648 + unat seed * 16807 mod 2147483648"
  have m: "unat seed * 16807 mod 2147483647 = s mod 2147483647"
    using fold_31 [of "unat seed * 16807"] by (simp add: s_def)
  have "coprime (2147483647 :: nat) 16807" by (simp add: coprime_iff_gcd_eq_1 gcd_non_0_nat)
  then have nz: "unat seed * 16807 mod 2147483647 \<noteq> 0"
    using assms by (metis coprime_dvd_mult_left_iff mod_0_imp_dvd nat_dvd_not_less)
  have u: "unat (Random_Next seed) = (if 2147483647 < s then s - 2147483647 else s)" "unat (Random_Next seed) \<le> 2147483647"
    using Random_Next_unat [of seed] assms by (simp_all add: s_def Let_def)
  have "s mod 2147483647 = unat (Random_Next seed) mod 2147483647"
    unfolding u(1) using le_mod_geq [of 2147483647 s] by auto
  moreover have "unat (Random_Next seed) \<noteq> 2147483647" using calculation m nz by auto
  ultimately show ?thesis using u(2) m nz by simp
qed

section \<open>Property\<close>

text \<open>
  C29. From any seed but 0 and 2147483647, \<open>Next\<close> computes \<open>seed * 16807\<close> modulo 2147483647 exactly, with the shifts
  and the one conditional subtraction of the code, and the new seed again avoids the two fixed points 0 and
  2147483647. \<open>Uniform\<close> stays below its bound.
\<close>

theorem Random_Next_lehmer:
  assumes "0 < unat seed" "unat seed < 2147483647" "n \<noteq> 0"
  shows "unat (Random_Next seed) = unat seed * 16807 mod 2147483647
    \<and> 0 < unat (Random_Next seed) \<and> unat (Random_Next seed) < 2147483647
    \<and> Random_Next 0 = 0 \<and> Random_Next 2147483647 = 2147483647
    \<and> fst (Random_Uniform n seed) < n \<and> snd (Random_Uniform n seed) = Random_Next seed"
proof -
  have "Random_Next seed mod n < n"
    using assms(3) by (simp add: word_mod_less_divisor word_neq_0_conv)
  then show ?thesis
    using Random_Next_mod [OF assms(1,2)] by (simp add: Random_Uniform_def Let_def Random_Next_def [of 0] Random_Next_def [of 2147483647])
qed

theorem Random_Next_lehmer_witness:
  "unat (Random_Next (Random_new 0xdeadbeef)) = 1588444911 * 16807 mod 2147483647 \<and> fst (Random_Uniform 4 (Random_new 0xdeadbeef)) < 4"
  using Random_Next_lehmer [of "Random_new 0xdeadbeef" 4] by (simp add: Random_new_def)

end
