(* ===== verification/Arenas.thy ===== *)
theory Arenas
  imports Prelude
begin

text \<open>
  The arena (\<^verbatim>\<open>util/arena.h\<close>, \<^verbatim>\<open>util/arena.cc\<close>) that the memory table allocates from. Addresses are numbers.
  The \<^verbatim>\<open>new char[]\<close> of the run-time system is the parameter \<open>alloc\<close>: given the blocks it has handed out
  and a size, the address of the next block. The model keeps with each block the size it was asked for.
\<close>

section \<open>Definitions\<close>

type_synonym region = "nat \<times> nat"

record Arena =
  alloc_ptr :: nat
  alloc_bytes_remaining :: nat
  blocks :: "region list"
  blocks_memory :: nat

definition kBlockSize :: nat where
  "kBlockSize = 4096"

definition Arena_new :: Arena where
  "Arena_new = \<lparr>alloc_ptr = 0, alloc_bytes_remaining = 0, blocks = [], blocks_memory = 0\<rparr>"

text \<open>\<open>capacity\<close> is the capacity a vector of that many pointers has.\<close>

definition MemoryUsage :: "(nat \<Rightarrow> nat) \<Rightarrow> Arena \<Rightarrow> nat" where
  "MemoryUsage capacity ar = blocks_memory ar + capacity (length (blocks ar)) * 8"

definition AllocateNewBlock :: "(region list \<Rightarrow> nat \<Rightarrow> nat) \<Rightarrow> nat \<Rightarrow> Arena \<Rightarrow> nat \<times> Arena" where
  "AllocateNewBlock alloc block_bytes ar =
     (let result = alloc (blocks ar) block_bytes
      in (result, ar\<lparr>blocks_memory := blocks_memory ar + block_bytes, blocks := blocks ar @ [(result, block_bytes)]\<rparr>))"

definition AllocateFallback :: "(region list \<Rightarrow> nat \<Rightarrow> nat) \<Rightarrow> nat \<Rightarrow> Arena \<Rightarrow> nat \<times> Arena" where
  "AllocateFallback alloc n ar =
     (if kBlockSize div 4 < n then AllocateNewBlock alloc n ar
      else case AllocateNewBlock alloc kBlockSize ar of
             (p, ar') \<Rightarrow> (p, ar'\<lparr>alloc_ptr := p + n, alloc_bytes_remaining := kBlockSize - n\<rparr>))"

definition Allocate :: "(region list \<Rightarrow> nat \<Rightarrow> nat) \<Rightarrow> nat \<Rightarrow> Arena \<Rightarrow> nat \<times> Arena" where
  "Allocate alloc n ar =
     (if n \<le> alloc_bytes_remaining ar
      then (alloc_ptr ar, ar\<lparr>alloc_ptr := alloc_ptr ar + n, alloc_bytes_remaining := alloc_bytes_remaining ar - n\<rparr>)
      else AllocateFallback alloc n ar)"

definition AllocateAligned :: "(region list \<Rightarrow> nat \<Rightarrow> nat) \<Rightarrow> nat \<Rightarrow> Arena \<Rightarrow> nat \<times> Arena" where
  "AllocateAligned alloc n ar =
     (let current_mod = alloc_ptr ar mod 8;
          slop = (if current_mod = 0 then 0 else 8 - current_mod);
          needed = (n + slop) mod 2 ^ 64
      in if needed \<le> alloc_bytes_remaining ar
         then (alloc_ptr ar + slop,
               ar\<lparr>alloc_ptr := alloc_ptr ar + needed, alloc_bytes_remaining := alloc_bytes_remaining ar - needed\<rparr>)
         else AllocateFallback alloc n ar)"

section \<open>Regions\<close>

fun apart :: "region \<Rightarrow> region \<Rightarrow> bool" where
  "apart (a, m) (b, n) \<longleftrightarrow> a + m \<le> b \<or> b + n \<le> a"

fun inside :: "region \<Rightarrow> region \<Rightarrow> bool" where
  "inside (a, m) (b, n) \<longleftrightarrow> b \<le> a \<and> a + m \<le> b + n"

text \<open>What the run-time system promises: blocks of its own, at addresses aligned for any type.\<close>

definition alloc_ok :: "(region list \<Rightarrow> nat \<Rightarrow> nat) \<Rightarrow> bool" where
  "alloc_ok alloc \<longleftrightarrow> (\<forall>bs n. 0 < alloc bs n \<and> 8 dvd alloc bs n \<and> list_all (apart (alloc bs n, n)) bs)"

definition free_region :: "Arena \<Rightarrow> region" where
  "free_region ar = (alloc_ptr ar, alloc_bytes_remaining ar)"

text \<open>The regions handed out lie in blocks, apart from each other and from the free rest of the current block.\<close>

definition arena_inv :: "Arena \<Rightarrow> region list \<Rightarrow> bool" where
  "arena_inv ar regs \<longleftrightarrow>
     list_all (\<lambda>r. list_ex (inside r) (blocks ar)) regs \<and> sorted_wrt apart regs
   \<and> (alloc_bytes_remaining ar = 0 \<or> list_all (apart (free_region ar)) regs \<and> list_ex (inside (free_region ar)) (blocks ar))
   \<and> list_all (\<lambda>b. 0 < fst b) (blocks ar) \<and> blocks_memory ar = sum_list (map snd (blocks ar))"

lemma apart_inside: "apart r b \<Longrightarrow> inside s b \<Longrightarrow> apart r s"
  by (cases r; cases s; cases b) auto

lemma apart_sym: "apart r s \<longleftrightarrow> apart s r"
  by (cases r; cases s) auto

lemma new_block_apart:
  assumes "alloc_ok alloc" "list_ex (inside r) (blocks ar)"
  shows "apart r (alloc (blocks ar) n, n)"
proof -
  obtain b where "b \<in> set (blocks ar)" "inside r b" using assms(2) by (auto simp: list_ex_iff)
  moreover have "apart (alloc (blocks ar) n, n) b"
    using assms(1) calculation(1) by (simp add: alloc_ok_def list_all_iff)
  ultimately show ?thesis using apart_inside apart_sym by blast
qed

lemma arena_inv_new: "arena_inv Arena_new []"
  by (simp add: arena_inv_def Arena_new_def)

text \<open>A request served from the current block, possibly after skipping some bytes.\<close>

lemma arena_inv_bump:
  assumes inv: "arena_inv ar regs" and fits: "slop + n \<le> alloc_bytes_remaining ar" and "0 < n"
  shows "arena_inv (ar\<lparr>alloc_ptr := alloc_ptr ar + (slop + n), alloc_bytes_remaining := alloc_bytes_remaining ar - (slop + n)\<rparr>)
    (regs @ [(alloc_ptr ar + slop, n)])"
proof -
  let ?r = "(alloc_ptr ar + slop, n)"
  let ?f = "(alloc_ptr ar + (slop + n), alloc_bytes_remaining ar - (slop + n))"
  have free: "list_all (apart (free_region ar)) regs" "list_ex (inside (free_region ar)) (blocks ar)"
    using inv fits \<open>0 < n\<close> by (auto simp: arena_inv_def)
  have r: "apart (free_region ar) s \<Longrightarrow> apart ?r s" "apart (free_region ar) s \<Longrightarrow> apart ?f s"
      "inside (free_region ar) s \<Longrightarrow> inside ?r s" "inside (free_region ar) s \<Longrightarrow> inside ?f s" for s
    using fits by (cases s; auto simp: free_region_def)+
  have "list_all (apart ?r) regs" "list_all (apart ?f) regs" "list_ex (inside ?r) (blocks ar)" "list_ex (inside ?f) (blocks ar)"
    using free r unfolding list_all_iff list_ex_iff by blast+
  then show ?thesis
    using inv by (auto simp: arena_inv_def free_region_def sorted_wrt_append list_all_iff apart_sym)
qed

lemma arena_inv_big:
  assumes inv: "arena_inv ar regs" and ok: "alloc_ok alloc"
  shows "arena_inv (snd (AllocateNewBlock alloc n ar)) (regs @ [(fst (AllocateNewBlock alloc n ar), n)])"
proof -
  let ?r = "(alloc (blocks ar) n, n)"
  have "apart s ?r" if "list_ex (inside s) (blocks ar)" for s
    using new_block_apart [OF ok that] .
  then show ?thesis
    using inv ok unfolding arena_inv_def AllocateNewBlock_def Let_def alloc_ok_def
    by (auto simp: sorted_wrt_append list_all_iff free_region_def simp del: apart.simps)
qed

lemma arena_inv_next_block:
  assumes inv: "arena_inv ar regs" and ok: "alloc_ok alloc" and "n \<le> kBlockSize"
  shows "arena_inv ((snd (AllocateNewBlock alloc kBlockSize ar))\<lparr>alloc_ptr := fst (AllocateNewBlock alloc kBlockSize ar) + n,
      alloc_bytes_remaining := kBlockSize - n\<rparr>) (regs @ [(fst (AllocateNewBlock alloc kBlockSize ar), n)])"
proof -
  let ?a = "alloc (blocks ar) kBlockSize"
  have i: "inside (?a, n) (?a, kBlockSize)" "inside (?a + n, kBlockSize - n) (?a, kBlockSize)" "apart (?a, n) (?a + n, kBlockSize - n)"
    using assms(3) by auto
  have "apart s (?a, n)" "apart s (?a + n, kBlockSize - n)" if "list_ex (inside s) (blocks ar)" for s
    using new_block_apart [OF ok that, of kBlockSize] i apart_inside by blast+
  then show ?thesis
    using inv ok i unfolding arena_inv_def AllocateNewBlock_def Let_def alloc_ok_def
    by (auto simp: sorted_wrt_append list_all_iff free_region_def apart_sym simp del: apart.simps inside.simps)
qed

lemma arena_inv_Fallback:
  assumes "arena_inv ar regs" "alloc_ok alloc" "AllocateFallback alloc n ar = (p, ar')"
  shows "arena_inv ar' (regs @ [(p, n)]) \<and> 8 dvd p"
proof -
  have "8 dvd p" using assms(2,3)
    by (auto simp: alloc_ok_def AllocateFallback_def AllocateNewBlock_def Let_def split: if_splits)
  then show ?thesis
    using assms arena_inv_big [of ar regs alloc n] arena_inv_next_block [of ar regs alloc n]
    by (auto simp: AllocateFallback_def kBlockSize_def split: if_splits prod.splits)
qed

lemma Allocate_inv:
  assumes "arena_inv ar regs" "alloc_ok alloc" "Allocate alloc n ar = (p, ar')" "0 < n"
  shows "arena_inv ar' (regs @ [(p, n)])"
  using assms arena_inv_Fallback [OF assms(1,2), of n p ar'] arena_inv_bump [of ar regs 0 n]
  by (auto simp: Allocate_def split: if_splits)

lemma AllocateAligned_inv:
  assumes "arena_inv ar regs" "alloc_ok alloc" "AllocateAligned alloc n ar = (p, ar')" "0 < n" "n + 8 \<le> 2 ^ 64"
  shows "arena_inv ar' (regs @ [(p, n)]) \<and> 8 dvd p"
proof -
  define slop where "slop = (if alloc_ptr ar mod 8 = 0 then 0 else 8 - alloc_ptr ar mod 8)"
  have s: "slop < 8" by (simp add: slop_def)
  have al: "8 dvd alloc_ptr ar + slop"
    unfolding slop_def by (simp add: mod_eq_0_iff_dvd) presburger
  have "(n + slop) mod 2 ^ 64 = slop + n" using s assms(5) by simp
  then have "AllocateAligned alloc n ar = (if slop + n \<le> alloc_bytes_remaining ar
     then (alloc_ptr ar + slop, ar\<lparr>alloc_ptr := alloc_ptr ar + (slop + n), alloc_bytes_remaining := alloc_bytes_remaining ar - (slop + n)\<rparr>)
     else AllocateFallback alloc n ar)"
    unfolding AllocateAligned_def Let_def slop_def [symmetric] by simp
  then show ?thesis
    using assms(3) al arena_inv_bump [OF assms(1) _ assms(4), of slop] arena_inv_Fallback [OF assms(1,2), of n p ar']
    by (auto split: if_splits)
qed

text \<open>A new region has an address of its own, which is not NULL.\<close>

lemma arena_fresh:
  assumes "arena_inv ar (regs @ [(p, n)])" "0 < n"
  shows "0 < p" and "\<And>q m. (q, m) \<in> set regs \<Longrightarrow> 0 < m \<Longrightarrow> q \<noteq> p"
  using assms by (auto simp: arena_inv_def sorted_wrt_append list_all_iff list_ex_iff)

section \<open>Property\<close>

text \<open>A run of requests, each aligned or not; the regions they got and the arena afterwards.\<close>

fun arena_requests :: "(region list \<Rightarrow> nat \<Rightarrow> nat) \<Rightarrow> (bool \<times> nat) list \<Rightarrow> Arena \<Rightarrow> region list \<times> Arena" where
  "arena_requests alloc [] ar = ([], ar)"
| "arena_requests alloc ((al, n) # rs) ar =
     (case (if al then AllocateAligned alloc n ar else Allocate alloc n ar) of
        (p, ar') \<Rightarrow> (case arena_requests alloc rs ar' of (regs, ar'') \<Rightarrow> ((p, n) # regs, ar'')))"

lemma arena_requests_inv:
  assumes "alloc_ok alloc" "arena_inv ar regs" "list_all (\<lambda>(al, n). 0 < n \<and> n + 8 \<le> 2 ^ 64) rs"
    "arena_requests alloc rs ar = (regs', ar')"
  shows "arena_inv ar' (regs @ regs') \<and> list_all2 (\<lambda>(al, n) (p, m). m = n \<and> (al \<longrightarrow> 8 dvd p)) rs regs'"
  using assms(2-)
proof (induction rs arbitrary: ar regs regs')
  case (Cons x rs)
  obtain al n where x: "x = (al, n)" by (cases x)
  obtain p ar1 where p: "(if al then AllocateAligned alloc n ar else Allocate alloc n ar) = (p, ar1)" by fastforce
  obtain regs1 where r: "arena_requests alloc rs ar1 = (regs1, ar')" "regs' = (p, n) # regs1"
    using Cons.prems(3) p x by (auto split: prod.splits)
  have "arena_inv ar1 (regs @ [(p, n)]) \<and> (al \<longrightarrow> 8 dvd p)"
    using p Cons.prems(1,2) x AllocateAligned_inv [OF Cons.prems(1) assms(1), of n p ar1]
      Allocate_inv [OF Cons.prems(1) assms(1), of n p ar1] by (auto split: if_splits)
  then show ?case
    using Cons.IH [of ar1 "regs @ [(p, n)]" regs1] Cons.prems(2) r x by auto
qed simp

text \<open>
  C28. Whatever sequence of non-empty requests an arena serves, the regions it hands out have the requested sizes, do not
  overlap, lie inside the blocks it obtained, and the aligned ones start at a multiple of the pointer size;
  and \<open>blocks_memory_\<close> is the sum of the sizes of the blocks.
\<close>

theorem arena_no_overlap:
  assumes "alloc_ok alloc" "list_all (\<lambda>(al, n). 0 < n \<and> n + 8 \<le> 2 ^ 64) rs"
  shows "case arena_requests alloc rs Arena_new of (regs, ar) \<Rightarrow>
     sorted_wrt apart regs \<and> list_all (\<lambda>r. list_ex (inside r) (blocks ar)) regs
   \<and> list_all2 (\<lambda>(al, n) (p, m). m = n \<and> (al \<longrightarrow> 8 dvd p)) rs regs
   \<and> blocks_memory ar = sum_list (map snd (blocks ar))"
  using arena_requests_inv [OF assms(1) arena_inv_new assms(2)] by (auto simp: arena_inv_def)

definition ex_alloc :: "region list \<Rightarrow> nat \<Rightarrow> nat" where
  "ex_alloc bs n = 8 * Suc (sum_list (map (\<lambda>(a, m). a + m) bs))"

lemma ex_alloc_ok: "alloc_ok ex_alloc"
proof -
  have "a + m \<le> ex_alloc bs n" if "(a, m) \<in> set bs" for a m bs n
  proof -
    have "a + m \<le> sum_list (map (\<lambda>(a, m). a + m) bs)"
      using that by (intro member_le_sum_list) (force, auto)
    then show ?thesis by (simp add: ex_alloc_def)
  qed
  then show ?thesis by (force simp: alloc_ok_def list_all_iff ex_alloc_def)
qed

theorem arena_no_overlap_witness:
  "fst (arena_requests ex_alloc [(False, 5), (True, 24), (False, 5000), (True, 16)] Arena_new)
     = [(8, 5), (16, 24), (32840, 5000), (40, 16)]
   \<and> sorted_wrt apart [(8, 5), (16, 24), (32840, 5000), (40, 16)]"
  using arena_no_overlap [OF ex_alloc_ok, of "[(False, 5), (True, 24), (False, 5000), (True, 16)]"]
  by (simp add: Allocate_def AllocateAligned_def AllocateFallback_def AllocateNewBlock_def Arena_new_def kBlockSize_def
      ex_alloc_def Let_def)

end
