(* ===== verification/Skip_List.thy ===== *)
theory Skip_List
  imports Randoms Arenas "HOL-Library.Monad_Syntax"
begin

text \<open>
  The skip list (\<^verbatim>\<open>db/skiplist.h\<close>) with its nodes in an arena. A node is its key and its array of links, an
  address is what the arena returned for it, and NULL is 0. The result None stands for an access outside
  a node's array, for a dangling pointer, or for a search that does not end; the properties show that it does not occur.

  The locale \<open>key_order\<close> is what the list needs of its comparator. Under it the list refines a
  sorted sequence of keys.
\<close>

section \<open>Definitions\<close>

record 'k sl_node =
  nkey :: 'k
  nnext :: "nat list"

record 'k skiplist =
  sl_head :: nat
  sl_nodes :: "nat \<rightharpoonup> 'k sl_node"
  sl_max_height :: nat
  sl_rnd :: u32
  sl_arena :: Arena

definition kMaxHeight :: nat where
  "kMaxHeight = 12"

definition Node_key :: "'k skiplist \<Rightarrow> nat \<Rightarrow> 'k option" where
  "Node_key sl x = map_option nkey (sl_nodes sl x)"

definition Node_Next :: "'k skiplist \<Rightarrow> nat \<Rightarrow> nat \<Rightarrow> nat option" where
  "Node_Next sl x n = do { nd \<leftarrow> sl_nodes sl x; if n < length (nnext nd) then Some (nnext nd ! n) else None }"

definition SetNext :: "nat \<Rightarrow> nat \<Rightarrow> nat \<Rightarrow> 'k skiplist \<Rightarrow> 'k skiplist option" where
  "SetNext x n y sl = do {
     nd \<leftarrow> sl_nodes sl x;
     if n < length (nnext nd) then Some (sl\<lparr>sl_nodes := (sl_nodes sl)(x \<mapsto> nd\<lparr>nnext := (nnext nd)[n := y]\<rparr>)\<rparr>) else None }"

text \<open>The links of a new node are not initialised; they are NULL here until they are set.\<close>

definition NewNode :: "(region list \<Rightarrow> nat \<Rightarrow> nat) \<Rightarrow> 'k \<Rightarrow> nat \<Rightarrow> 'k skiplist \<Rightarrow> nat \<times> 'k skiplist" where
  "NewNode alloc k height sl =
     (case AllocateAligned alloc (16 + 8 * (height - 1)) (sl_arena sl) of
        (p, ar) \<Rightarrow> (p, sl\<lparr>sl_arena := ar, sl_nodes := (sl_nodes sl)(p \<mapsto> \<lparr>nkey = k, nnext = replicate height 0\<rparr>)\<rparr>))"

fun SetNext_all :: "nat list \<Rightarrow> nat \<Rightarrow> nat \<Rightarrow> 'k skiplist \<Rightarrow> 'k skiplist option" where
  "SetNext_all [] x y sl = Some sl"
| "SetNext_all (i # is) x y sl = do { sl' \<leftarrow> SetNext x i y sl; SetNext_all is x y sl' }"

text \<open>\<open>k0\<close> is the null key of the head.\<close>

definition SkipList_new :: "(region list \<Rightarrow> nat \<Rightarrow> nat) \<Rightarrow> 'k \<Rightarrow> Arena \<Rightarrow> 'k skiplist option" where
  "SkipList_new alloc k0 ar =
     (case NewNode alloc k0 kMaxHeight
             \<lparr>sl_head = 0, sl_nodes = Map.empty, sl_max_height = 1, sl_rnd = Random_new 0xdeadbeef, sl_arena = ar\<rparr> of
        (p, sl) \<Rightarrow> SetNext_all [0..<kMaxHeight] p 0 (sl\<lparr>sl_head := p\<rparr>))"

text \<open>The loop of \<open>RandomHeight\<close>, from height \<open>h\<close> on, with the seed of the generator.\<close>

function RandomHeight_loop :: "nat \<Rightarrow> u32 \<Rightarrow> nat \<times> u32" where
  "RandomHeight_loop h seed =
     (if h < kMaxHeight then
        let seed' = Random_Next seed in if seed' mod 4 = 0 then RandomHeight_loop (h + 1) seed' else (h, seed')
      else (h, seed))"
  by auto
termination
  by (relation "measure (\<lambda>(h, seed). kMaxHeight - h)") auto

declare RandomHeight_loop.simps [simp del]

definition RandomHeight :: "u32 \<Rightarrow> nat \<times> u32" where
  "RandomHeight seed = RandomHeight_loop 1 seed"

definition KeyIsAfterNode :: "('k \<Rightarrow> 'k \<Rightarrow> int) \<Rightarrow> 'k skiplist \<Rightarrow> 'k \<Rightarrow> nat \<Rightarrow> bool option" where
  "KeyIsAfterNode cmp sl key n =
     (if n = 0 then Some False else do { k \<leftarrow> Node_key sl n; Some (cmp k key < 0) })"

text \<open>
  The loop that \<open>FindGreaterOrEqual\<close>, \<open>FindLessThan\<close> and \<open>FindLast\<close> share. They differ in the test
  \<open>after\<close> for going on to the next node and in what they return: \<open>x\<close>, \<open>next\<close> and the array
  \<open>prev\<close>, if there is one.
\<close>

partial_function (option) Find_loop ::
    "(nat \<Rightarrow> bool option) \<Rightarrow> 'k skiplist \<Rightarrow> nat \<Rightarrow> nat \<Rightarrow> (nat \<Rightarrow> nat) option \<Rightarrow> (nat \<times> nat \<times> (nat \<Rightarrow> nat) option) option" where
  "Find_loop after sl x level prev = do {
     next \<leftarrow> Node_Next sl x level;
     b \<leftarrow> after next;
     if b then Find_loop after sl next level prev
     else let prev' = map_option (\<lambda>p. p(level := x)) prev
          in if level = 0 then Some (x, next, prev') else Find_loop after sl x (level - 1) prev' }"

definition FindGreaterOrEqual ::
    "('k \<Rightarrow> 'k \<Rightarrow> int) \<Rightarrow> 'k \<Rightarrow> (nat \<Rightarrow> nat) option \<Rightarrow> 'k skiplist \<Rightarrow> (nat \<times> (nat \<Rightarrow> nat) option) option" where
  "FindGreaterOrEqual cmp key prev sl = do {
     (x, next, prev') \<leftarrow> Find_loop (KeyIsAfterNode cmp sl key) sl (sl_head sl) (sl_max_height sl - 1) prev;
     Some (next, prev') }"

text \<open>\<open>FindLessThan\<close> writes the negated test out.\<close>

definition FindLessThan :: "('k \<Rightarrow> 'k \<Rightarrow> int) \<Rightarrow> 'k \<Rightarrow> 'k skiplist \<Rightarrow> nat option" where
  "FindLessThan cmp key sl = do {
     (x, next, p) \<leftarrow> Find_loop (\<lambda>next. if next = 0 then Some False else do { k \<leftarrow> Node_key sl next; Some (\<not> 0 \<le> cmp k key) })
                       sl (sl_head sl) (sl_max_height sl - 1) None;
     Some x }"

definition FindLast :: "'k skiplist \<Rightarrow> nat option" where
  "FindLast sl = do {
     (x, next, p) \<leftarrow> Find_loop (\<lambda>next. Some (next \<noteq> 0)) sl (sl_head sl) (sl_max_height sl - 1) None;
     Some x }"

text \<open>The loop that links the new node \<open>x\<close> in.\<close>

fun Insert_link :: "nat list \<Rightarrow> nat \<Rightarrow> (nat \<Rightarrow> nat) \<Rightarrow> 'k skiplist \<Rightarrow> 'k skiplist option" where
  "Insert_link [] x prev sl = Some sl"
| "Insert_link (i # is) x prev sl = do {
     next \<leftarrow> Node_Next sl (prev i) i;
     sl1 \<leftarrow> SetNext x i next sl;
     sl2 \<leftarrow> SetNext (prev i) i x sl1;
     Insert_link is x prev sl2 }"

definition Insert :: "(region list \<Rightarrow> nat \<Rightarrow> nat) \<Rightarrow> ('k \<Rightarrow> 'k \<Rightarrow> int) \<Rightarrow> 'k \<Rightarrow> 'k skiplist \<Rightarrow> 'k skiplist option" where
  "Insert alloc cmp key sl = do {
     (x0, p) \<leftarrow> FindGreaterOrEqual cmp key (Some (\<lambda>_. 0)) sl;
     prev \<leftarrow> p;
     (case RandomHeight (sl_rnd sl) of (height, rnd) \<Rightarrow>
        let mh = sl_max_height sl;
            prev' = (if mh < height then (\<lambda>i. if mh \<le> i \<and> i < height then sl_head sl else prev i) else prev);
            sl1 = sl\<lparr>sl_rnd := rnd, sl_max_height := (if mh < height then height else mh)\<rparr>
        in case NewNode alloc key height sl1 of (x, sl2) \<Rightarrow> Insert_link [0..<height] x prev' sl2) }"

definition Contains :: "('k \<Rightarrow> 'k \<Rightarrow> int) \<Rightarrow> 'k \<Rightarrow> 'k skiplist \<Rightarrow> bool option" where
  "Contains cmp key sl = do {
     (x, p) \<leftarrow> FindGreaterOrEqual cmp key None sl;
     if x \<noteq> 0 then do { k \<leftarrow> Node_key sl x; Some (cmp key k = 0) } else Some False }"

text \<open>The iterator is its node.\<close>

definition Iter_Valid :: "nat \<Rightarrow> bool" where
  "Iter_Valid node \<longleftrightarrow> node \<noteq> 0"

definition Iter_Next :: "'k skiplist \<Rightarrow> nat \<Rightarrow> nat option" where
  "Iter_Next sl node = Node_Next sl node 0"

definition Iter_Prev :: "('k \<Rightarrow> 'k \<Rightarrow> int) \<Rightarrow> 'k skiplist \<Rightarrow> nat \<Rightarrow> nat option" where
  "Iter_Prev cmp sl node = do {
     k \<leftarrow> Node_key sl node;
     x \<leftarrow> FindLessThan cmp k sl;
     Some (if x = sl_head sl then 0 else x) }"

definition Iter_Seek :: "('k \<Rightarrow> 'k \<Rightarrow> int) \<Rightarrow> 'k \<Rightarrow> 'k skiplist \<Rightarrow> nat option" where
  "Iter_Seek cmp target sl = map_option fst (FindGreaterOrEqual cmp target None sl)"

definition Iter_SeekToFirst :: "'k skiplist \<Rightarrow> nat option" where
  "Iter_SeekToFirst sl = Node_Next sl (sl_head sl) 0"

definition Iter_SeekToLast :: "'k skiplist \<Rightarrow> nat option" where
  "Iter_SeekToLast sl = do { x \<leftarrow> FindLast sl; Some (if x = sl_head sl then 0 else x) }"

section \<open>Random heights\<close>

lemma RandomHeight_loop_bounds: "h \<le> kMaxHeight \<Longrightarrow> h \<le> fst (RandomHeight_loop h seed) \<and> fst (RandomHeight_loop h seed) \<le> kMaxHeight"
proof (induction h seed rule: RandomHeight_loop.induct)
  case (1 h seed)
  show ?case
    by (subst (1 2) RandomHeight_loop.simps) (use 1 in \<open>force simp: Let_def\<close>)
qed

lemma RandomHeight_bounds: "RandomHeight seed = (h, seed') \<Longrightarrow> 1 \<le> h \<and> h \<le> kMaxHeight"
  using RandomHeight_loop_bounds [of 1 seed] by (simp add: RandomHeight_def kMaxHeight_def)

section \<open>Chains of links\<close>

fun path :: "'k skiplist \<Rightarrow> nat \<Rightarrow> nat \<Rightarrow> nat list \<Rightarrow> bool" where
  "path sl l x [] \<longleftrightarrow> Node_Next sl x l = Some 0"
| "path sl l x (y # ys) \<longleftrightarrow> Node_Next sl x l = Some y \<and> path sl l y ys"

definition hd0 :: "nat list \<Rightarrow> nat" where
  "hd0 xs = (case xs of [] \<Rightarrow> 0 | x # _ \<Rightarrow> x)"

lemma hd0_simps [simp]: "hd0 [] = 0" "hd0 (x # xs) = x"
  by (simp_all add: hd0_def)

lemma path_append: "path sl l x (ys @ zs) \<Longrightarrow> path sl l (last (x # ys)) zs"
  by (induction ys arbitrary: x) auto

lemma path_next: "path sl l x ys \<Longrightarrow> Node_Next sl x l = Some (hd0 ys)"
  by (cases ys) auto

lemma path_cong: "(\<And>a. a \<in> set (x # ys) \<Longrightarrow> Node_Next sl' a l = Node_Next sl a l) \<Longrightarrow> path sl' l x ys = path sl l x ys"
  by (induction ys arbitrary: x) auto

lemma path_insert:
  assumes "path sl l h (pre @ suf)" "distinct (h # pre @ suf)" "x \<notin> set (h # pre @ suf)"
    "\<And>a. a \<noteq> last (h # pre) \<Longrightarrow> a \<noteq> x \<Longrightarrow> Node_Next sl' a l = Node_Next sl a l"
    "Node_Next sl' (last (h # pre)) l = Some x" "Node_Next sl' x l = Node_Next sl (last (h # pre)) l"
  shows "path sl' l h (pre @ x # suf)"
  using assms
proof (induction pre arbitrary: h)
  case Nil
  have "path sl' l x suf"
  proof (cases suf)
    case (Cons a ys)
    have "path sl' l a ys = path sl l a ys"
    proof (rule path_cong)
      fix b assume "b \<in> set (a # ys)"
      then have "b \<noteq> h" "b \<noteq> x" using Nil.prems(2,3) Cons by auto
      then show "Node_Next sl' b l = Node_Next sl b l" using Nil.prems(4) by simp
    qed
    then show ?thesis using Nil Cons by simp
  qed (use Nil in simp)
  then show ?case using Nil by simp
next
  case (Cons a pre)
  have "path sl' l a (pre @ x # suf)"
    using Cons.prems by (intro Cons.IH) auto
  moreover have "last (h # a # pre) \<noteq> h" using Cons.prems(2) by (auto simp: last_conv_nth)
  ultimately show ?case using Cons.prems by auto
qed

lemma SetNext_Some:
  assumes "Node_Next sl x n = Some z"
  obtains sl' where "SetNext x n y sl = Some sl'"
    "\<And>a b. Node_Next sl' a b = (if a = x \<and> b = n then Some y else Node_Next sl a b)"
    "\<And>a. Node_key sl' a = Node_key sl a" "dom (sl_nodes sl') = dom (sl_nodes sl)"
    "sl_head sl' = sl_head sl" "sl_max_height sl' = sl_max_height sl" "sl_arena sl' = sl_arena sl" "sl_rnd sl' = sl_rnd sl"
proof -
  obtain nd where nd: "sl_nodes sl x = Some nd" "n < length (nnext nd)"
    using assms by (auto simp: Node_Next_def bind_eq_Some_conv split: if_splits)
  show thesis
    by (rule that [of "sl\<lparr>sl_nodes := (sl_nodes sl)(x \<mapsto> nd\<lparr>nnext := (nnext nd)[n := y]\<rparr>)\<rparr>"])
       (use nd in \<open>auto simp: SetNext_def Node_Next_def Node_key_def nth_list_update\<close>)
qed

lemma sorted_wrt_irrefl_distinct: "sorted_wrt R xs \<Longrightarrow> (\<And>x. x \<in> set xs \<Longrightarrow> \<not> R x x) \<Longrightarrow> distinct xs"
  by (induction xs) auto

text \<open>The search along one level, and then the next level down.\<close>

lemma Find_loop_level:
  "path sl l x suf \<Longrightarrow> (\<And>y. y \<in> set suf \<Longrightarrow> after y = Some (P y)) \<Longrightarrow> after 0 = Some False \<Longrightarrow>
   Find_loop after sl x l prev =
     (let x' = last (x # takeWhile P suf); prev' = map_option (\<lambda>p. p(l := x')) prev
      in if l = 0 then Some (x', hd0 (dropWhile P suf), prev') else Find_loop after sl x' (l - 1) prev')"
proof (induction suf arbitrary: x)
  case Nil
  then show ?case by (subst Find_loop.simps) (simp add: Let_def)
next
  case (Cons y ys)
  show ?case
  proof (cases "P y")
    case True
    have "Find_loop after sl x l prev = Find_loop after sl y l prev"
      using Cons.prems True by (subst Find_loop.simps) simp
    also have "\<dots> = (let x' = last (y # takeWhile P ys); prev' = map_option (\<lambda>p. p(l := x')) prev
        in if l = 0 then Some (x', hd0 (dropWhile P ys), prev') else Find_loop after sl x' (l - 1) prev')"
      using Cons.prems by (intro Cons.IH) auto
    also have "last (y # takeWhile P ys) = last (x # takeWhile P (y # ys))" using True by simp
    also have "dropWhile P ys = dropWhile P (y # ys)" using True by simp
    finally show ?thesis .
  next
    case False
    then show ?thesis using Cons.prems by (subst Find_loop.simps) (simp add: Let_def)
  qed
qed

text \<open>Linking a node in at the levels of a list.\<close>

lemma Insert_link_links:
  assumes "distinct is"
    and "\<And>i. i \<in> set is \<Longrightarrow> path sl i h (pre i @ suf i) \<and> distinct (h # pre i @ suf i) \<and> x \<notin> set (h # pre i @ suf i)
          \<and> prev i = last (h # pre i) \<and> Node_Next sl x i \<noteq> None"
  shows "\<exists>sl'. Insert_link is x prev sl = Some sl' \<and> (\<forall>i\<in>set is. path sl' i h (pre i @ x # suf i))
     \<and> (\<forall>a b. b \<notin> set is \<longrightarrow> Node_Next sl' a b = Node_Next sl a b) \<and> Node_key sl' = Node_key sl
     \<and> dom (sl_nodes sl') = dom (sl_nodes sl) \<and> sl_head sl' = sl_head sl \<and> sl_max_height sl' = sl_max_height sl
     \<and> sl_arena sl' = sl_arena sl"
  using assms
proof (induction "is" arbitrary: sl)
  case (Cons i js)
  have i: "path sl i h (pre i @ suf i)" "distinct (h # pre i @ suf i)" "x \<notin> set (h # pre i @ suf i)"
      "prev i = last (h # pre i)" "Node_Next sl x i \<noteq> None"
    using Cons.prems(2) [of i] by auto
  have nx: "Node_Next sl (prev i) i = Some (hd0 (suf i))" using path_next path_append i(1,4) by metis
  have px: "prev i \<noteq> x" using i(3,4) by (metis last_in_set list.discI set_ConsD set_append Un_iff list.set_intros)
  obtain z where "Node_Next sl x i = Some z" using i(5) by blast
  from SetNext_Some [OF this, of "hd0 (suf i)"] obtain sl1 where
    s1: "SetNext x i (hd0 (suf i)) sl = Some sl1"
      "\<And>a b. Node_Next sl1 a b = (if a = x \<and> b = i then Some (hd0 (suf i)) else Node_Next sl a b)"
      "\<And>a. Node_key sl1 a = Node_key sl a" "dom (sl_nodes sl1) = dom (sl_nodes sl)"
      "sl_head sl1 = sl_head sl" "sl_max_height sl1 = sl_max_height sl" "sl_arena sl1 = sl_arena sl" by metis
  have "Node_Next sl1 (prev i) i = Some (hd0 (suf i))" using s1(2) nx px by simp
  from SetNext_Some [OF this, of x] obtain sl2 where
    s2: "SetNext (prev i) i x sl1 = Some sl2"
      "\<And>a b. Node_Next sl2 a b = (if a = prev i \<and> b = i then Some x else Node_Next sl1 a b)"
      "\<And>a. Node_key sl2 a = Node_key sl1 a" "dom (sl_nodes sl2) = dom (sl_nodes sl1)"
      "sl_head sl2 = sl_head sl1" "sl_max_height sl2 = sl_max_height sl1" "sl_arena sl2 = sl_arena sl1" by metis
  have pi: "path sl2 i h (pre i @ x # suf i)"
    using px nx by (intro path_insert [OF i(1-3)]) (auto simp: s1 s2 i(4))
  have other: "Node_Next sl2 a b = Node_Next sl a b" if "b \<noteq> i" for a b using that s1(2) s2(2) by simp
  have "path sl2 j h (pre j @ suf j) \<and> distinct (h # pre j @ suf j) \<and> x \<notin> set (h # pre j @ suf j)
          \<and> prev j = last (h # pre j) \<and> Node_Next sl2 x j \<noteq> None" if j: "j \<in> set js" for j
  proof -
    have "j \<noteq> i" using Cons.prems(1) j by auto
    then have "Node_Next sl2 a j = Node_Next sl a j" for a using other by simp
    then show ?thesis
      using Cons.prems(2) [of j] j path_cong [of h "pre j @ suf j" sl2 j sl] by simp
  qed
  from Cons.IH [OF _ this] Cons.prems(1) obtain sl' where
    s': "Insert_link js x prev sl2 = Some sl'" "\<forall>i\<in>set js. path sl' i h (pre i @ x # suf i)"
      "\<forall>a b. b \<notin> set js \<longrightarrow> Node_Next sl' a b = Node_Next sl2 a b" "Node_key sl' = Node_key sl2"
      "dom (sl_nodes sl') = dom (sl_nodes sl2)" "sl_head sl' = sl_head sl2" "sl_max_height sl' = sl_max_height sl2"
      "sl_arena sl' = sl_arena sl2" by auto
  have "path sl' i h (pre i @ x # suf i)"
    using pi path_cong [of h "pre i @ x # suf i" sl' i sl2] s'(3) Cons.prems(1) by simp
  then show ?case
    using s' s1 s2 nx other by (intro exI [of _ sl']) (auto simp: fun_eq_iff)
qed simp

text \<open>Positions in a chain: past the end is NULL.\<close>

definition pos :: "nat list \<Rightarrow> nat \<Rightarrow> nat" where
  "pos ns i = (if i < length ns then ns ! i else 0)"

lemma hd0_drop: "hd0 (drop i ns) = pos ns i"
  by (cases "i < length ns") (simp_all add: pos_def flip: Cons_nth_drop_Suc)

lemma hd0_dropWhile: "hd0 (dropWhile P ns) = pos ns (length (takeWhile P ns))"
  by (simp add: dropWhile_eq_drop hd0_drop)

lemma path_nth: "path sl l x ns \<Longrightarrow> i < length ns \<Longrightarrow> Node_Next sl (ns ! i) l = Some (pos ns (Suc i))"
  using path_next [OF path_append [of sl l x "take (Suc i) ns" "drop (Suc i) ns"]]
  by (simp add: hd0_drop take_Suc_conv_app_nth id_take_nth_drop [symmetric])

lemma SetNext_all_Some:
  assumes "\<And>i. i \<in> set is \<Longrightarrow> Node_Next sl x i \<noteq> None"
  shows "\<exists>sl'. SetNext_all is x y sl = Some sl' \<and> (\<forall>a b. Node_Next sl' a b = (if a = x \<and> b \<in> set is then Some y else Node_Next sl a b))
    \<and> dom (sl_nodes sl') = dom (sl_nodes sl) \<and> sl_head sl' = sl_head sl \<and> sl_max_height sl' = sl_max_height sl
    \<and> sl_arena sl' = sl_arena sl"
  using assms
proof (induction "is" arbitrary: sl)
  case (Cons i js)
  then obtain z where "Node_Next sl x i = Some z" by fastforce
  from SetNext_Some [OF this, of y] obtain sl1 where
    s1: "SetNext x i y sl = Some sl1" "\<And>a b. Node_Next sl1 a b = (if a = x \<and> b = i then Some y else Node_Next sl a b)"
      "dom (sl_nodes sl1) = dom (sl_nodes sl)"
      "sl_head sl1 = sl_head sl" "sl_max_height sl1 = sl_max_height sl" "sl_arena sl1 = sl_arena sl" by metis
  have "\<And>j. j \<in> set js \<Longrightarrow> Node_Next sl1 x j \<noteq> None" using Cons.prems s1(2) by auto
  from Cons.IH [OF this] s1 show ?case by auto
qed simp

section \<open>The representation invariant\<close>

definition sl_lt :: "('k \<Rightarrow> 'k \<Rightarrow> int) \<Rightarrow> 'k skiplist \<Rightarrow> 'k \<Rightarrow> nat \<Rightarrow> bool" where
  "sl_lt cmp sl k x \<longleftrightarrow> cmp (the (Node_key sl x)) k < 0"

text \<open>Every node has a region of the arena of its own.\<close>

definition nodes_ok :: "'k skiplist \<Rightarrow> bool" where
  "nodes_ok sl \<longleftrightarrow> (\<exists>regs. arena_inv (sl_arena sl) regs \<and> (\<forall>x\<in>dom (sl_nodes sl). \<exists>n>0. (x, n) \<in> set regs))"

text \<open>\<open>ls l\<close> are the nodes linked at level \<open>l\<close>, in order, without the head.\<close>

definition sl_linked :: "('k \<Rightarrow> 'k \<Rightarrow> int) \<Rightarrow> ('k \<Rightarrow> bool) \<Rightarrow> 'k skiplist \<Rightarrow> (nat \<Rightarrow> nat list) \<Rightarrow> bool" where
  "sl_linked cmp ok sl ls \<longleftrightarrow> 1 \<le> sl_max_height sl \<and> sl_max_height sl \<le> kMaxHeight
     \<and> (\<forall>l<kMaxHeight. path sl l (sl_head sl) (ls l)) \<and> (\<forall>l\<ge>sl_max_height sl. ls l = [])
     \<and> (\<forall>l. set (ls (Suc l)) \<subseteq> set (ls l))
     \<and> (\<forall>l. sorted_wrt (\<lambda>a b. sl_lt cmp sl (the (Node_key sl b)) a) (ls l))
     \<and> sl_head sl \<in> dom (sl_nodes sl) \<and> 0 \<notin> dom (sl_nodes sl)
     \<and> (\<forall>x\<in>set (ls 0). x \<in> dom (sl_nodes sl) \<and> x \<noteq> sl_head sl \<and> ok (the (Node_key sl x)))"

text \<open>The list holds the nodes \<open>ns\<close>, in order, with the keys \<open>ks\<close>.\<close>

definition sl_repr :: "('k \<Rightarrow> 'k \<Rightarrow> int) \<Rightarrow> ('k \<Rightarrow> bool) \<Rightarrow> 'k skiplist \<Rightarrow> nat list \<Rightarrow> 'k list \<Rightarrow> bool" where
  "sl_repr cmp ok sl ns ks \<longleftrightarrow> nodes_ok sl \<and> (\<exists>ls. sl_linked cmp ok sl ls \<and> ls 0 = ns) \<and> ks = map (\<lambda>x. the (Node_key sl x)) ns"

section \<open>What the list needs of its comparator\<close>

locale key_order =
  fixes cmp :: "'k \<Rightarrow> 'k \<Rightarrow> int"
    and ok :: "'k \<Rightarrow> bool"
  assumes cmp_swap: "ok a \<Longrightarrow> ok b \<Longrightarrow> cmp a b < 0 \<longleftrightarrow> 0 < cmp b a"
    and cmp_trans: "ok a \<Longrightarrow> ok b \<Longrightarrow> ok c \<Longrightarrow> cmp a b < 0 \<Longrightarrow> cmp b c \<le> 0 \<Longrightarrow> cmp a c < 0"
begin

abbreviation lt :: "'k skiplist \<Rightarrow> 'k \<Rightarrow> nat \<Rightarrow> bool" where
  "lt \<equiv> sl_lt cmp"

abbreviation linked :: "'k skiplist \<Rightarrow> (nat \<Rightarrow> nat list) \<Rightarrow> bool" where
  "linked \<equiv> sl_linked cmp ok"

lemmas lt_def = sl_lt_def
lemmas linked_def = sl_linked_def

lemma cmp_irrefl: "ok a \<Longrightarrow> \<not> cmp a a < 0"
  using cmp_swap [of a a] by auto

lemma linked_subset: "linked sl ls \<Longrightarrow> set (ls l) \<subseteq> set (ls 0)"
proof (induction l)
  case (Suc l)
  then have "set (ls (Suc l)) \<subseteq> set (ls l)" by (simp add: linked_def)
  with Suc show ?case by blast
qed simp

lemma linked_node:
  assumes "linked sl ls" "x \<in> set (ls l)"
  shows "ok (the (Node_key sl x))" "x \<noteq> sl_head sl" "x \<noteq> 0" "x \<in> dom (sl_nodes sl)" "Node_key sl x \<noteq> None"
proof -
  have "x \<in> set (ls 0)" using linked_subset assms by blast
  then show "ok (the (Node_key sl x))" "x \<noteq> sl_head sl" "x \<noteq> 0" "x \<in> dom (sl_nodes sl)" "Node_key sl x \<noteq> None"
    using assms(1) by (auto simp: linked_def Node_key_def)
qed

lemma linked_key:
  assumes "linked sl ls" "x \<in> set (ls l)"
  shows "\<exists>k. Node_key sl x = Some k \<and> ok k \<and> x \<noteq> 0"
  using linked_node [OF assms] by (cases "Node_key sl x") auto

lemma linked_distinct: "linked sl ls \<Longrightarrow> distinct (sl_head sl # ls l)"
proof -
  assume li: "linked sl ls"
  then have "sorted_wrt (\<lambda>a b. lt sl (the (Node_key sl b)) a) (ls l)" by (simp add: linked_def)
  moreover have "\<not> lt sl (the (Node_key sl x)) x" if "x \<in> set (ls l)" for x
    using linked_node(1) [OF li that] cmp_irrefl by (simp add: lt_def)
  ultimately have "distinct (ls l)"
    by (intro sorted_wrt_irrefl_distinct) auto
  then show ?thesis using linked_node(2) [OF li] by auto
qed

text \<open>The nodes below a key come first at every level.\<close>

lemma below_prefix:
  assumes li: "linked sl ls" and "ok k" "ls l = pre @ x # suf" "lt sl k x"
  shows "\<forall>y\<in>set pre. lt sl k y"
proof
  fix y assume y: "y \<in> set pre"
  have "sorted_wrt (\<lambda>a b. lt sl (the (Node_key sl b)) a) (pre @ x # suf)"
    using li assms(3) by (metis linked_def)
  then have "cmp (the (Node_key sl y)) (the (Node_key sl x)) < 0"
    using y by (auto simp: sorted_wrt_append lt_def)
  moreover have "ok (the (Node_key sl y))" "ok (the (Node_key sl x))"
    using linked_node(1) [OF li, of _ l] assms(3) y by auto
  ultimately show "lt sl k y"
    using cmp_trans [of "the (Node_key sl y)" "the (Node_key sl x)" k] assms(2,4) by (simp add: lt_def)
qed

lemma descend:
  assumes li: "linked sl ls" and pre: "\<And>l p x s. ls l = p @ x # s \<Longrightarrow> P x \<Longrightarrow> \<forall>y\<in>set p. P y"
    and "x = sl_head sl \<or> x \<in> set (ls (Suc l)) \<and> P x"
  obtains pre suf where "ls l = pre @ suf" "x = last (sl_head sl # pre)" "\<forall>y\<in>set pre. P y"
proof (cases "x = sl_head sl")
  case True
  then show thesis using that [of "[]" "ls l"] by simp
next
  case False
  then have x: "x \<in> set (ls l)" "P x" using assms(3) li by (auto simp: linked_def)
  then obtain p s where ps: "ls l = p @ x # s" by (meson split_list)
  show thesis
    using pre [OF ps x(2)] ps x(2) by (intro that [of "p @ [x]" s]) auto
qed

text \<open>The search, for any test that holds of a prefix of every level.\<close>

lemma Find_loop_finds:
  assumes li: "linked sl ls"
    and after: "\<And>x. x \<in> set (ls 0) \<Longrightarrow> after x = Some (P x)" "after 0 = Some False"
    and pre: "\<And>l p x s. ls l = p @ x # s \<Longrightarrow> P x \<Longrightarrow> \<forall>y\<in>set p. P y"
  shows "l < kMaxHeight \<Longrightarrow> ls l = pre @ suf \<Longrightarrow> x = last (sl_head sl # pre) \<Longrightarrow> \<forall>y\<in>set pre. P y \<Longrightarrow>
    Find_loop after sl x l prev =
      Some (last (sl_head sl # takeWhile P (ls 0)), hd0 (dropWhile P (ls 0)),
            map_option (\<lambda>p i. if i \<le> l then last (sl_head sl # takeWhile P (ls i)) else p i) prev)"
proof (induction l arbitrary: pre suf x prev)
  case (0 pre suf x prev)
  have "path sl 0 (sl_head sl) (pre @ suf)" using li 0 by (metis linked_def)
  then have p: "path sl 0 x suf" using path_append 0 by blast
  have t: "takeWhile P (ls 0) = pre @ takeWhile P suf" "dropWhile P (ls 0) = dropWhile P suf"
    using 0 by simp_all
  have x': "last (x # takeWhile P suf) = last (sl_head sl # takeWhile P (ls 0))"
    unfolding t using 0(3) by (auto simp: last_append)
  have "\<And>y. y \<in> set suf \<Longrightarrow> after y = Some (P y)" using after(1) 0 by simp
  from Find_loop_level [OF p, of after P, OF this after(2)] show ?case
    unfolding x' t(2) [symmetric] by (auto simp: Let_def fun_eq_iff intro!: option.map_cong)
next
  case (Suc l pre suf x prev)
  have "path sl (Suc l) (sl_head sl) (pre @ suf)" using li Suc by (metis linked_def)
  then have p: "path sl (Suc l) x suf" using path_append Suc by blast
  have t: "takeWhile P (ls (Suc l)) = pre @ takeWhile P suf" using Suc by simp
  define x' where "x' = last (x # takeWhile P suf)"
  have x': "x' = last (sl_head sl # takeWhile P (ls (Suc l)))"
    unfolding t x'_def using Suc.prems(3) by (auto simp: last_append)
  have "\<And>y. y \<in> set suf \<Longrightarrow> after y = Some (P y)"
    using after(1) linked_subset [OF li, of "Suc l"] Suc.prems by auto
  from Find_loop_level [OF p, of after P prev, OF this after(2)]
  have step: "Find_loop after sl x (Suc l) prev = Find_loop after sl x' l (map_option (\<lambda>p. p(Suc l := x')) prev)"
    by (simp add: x'_def Let_def)
  have x'': "x' = sl_head sl \<or> x' \<in> set (ls (Suc l)) \<and> P x'"
    unfolding x' by (metis last.simps last_in_set set_takeWhileD)
  obtain pre' suf' where ps: "ls l = pre' @ suf'" "x' = last (sl_head sl # pre')" "\<forall>y\<in>set pre'. P y"
    by (rule descend [OF li, of P x' l, OF pre x''])
  show ?case
    unfolding step using Suc.IH [OF _ ps] Suc.prems(1)
    by (auto simp: x' option.map_comp fun_eq_iff le_Suc_eq intro!: option.map_cong)
qed

lemma FindGreaterOrEqual_finds:
  assumes li: "linked sl ls" and "ok k"
  shows "FindGreaterOrEqual cmp k prev sl = Some (hd0 (dropWhile (lt sl k) (ls 0)),
    map_option (\<lambda>p i. if i < sl_max_height sl then last (sl_head sl # takeWhile (lt sl k) (ls i)) else p i) prev)"
proof -
  have m: "sl_max_height sl - 1 < kMaxHeight" "\<And>i. i \<le> sl_max_height sl - 1 \<longleftrightarrow> i < sl_max_height sl"
    using li by (auto simp: linked_def)
  have "KeyIsAfterNode cmp sl k x = Some (lt sl k x)" if "x \<in> set (ls 0)" for x
    using linked_key [OF li that] by (auto simp: KeyIsAfterNode_def lt_def)
  then show ?thesis
    using Find_loop_finds [OF li, of "KeyIsAfterNode cmp sl k" "lt sl k" "sl_max_height sl - 1" "[]"] below_prefix [OF li assms(2)] m
    by (simp add: FindGreaterOrEqual_def KeyIsAfterNode_def)
qed

lemma FindLessThan_finds:
  assumes li: "linked sl ls" and "ok k"
  shows "FindLessThan cmp k sl = Some (last (sl_head sl # takeWhile (lt sl k) (ls 0)))"
proof -
  have m: "sl_max_height sl - 1 < kMaxHeight" using li by (auto simp: linked_def)
  let ?a = "\<lambda>next. if next = 0 then Some False else Option.bind (Node_key sl next) (\<lambda>k'. Some (\<not> 0 \<le> cmp k' k))"
  have "?a x = Some (lt sl k x)" if "x \<in> set (ls 0)" for x
    using linked_key [OF li that] by (auto simp: lt_def)
  then show ?thesis
    using Find_loop_finds [OF li, of ?a "lt sl k" "sl_max_height sl - 1" "[]"] below_prefix [OF li assms(2)] m
    by (simp add: FindLessThan_def)
qed

lemma FindLast_finds:
  assumes li: "linked sl ls"
  shows "FindLast sl = Some (last (sl_head sl # ls 0))"
proof -
  have m: "sl_max_height sl - 1 < kMaxHeight" using li by (auto simp: linked_def)
  have "\<And>x. x \<in> set (ls 0) \<Longrightarrow> Some (x \<noteq> 0) = Some True" using linked_node [OF li] by auto
  then show ?thesis
    using Find_loop_finds [OF li, of "\<lambda>x. Some (x \<noteq> 0)" "\<lambda>x. True" "sl_max_height sl - 1" "[]"] m
    by (simp add: FindLast_def takeWhile_eq_all_conv [THEN iffD2])
qed

lemma not_below_suffix:
  assumes li: "linked sl ls" and "ok k" "y \<in> set (dropWhile (lt sl k) (ls l))"
  shows "\<not> lt sl k y"
proof
  assume y: "lt sl k y"
  let ?t = "takeWhile (lt sl k) (ls l)" and ?d = "dropWhile (lt sl k) (ls l)"
  obtain p q where pq: "?d = p @ y # q" using assms(3) by (meson split_list)
  then have "ls l = (?t @ p) @ y # q" by (metis append.assoc takeWhile_dropWhile_id)
  from below_prefix [OF li assms(2) this y] have "\<forall>z\<in>set p. lt sl k z" by simp
  then have "lt sl k (hd ?d)" using pq y by (cases p) auto
  then show False using pq by (metis Nil_is_append_conv hd_dropWhile list.discI)
qed

text \<open>The level lists after the insertion of a node.\<close>

definition ins_levels :: "'k skiplist \<Rightarrow> 'k \<Rightarrow> nat \<Rightarrow> nat \<Rightarrow> (nat \<Rightarrow> nat list) \<Rightarrow> nat \<Rightarrow> nat list" where
  "ins_levels sl k x h ls l =
     (if l < h then takeWhile (lt sl k) (ls l) @ x # dropWhile (lt sl k) (ls l) else ls l)"

lemma set_ins_levels: "set (ins_levels sl k x h ls l) = (if l < h then insert x (set (ls l)) else set (ls l))"
proof -
  have "set (takeWhile P xs) \<union> set (dropWhile P xs) = set xs" for P and xs :: "nat list"
    by (metis set_append takeWhile_dropWhile_id)
  then show ?thesis by (auto simp: ins_levels_def)
qed

lemma sorted_ins_levels:
  assumes li: "linked sl ls" and "ok k" and ne: "\<And>y. y \<in> set (ls 0) \<Longrightarrow> cmp (the (Node_key sl y)) k \<noteq> 0"
    and x: "Node_key sl' x = Some k" "x \<notin> set (ls 0)"
    and keys: "\<And>y. y \<noteq> x \<Longrightarrow> Node_key sl' y = Node_key sl y"
  shows "sorted_wrt (\<lambda>a b. lt sl' (the (Node_key sl' b)) a) (ins_levels sl k x h ls l)"
proof -
  let ?R = "\<lambda>a b. lt sl' (the (Node_key sl' b)) a"
  have sub: "y \<noteq> x" if "y \<in> set (ls l)" for y using that linked_subset [OF li] x(2) by blast
  have "sorted_wrt (\<lambda>a b. lt sl (the (Node_key sl b)) a) (ls l)" using li by (simp add: linked_def)
  moreover have "?R a b \<longleftrightarrow> lt sl (the (Node_key sl b)) a" if "a \<in> set (ls l)" "b \<in> set (ls l)" for a b
    using that sub keys by (simp add: lt_def)
  ultimately have srt: "sorted_wrt ?R (ls l)" by (metis (mono_tags, lifting) sorted_wrt_mono_rel)
  have lo: "?R a x" if "a \<in> set (takeWhile (lt sl k) (ls l))" for a
    using set_takeWhileD [OF that] sub keys x(1) by (simp add: lt_def)
  have hi: "?R x b" if b: "b \<in> set (dropWhile (lt sl k) (ls l))" for b
  proof -
    have m: "b \<in> set (ls l)" using set_dropWhileD [OF b] .
    then have "cmp (the (Node_key sl b)) k \<noteq> 0" "ok (the (Node_key sl b))" "Node_key sl' b = Node_key sl b"
      using ne linked_subset [OF li] linked_node(1) [OF li m] sub keys by auto
    moreover have "\<not> cmp (the (Node_key sl b)) k < 0"
      using not_below_suffix [OF li assms(2) b] by (simp add: lt_def)
    ultimately show ?thesis
      using cmp_swap [of k "the (Node_key sl b)"] assms(2) x(1) by (simp add: lt_def)
  qed
  have "sorted_wrt ?R (takeWhile (lt sl k) (ls l) @ dropWhile (lt sl k) (ls l))" using srt by simp
  from this [unfolded sorted_wrt_append] show ?thesis
    using srt lo hi by (auto simp: ins_levels_def sorted_wrt_append)
qed

text \<open>A new node: its address is new and not NULL, and nothing else changes.\<close>

lemma NewNode_fresh:
  assumes nk: "nodes_ok sl" and "alloc_ok alloc" "1 \<le> h" "h \<le> kMaxHeight" "NewNode alloc k h sl = (x, sl')"
  shows "nodes_ok sl'" "x \<notin> dom (sl_nodes sl)" "x \<noteq> 0" "dom (sl_nodes sl') = insert x (dom (sl_nodes sl))"
    "sl_head sl' = sl_head sl" "sl_max_height sl' = sl_max_height sl"
    "Node_key sl' = (Node_key sl)(x \<mapsto> k)"
    "\<And>a b. Node_Next sl' a b = (if a = x then if b < h then Some 0 else None else Node_Next sl a b)"
proof -
  obtain regs where regs: "arena_inv (sl_arena sl) regs" "\<forall>x\<in>dom (sl_nodes sl). \<exists>n>0. (x, n) \<in> set regs"
    using nk by (auto simp: nodes_ok_def)
  obtain ar where ar: "AllocateAligned alloc (16 + 8 * (h - 1)) (sl_arena sl) = (x, ar)"
      "sl' = sl\<lparr>sl_arena := ar, sl_nodes := (sl_nodes sl)(x \<mapsto> \<lparr>nkey = k, nnext = replicate h 0\<rparr>)\<rparr>"
    using assms(5) by (auto simp: NewNode_def split: prod.splits)
  have inv': "arena_inv ar (regs @ [(x, 16 + 8 * (h - 1))])"
    using AllocateAligned_inv [OF regs(1) assms(2) ar(1)] assms(4) by (simp add: kMaxHeight_def)
  show "x \<notin> dom (sl_nodes sl)" "x \<noteq> 0"
    using arena_fresh [OF inv'] regs(2) by fastforce+
  show "nodes_ok sl'"
    unfolding nodes_ok_def using inv' regs(2) ar(2)
    by (intro exI [of _ "regs @ [(x, 16 + 8 * (h - 1))]"]) auto
  show "dom (sl_nodes sl') = insert x (dom (sl_nodes sl))" "sl_head sl' = sl_head sl" "sl_max_height sl' = sl_max_height sl"
    "Node_key sl' = (Node_key sl)(x \<mapsto> k)"
    "\<And>a b. Node_Next sl' a b = (if a = x then if b < h then Some 0 else None else Node_Next sl a b)"
    by (auto simp: ar(2) Node_key_def Node_Next_def fun_eq_iff)
qed

lemma linked_ins:
  assumes li: "linked sl ls" and k: "ok k" and ne: "\<And>y. y \<in> set (ls 0) \<Longrightarrow> cmp (the (Node_key sl y)) k \<noteq> 0"
    and hb: "1 \<le> h" "h \<le> kMaxHeight" and x: "x \<notin> dom (sl_nodes sl)" "x \<noteq> 0"
    and sl': "dom (sl_nodes sl') = insert x (dom (sl_nodes sl))" "sl_head sl' = sl_head sl"
      "sl_max_height sl' = (if sl_max_height sl < h then h else sl_max_height sl)" "Node_key sl' = (Node_key sl)(x \<mapsto> k)"
    and paths: "\<And>l. l < h \<Longrightarrow> path sl' l (sl_head sl) (takeWhile (lt sl k) (ls l) @ x # dropWhile (lt sl k) (ls l))"
      "\<And>l a. \<not> l < h \<Longrightarrow> a \<noteq> x \<Longrightarrow> Node_Next sl' a l = Node_Next sl a l"
  shows "linked sl' (ins_levels sl k x h ls)"
proof -
  have xl: "x \<notin> set (ls l)" for l using linked_node(4) [OF li, of x l] x(1) by blast
  have head: "sl_head sl \<in> dom (sl_nodes sl)" using li by (simp add: linked_def)
  have "path sl' l (sl_head sl) (ins_levels sl k x h ls l)" if "l < kMaxHeight" for l
  proof (cases "l < h")
    case False
    then have "path sl' l (sl_head sl) (ls l) = path sl l (sl_head sl) (ls l)"
    proof (intro path_cong)
      fix a assume "a \<in> set (sl_head sl # ls l)"
      then have "a \<noteq> x" using xl [of l] x(1) head by auto
      then show "Node_Next sl' a l = Node_Next sl a l" using paths(2) False by simp
    qed
    then show ?thesis using False li that by (simp add: ins_levels_def linked_def)
  qed (simp add: ins_levels_def paths)
  moreover have "sorted_wrt (\<lambda>a b. lt sl' (the (Node_key sl' b)) a) (ins_levels sl k x h ls l)" for l
    by (rule sorted_ins_levels [OF li k ne]) (use xl sl' in auto)
  moreover have "set (ins_levels sl k x h ls (Suc l)) \<subseteq> set (ins_levels sl k x h ls l)" for l
    using li by (auto simp: set_ins_levels linked_def)
  moreover have "y \<in> dom (sl_nodes sl') \<and> y \<noteq> sl_head sl' \<and> ok (the (Node_key sl' y))" if "y \<in> set (ins_levels sl k x h ls 0)" for y
    using that linked_node [OF li, of y 0] k head x(1) sl' by (auto simp: set_ins_levels split: if_splits)
  moreover have "ins_levels sl k x h ls l = []" if "sl_max_height sl' \<le> l" for l
    using that sl'(3) li by (auto simp: ins_levels_def linked_def split: if_splits)
  ultimately show ?thesis
    using li sl' hb x head unfolding linked_def by auto
qed

lemma Insert_linked:
  assumes li: "linked sl ls" and nk: "nodes_ok sl" and k: "ok k"
    and ne: "\<And>y. y \<in> set (ls 0) \<Longrightarrow> cmp (the (Node_key sl y)) k \<noteq> 0" and al: "alloc_ok alloc"
  obtains sl' x h where "Insert alloc cmp k sl = Some sl'" "nodes_ok sl'" "linked sl' (ins_levels sl k x h ls)" "1 \<le> h"
    "x \<notin> set (ls 0)" "Node_key sl' = (Node_key sl)(x \<mapsto> k)"
proof -
  obtain h rnd where h: "RandomHeight (sl_rnd sl) = (h, rnd)" by fastforce
  have hb: "1 \<le> h" "h \<le> kMaxHeight" using RandomHeight_bounds [OF h] by auto
  let ?P = "lt sl k"
  define mh where "mh = sl_max_height sl"
  define prev where "prev = (\<lambda>i. if i < mh then last (sl_head sl # takeWhile ?P (ls i)) else 0)"
  define prev' where "prev' = (if mh < h then (\<lambda>i. if mh \<le> i \<and> i < h then sl_head sl else prev i) else prev)"
  have pr: "prev' i = last (sl_head sl # takeWhile ?P (ls i))" if "i < h" for i
  proof (cases "i < mh")
    case False
    then have "ls i = []" using li by (simp add: linked_def mh_def)
    then show ?thesis using False that by (simp add: prev'_def)
  qed (simp add: prev'_def prev_def)
  define sl1 where "sl1 = sl\<lparr>sl_rnd := rnd, sl_max_height := (if mh < h then h else mh)\<rparr>"
  obtain x sl2 where nn: "NewNode alloc k h sl1 = (x, sl2)" by fastforce
  have "nodes_ok sl1" using nk by (simp add: nodes_ok_def sl1_def)
  note new = NewNode_fresh [OF this al hb nn]
  have same: "Node_key sl1 = Node_key sl" "Node_Next sl1 = Node_Next sl" "sl_nodes sl1 = sl_nodes sl" "sl_head sl1 = sl_head sl"
    by (auto simp: sl1_def Node_key_def Node_Next_def fun_eq_iff)
  let ?pre = "\<lambda>l. takeWhile ?P (ls l)" and ?suf = "\<lambda>l. dropWhile ?P (ls l)"
  have "path sl2 i (sl_head sl) (?pre i @ ?suf i) \<and> distinct (sl_head sl # ?pre i @ ?suf i)
      \<and> x \<notin> set (sl_head sl # ?pre i @ ?suf i) \<and> prev' i = last (sl_head sl # ?pre i) \<and> Node_Next sl2 x i \<noteq> None"
    if "i \<in> set [0..<h]" for i
  proof -
    have i: "i < h" using that by simp
    have xl: "x \<notin> set (sl_head sl # ls i)"
      using linked_node(4) [OF li, of x i] li new(2) same by (auto simp: linked_def)
    then have "path sl2 i (sl_head sl) (ls i) = path sl i (sl_head sl) (ls i)"
      by (intro path_cong) (auto simp: new(8) same)
    then show ?thesis
      using li i hb(2) pr [OF i] linked_distinct [OF li, of i] xl by (simp add: linked_def new(8))
  qed
  from Insert_link_links [OF _ this] obtain sl' where
    l: "Insert_link [0..<h] x prev' sl2 = Some sl'" "\<forall>i\<in>set [0..<h]. path sl' i (sl_head sl) (?pre i @ x # ?suf i)"
      "\<forall>a b. b \<notin> set [0..<h] \<longrightarrow> Node_Next sl' a b = Node_Next sl2 a b" "Node_key sl' = Node_key sl2"
      "dom (sl_nodes sl') = dom (sl_nodes sl2)" "sl_head sl' = sl_head sl2" "sl_max_height sl' = sl_max_height sl2"
      "sl_arena sl' = sl_arena sl2" by (metis distinct_upt)
  have ins: "Insert alloc cmp k sl = Some sl'"
    using FindGreaterOrEqual_finds [OF li k, of "Some (\<lambda>_. 0)"] nn l(1) h
    by (simp add: Insert_def prev'_def prev_def mh_def sl1_def Let_def cong: if_cong)
  have li': "linked sl' (ins_levels sl k x h ls)"
    using new same l by (intro linked_ins [OF li k ne hb]) (auto simp: sl1_def mh_def)
  have "x \<notin> set (ls 0)" using linked_node(4) [OF li, of x 0] new(2) same by auto
  then show thesis
    using that [OF ins _ li'] new(1,7) l hb same by (simp add: nodes_ok_def)
qed

lemma Insert_repr:
  assumes r: "sl_repr cmp ok sl ns ks" and k: "ok k" and ne: "\<And>k'. k' \<in> set ks \<Longrightarrow> cmp k' k \<noteq> 0" and al: "alloc_ok alloc"
  shows "\<exists>sl' ns'. Insert alloc cmp k sl = Some sl'
    \<and> sl_repr cmp ok sl' ns' (takeWhile (\<lambda>k'. cmp k' k < 0) ks @ k # dropWhile (\<lambda>k'. cmp k' k < 0) ks)"
proof -
  obtain ls where li: "linked sl ls" and nk: "nodes_ok sl" and ns: "ls 0 = ns" "ks = map (\<lambda>x. the (Node_key sl x)) ns"
    using r by (auto simp: sl_repr_def)
  have "\<And>y. y \<in> set (ls 0) \<Longrightarrow> cmp (the (Node_key sl y)) k \<noteq> 0" using ne ns by auto
  from Insert_linked [OF li nk k this al] obtain sl' x h where
    ins: "Insert alloc cmp k sl = Some sl'" "nodes_ok sl'" "linked sl' (ins_levels sl k x h ls)" "1 \<le> h"
      "x \<notin> set ns" "Node_key sl' = (Node_key sl)(x \<mapsto> k)" unfolding ns(1) by blast
  let ?P = "lt sl k"
  have P: "?P = (\<lambda>k'. cmp k' k < 0) \<circ> (\<lambda>x. the (Node_key sl x))" by (auto simp: fun_eq_iff lt_def)
  have "map (\<lambda>y. the (Node_key sl' y)) zs = map (\<lambda>y. the (Node_key sl y)) zs" if "set zs \<subseteq> set ns" for zs
    using that ins(5,6) by auto
  moreover have "set (takeWhile ?P ns) \<subseteq> set ns" "set (dropWhile ?P ns) \<subseteq> set ns"
    by (auto dest: set_takeWhileD set_dropWhileD)
  ultimately have "map (\<lambda>y. the (Node_key sl' y)) (takeWhile ?P ns @ x # dropWhile ?P ns)
      = takeWhile (\<lambda>k'. cmp k' k < 0) ks @ k # dropWhile (\<lambda>k'. cmp k' k < 0) ks"
    unfolding ns(2) takeWhile_map dropWhile_map P [symmetric] using ins(6) by simp
  then have "sl_repr cmp ok sl' (ins_levels sl k x h ls 0) (takeWhile (\<lambda>k'. cmp k' k < 0) ks @ k # dropWhile (\<lambda>k'. cmp k' k < 0) ks)"
    using ins ns unfolding sl_repr_def by (auto simp: ins_levels_def)
  with ins(1) show ?thesis by blast
qed

text \<open>An empty list, and a list whose arena serves other requests in between.\<close>

lemma SkipList_new_repr:
  assumes "arena_inv ar regs" "alloc_ok alloc"
  shows "\<exists>sl. SkipList_new alloc k0 ar = Some sl \<and> sl_repr cmp ok sl [] []"
proof -
  let ?sl0 = "\<lparr>sl_head = 0, sl_nodes = Map.empty, sl_max_height = 1, sl_rnd = Random_new 0xdeadbeef, sl_arena = ar\<rparr> :: 'k skiplist"
  obtain p sl1 where nn: "NewNode alloc k0 kMaxHeight ?sl0 = (p, sl1)" by fastforce
  have "nodes_ok ?sl0" using assms(1) by (auto simp: nodes_ok_def)
  from NewNode_fresh [OF this assms(2) _ _ nn] have
    new: "nodes_ok sl1" "p \<noteq> 0" "dom (sl_nodes sl1) = {p}" "sl_max_height sl1 = 1"
      "\<And>b. Node_Next sl1 p b = (if b < kMaxHeight then Some 0 else None)"
    by (auto simp: kMaxHeight_def)
  have "\<And>i. i \<in> set [0..<kMaxHeight] \<Longrightarrow> Node_Next (sl1\<lparr>sl_head := p\<rparr>) p i \<noteq> None"
    using new(5) by (simp add: Node_Next_def)
  from SetNext_all_Some [of "[0..<kMaxHeight]" "sl1\<lparr>sl_head := p\<rparr>" p 0, OF this] obtain sl where
    sl: "SetNext_all [0..<kMaxHeight] p 0 (sl1\<lparr>sl_head := p\<rparr>) = Some sl"
      "\<forall>a b. Node_Next sl a b = (if a = p \<and> b \<in> set [0..<kMaxHeight] then Some 0 else Node_Next (sl1\<lparr>sl_head := p\<rparr>) a b)"
      "dom (sl_nodes sl) = dom (sl_nodes (sl1\<lparr>sl_head := p\<rparr>))" "sl_head sl = sl_head (sl1\<lparr>sl_head := p\<rparr>)"
      "sl_max_height sl = sl_max_height (sl1\<lparr>sl_head := p\<rparr>)" "sl_arena sl = sl_arena (sl1\<lparr>sl_head := p\<rparr>)" by blast
  have "linked sl (\<lambda>_. [])" using sl new by (simp add: linked_def kMaxHeight_def)
  moreover have "nodes_ok sl" using sl new(1) by (simp add: nodes_ok_def)
  ultimately show ?thesis
    using nn sl(1) by (auto simp: SkipList_new_def sl_repr_def)
qed

lemma repr_Allocate:
  assumes "sl_repr cmp ok sl ns ks" "alloc_ok alloc" "Allocate alloc n (sl_arena sl) = (p, ar)" "0 < n"
  shows "sl_repr cmp ok (sl\<lparr>sl_arena := ar\<rparr>) ns ks"
proof -
  have "Node_key (sl\<lparr>sl_arena := ar\<rparr>) = Node_key sl" "Node_Next (sl\<lparr>sl_arena := ar\<rparr>) = Node_Next sl"
    by (auto simp: Node_key_def Node_Next_def fun_eq_iff)
  moreover have "path (sl\<lparr>sl_arena := ar\<rparr>) l x ys = path sl l x ys" for l x ys
    by (rule path_cong) (simp add: Node_Next_def)
  moreover have "nodes_ok (sl\<lparr>sl_arena := ar\<rparr>)"
  proof -
    obtain regs where "arena_inv (sl_arena sl) regs" "\<forall>x\<in>dom (sl_nodes sl). \<exists>n>0. (x, n) \<in> set regs"
      using assms(1) by (auto simp: sl_repr_def nodes_ok_def)
    then show ?thesis
      unfolding nodes_ok_def using Allocate_inv [of "sl_arena sl" regs alloc n p ar] assms(2-4)
      by (intro exI [of _ "regs @ [(p, n)]"]) auto
  qed
  ultimately show ?thesis
    using assms(1) by (simp add: sl_repr_def linked_def lt_def)
qed

lemma repr_length: "sl_repr cmp ok sl ns ks \<Longrightarrow> length ks = length ns"
  by (simp add: sl_repr_def)

lemma repr_node:
  assumes "sl_repr cmp ok sl ns ks" "i < length ks"
  shows "ns ! i \<noteq> 0" "Node_key sl (ns ! i) = Some (ks ! i)" "ok (ks ! i)"
proof -
  obtain ls where li: "linked sl ls" and ns: "ls 0 = ns" "ks = map (\<lambda>x. the (Node_key sl x)) ns"
    using assms(1) by (auto simp: sl_repr_def)
  have "ns ! i \<in> set (ls 0)" using ns assms(2) by simp
  from linked_key [OF li this] ns(2) assms(2) show "ns ! i \<noteq> 0" "Node_key sl (ns ! i) = Some (ks ! i)" "ok (ks ! i)"
    by auto
qed

lemma repr_pos_valid: "sl_repr cmp ok sl ns ks \<Longrightarrow> Iter_Valid (pos ns i) \<longleftrightarrow> i < length ks"
  using repr_node(1) [of sl ns ks i] by (auto simp: Iter_Valid_def pos_def repr_length)

lemma repr_pos_key: "sl_repr cmp ok sl ns ks \<Longrightarrow> i < length ks \<Longrightarrow> Node_key sl (pos ns i) = Some (ks ! i)"
  using repr_node(2) [of sl ns ks i] by (simp add: pos_def repr_length)

lemma repr_ok: "sl_repr cmp ok sl ns ks \<Longrightarrow> k \<in> set ks \<Longrightarrow> ok k"
  using repr_node(3) [of sl ns ks] by (auto simp: in_set_conv_nth)

lemma repr_sorted: "sl_repr cmp ok sl ns ks \<Longrightarrow> sorted_wrt (\<lambda>a b. cmp a b < 0) ks"
proof -
  assume r: "sl_repr cmp ok sl ns ks"
  then obtain ls where "linked sl ls" "ls 0 = ns" "ks = map (\<lambda>x. the (Node_key sl x)) ns"
    by (auto simp: sl_repr_def)
  moreover from this have "sorted_wrt (\<lambda>a b. lt sl (the (Node_key sl b)) a) ns" unfolding linked_def by blast
  ultimately show ?thesis by (simp add: lt_def sorted_wrt_map)
qed

lemma Iter_Seek_pos:
  assumes r: "sl_repr cmp ok sl ns ks" and "ok k"
  shows "Iter_Seek cmp k sl = Some (pos ns (length (takeWhile (\<lambda>k'. cmp k' k < 0) ks)))"
proof -
  obtain ls where li: "linked sl ls" and ns: "ls 0 = ns" "ks = map (\<lambda>x. the (Node_key sl x)) ns"
    using r by (auto simp: sl_repr_def)
  have "lt sl k = (\<lambda>k'. cmp k' k < 0) \<circ> (\<lambda>x. the (Node_key sl x))" by (auto simp: fun_eq_iff lt_def)
  then show ?thesis
    using FindGreaterOrEqual_finds [OF li assms(2)] by (simp add: Iter_Seek_def hd0_dropWhile ns takeWhile_map)
qed

lemma Iter_moves:
  assumes r: "sl_repr cmp ok sl ns ks"
  shows "Iter_SeekToFirst sl = Some (pos ns 0)"
    and "Iter_SeekToLast sl = Some (if ks = [] then 0 else pos ns (length ks - 1))"
    and "i < length ks \<Longrightarrow> Iter_Next sl (pos ns i) = Some (pos ns (Suc i))"
    and "i < length ks \<Longrightarrow> Iter_Prev cmp sl (pos ns i) = Some (if i = 0 then 0 else pos ns (i - 1))"
proof -
  obtain ls where li: "linked sl ls" and ns: "ls 0 = ns" "ks = map (\<lambda>x. the (Node_key sl x)) ns"
    using r by (auto simp: sl_repr_def)
  have p: "path sl 0 (sl_head sl) ns" using li ns(1) by (auto simp: linked_def kMaxHeight_def)
  have nh: "sl_head sl \<notin> set ns" using linked_node(2) [OF li, of _ 0] ns(1) by auto
  show "Iter_SeekToFirst sl = Some (pos ns 0)"
    using path_next [OF p] hd0_drop [of 0 ns] by (simp add: Iter_SeekToFirst_def)
  have "last ns \<noteq> sl_head sl" if "ns \<noteq> []" using nh that last_in_set by metis
  then show "Iter_SeekToLast sl = Some (if ks = [] then 0 else pos ns (length ks - 1))"
    using FindLast_finds [OF li] ns by (simp add: Iter_SeekToLast_def pos_def last_conv_nth)
  assume i: "i < length ks"
  then show "Iter_Next sl (pos ns i) = Some (pos ns (Suc i))"
    using path_nth [OF p] ns(2) by (simp add: Iter_Next_def pos_def)
  have "takeWhile (lt sl (ks ! i)) ns = take i ns"
  proof (rule takeWhile_eq_take_P_nth)
    fix j assume "j < i" "j < length ns"
    then show "lt sl (ks ! i) (ns ! j)"
      using repr_sorted [OF r] i ns(2) by (simp add: sorted_wrt_iff_nth_less lt_def)
  next
    assume "i < length ns"
    then show "\<not> lt sl (ks ! i) (ns ! i)"
      using cmp_irrefl repr_ok [OF r, of "ks ! i"] ns(2) by (simp add: lt_def)
  qed
  moreover have "last (take i ns) = ns ! (i - 1)" if "i \<noteq> 0"
    using that i ns(2) by (subst last_conv_nth) auto
  moreover have "ns ! (i - 1) \<noteq> sl_head sl" using nh i ns(2) by (metis length_map less_imp_diff_less nth_mem)
  ultimately show "Iter_Prev cmp sl (pos ns i) = Some (if i = 0 then 0 else pos ns (i - 1))"
    using repr_pos_key [OF r i] FindLessThan_finds [OF li, of "ks ! i"] repr_ok [OF r, of "ks ! i"] i ns(1) repr_length [OF r]
    by (auto simp: Iter_Prev_def pos_def)
qed

lemma Contains_iff:
  assumes r: "sl_repr cmp ok sl ns ks" and "ok k"
  shows "Contains cmp k sl = Some (\<exists>k'\<in>set ks. cmp k k' = 0)"
proof -
  define n where "n = length (takeWhile (\<lambda>k'. cmp k' k < 0) ks)"
  have find: "map_option fst (FindGreaterOrEqual cmp k None sl) = Some (pos ns n)"
    using Iter_Seek_pos [OF assms] by (simp add: Iter_Seek_def n_def)
  have low: "\<not> cmp k (ks ! i) = 0" if "i < n" for i
    using nth_mem [of i "takeWhile (\<lambda>k'. cmp k' k < 0) ks"] that set_takeWhileD takeWhile_nth [of i _ ks]
      cmp_swap [of "ks ! i" k] repr_node(3) [OF r, of i] assms(2) length_takeWhile_le [of "\<lambda>k'. cmp k' k < 0" ks]
    by (fastforce simp: n_def)
  have high: "cmp k (ks ! n) = 0" if i: "n \<le> i" "i < length ks" and e: "cmp k (ks ! i) = 0" for i
  proof (cases "i = n")
    case False
    have o: "ok (ks ! i)" "ok (ks ! n)" using repr_node(3) [OF r] i by auto
    have "cmp (ks ! n) (ks ! i) < 0" using repr_sorted [OF r] i False by (simp add: sorted_wrt_iff_nth_less)
    moreover have "cmp (ks ! i) k \<le> 0" using cmp_swap [OF assms(2) o(1)] e by linarith
    ultimately have "cmp (ks ! n) k < 0" using cmp_trans [OF o(2,1) assms(2)] by simp
    then show ?thesis using nth_length_takeWhile [of "\<lambda>k'. cmp k' k < 0" ks] i by (simp add: n_def)
  qed (use e in simp)
  have eq: "(\<exists>k'\<in>set ks. cmp k k' = 0) \<longleftrightarrow> n < length ks \<and> cmp k (ks ! n) = 0"
    using low high by (metis in_set_conv_nth le_less_trans not_le)
  obtain q where "FindGreaterOrEqual cmp k None sl = Some (pos ns n, q)" using find by auto
  then show ?thesis
    using repr_pos_valid [OF r, of n] repr_pos_key [OF r, of n] eq by (auto simp: Contains_def Iter_Valid_def)
qed

end

section \<open>Property\<close>

text \<open>
  C19. A skip list represents a strictly sorted sequence of keys, for any comparator that orders them. Every search
  returns, without leaving a node's array. \<open>Insert\<close> puts a new key at its place in the sequence and keeps the invariant
  of all levels and of the arena, whatever height it draws; \<open>Contains\<close> is membership; \<open>Seek\<close> finds the first key
  that is not smaller; and the iterator moves along the sequence in both directions, leaving it as NULL.
\<close>

theorem skiplist_refines_sequence:
  assumes "key_order cmp ok" "alloc_ok alloc" "sl_repr cmp ok sl ns ks" "ok k"
  shows "((\<forall>k'\<in>set ks. cmp k' k \<noteq> 0) \<longrightarrow> (\<exists>sl' ns'. Insert alloc cmp k sl = Some sl'
          \<and> sl_repr cmp ok sl' ns' (takeWhile (\<lambda>k'. cmp k' k < 0) ks @ k # dropWhile (\<lambda>k'. cmp k' k < 0) ks)))
    \<and> sorted_wrt (\<lambda>a b. cmp a b < 0) ks
    \<and> Contains cmp k sl = Some (\<exists>k'\<in>set ks. cmp k k' = 0)
    \<and> Iter_Seek cmp k sl = Some (pos ns (length (takeWhile (\<lambda>k'. cmp k' k < 0) ks)))
    \<and> Iter_SeekToFirst sl = Some (pos ns 0) \<and> Iter_SeekToLast sl = Some (if ks = [] then 0 else pos ns (length ks - 1))
    \<and> (\<forall>i<length ks. Iter_Valid (pos ns i) \<and> Node_key sl (pos ns i) = Some (ks ! i)
          \<and> Iter_Next sl (pos ns i) = Some (pos ns (Suc i))
          \<and> Iter_Prev cmp sl (pos ns i) = Some (if i = 0 then 0 else pos ns (i - 1)))
    \<and> \<not> Iter_Valid (pos ns (length ks))"
  using key_order.Insert_repr [OF assms(1,3,4) _ assms(2)] key_order.repr_sorted [OF assms(1,3)]
    key_order.Contains_iff [OF assms(1,3,4)] key_order.Iter_Seek_pos [OF assms(1,3,4)] key_order.Iter_moves [OF assms(1,3)]
    key_order.repr_pos_valid [OF assms(1,3)] key_order.repr_pos_key [OF assms(1,3)]
  by simp

lemma int_key_order: "key_order (\<lambda>a b :: int. a - b) (\<lambda>_. True)"
  by unfold_locales auto

theorem skiplist_refines_sequence_witness:
  "\<exists>sl0 sl ns. SkipList_new ex_alloc (0 :: int) Arena_new = Some sl0 \<and> Insert ex_alloc (\<lambda>a b. a - b) 5 sl0 = Some sl
    \<and> sl_repr (\<lambda>a b. a - b) (\<lambda>_. True) sl ns [5] \<and> Contains (\<lambda>a b. a - b) 5 sl = Some True
    \<and> Contains (\<lambda>a b. a - b) 7 sl = Some False"
proof -
  obtain sl0 where s0: "SkipList_new ex_alloc (0 :: int) Arena_new = Some sl0" "sl_repr (\<lambda>a b. a - b) (\<lambda>_. True) sl0 [] []"
    using key_order.SkipList_new_repr [OF int_key_order arena_inv_new ex_alloc_ok] by blast
  obtain sl ns where s: "Insert ex_alloc (\<lambda>a b. a - b) 5 sl0 = Some sl" "sl_repr (\<lambda>a b. a - b) (\<lambda>_. True) sl ns [5]"
    using skiplist_refines_sequence [OF int_key_order ex_alloc_ok s0(2), of 5] by auto
  show ?thesis
    using s0(1) s skiplist_refines_sequence [OF int_key_order ex_alloc_ok s(2), of 5]
      skiplist_refines_sequence [OF int_key_order ex_alloc_ok s(2), of 7] by auto
qed

end
