(* ===== verification/Mem_Table.thy ===== *)
theory Mem_Table
  imports Skip_List Write_Batch "HOL-Library.Multiset"
begin

text \<open>
  The memory table (\<^verbatim>\<open>db/memtable.h\<close>, \<^verbatim>\<open>db/memtable.cc\<close>): a skip list of encoded entries, ordered by the internal key
  each entry starts with. A \<^verbatim>\<open>const char*\<close> in the list is the bytes it points to, which are written once before they
  are inserted. \<open>ucmp\<close> is the user comparator. The printing of \<open>Add\<close> and \<open>DumpMemtable\<close> is left out.
\<close>

section \<open>Definitions\<close>

text \<open>A pointer to a length-prefixed string: the length, and the bytes from there on; a corrupted length would be NULL.\<close>

definition varint32_at :: "bytes \<Rightarrow> (u32 \<times> bytes) option" where
  "varint32_at p = (case GetVarint32Ptr (take 5 p) of None \<Rightarrow> None
     | Some (len, rest) \<Rightarrow> Some (len, drop (length (take 5 p) - length rest) p))"

definition mt_GetLengthPrefixedSlice :: "bytes \<Rightarrow> bytes" where
  "mt_GetLengthPrefixedSlice data = (case varint32_at data of None \<Rightarrow> [] | Some (len, p) \<Rightarrow> take (unat len) p)"

definition KeyComparator :: "(bytes \<Rightarrow> bytes \<Rightarrow> int) \<Rightarrow> bytes \<Rightarrow> bytes \<Rightarrow> int" where
  "KeyComparator ucmp aptr bptr =
     InternalKeyComparator_Compare ucmp (mt_GetLengthPrefixedSlice aptr) (mt_GetLengthPrefixedSlice bptr)"

definition EncodeKey :: "bytes \<Rightarrow> bytes" where
  "EncodeKey target = PutVarint32 [] (of_nat (length target)) @ target"

record MemTable =
  mt_refs :: int
  mt_table :: "bytes skiplist"

definition MemTable_new :: "(region list \<Rightarrow> nat \<Rightarrow> nat) \<Rightarrow> MemTable option" where
  "MemTable_new alloc = do { t \<leftarrow> SkipList_new alloc [] Arena_new; Some \<lparr>mt_refs = 0, mt_table = t\<rparr> }"

definition MemTable_Ref :: "MemTable \<Rightarrow> MemTable" where
  "MemTable_Ref mt = mt\<lparr>mt_refs := mt_refs mt + 1\<rparr>"

text \<open>None when the table is deleted.\<close>

definition MemTable_Unref :: "MemTable \<Rightarrow> MemTable option" where
  "MemTable_Unref mt = (let mt' = mt\<lparr>mt_refs := mt_refs mt - 1\<rparr> in if mt_refs mt' \<le> 0 then None else Some mt')"

definition ApproximateMemoryUsage :: "(nat \<Rightarrow> nat) \<Rightarrow> MemTable \<Rightarrow> nat" where
  "ApproximateMemoryUsage capacity mt = MemoryUsage capacity (sl_arena (mt_table mt))"

text \<open>The size \<open>Add\<close> allocates and the bytes it writes there.\<close>

definition encoded_len :: "bytes \<Rightarrow> bytes \<Rightarrow> nat" where
  "encoded_len key val =
     (let internal_key_size = length key + 8
      in VarintLength (of_nat internal_key_size) + internal_key_size + VarintLength (of_nat (length val)) + length val)"

definition entry_bytes :: "u64 \<Rightarrow> ValueType \<Rightarrow> bytes \<Rightarrow> bytes \<Rightarrow> bytes" where
  "entry_bytes s type key val =
     EncodeVarint32 (of_nat (length key + 8)) @ key @ EncodeFixed64 (push_bit 8 s OR type_code type)
     @ EncodeVarint32 (of_nat (length val)) @ val"

definition MemTable_Add ::
    "(region list \<Rightarrow> nat \<Rightarrow> nat) \<Rightarrow> (bytes \<Rightarrow> bytes \<Rightarrow> int) \<Rightarrow> u64 \<Rightarrow> ValueType \<Rightarrow> bytes \<Rightarrow> bytes \<Rightarrow> MemTable \<Rightarrow> MemTable option" where
  "MemTable_Add alloc ucmp s type key val mt =
     (case Allocate alloc (encoded_len key val) (sl_arena (mt_table mt)) of
        (buf, ar) \<Rightarrow> do {
          t \<leftarrow> Insert alloc (KeyComparator ucmp) (entry_bytes s type key val) ((mt_table mt)\<lparr>sl_arena := ar\<rparr>);
          Some (mt\<lparr>mt_table := t\<rparr>) })"

text \<open>
  What the lookups return: the boolean, the string they assign and the status they set, and the sequence
  number for \<open>GetSeq\<close>. The switch over the type of an entry is the same in all of them.
\<close>

type_synonym mt_answer = "bool \<times> bytes option \<times> Status option"

definition mt_switch :: "u64 \<Rightarrow> bytes \<Rightarrow> mt_answer" where
  "mt_switch tag rest =
     (case type_of_code (tag AND 0xff) of
        Some kTypeValue \<Rightarrow> (True, Some (mt_GetLengthPrefixedSlice rest), None)
      | Some kTypeDeletion \<Rightarrow> (True, None, Some (NotFound [] []))
      | None \<Rightarrow> (False, None, None))"

definition MemTable_Get :: "(bytes \<Rightarrow> bytes \<Rightarrow> int) \<Rightarrow> LookupKey \<Rightarrow> MemTable \<Rightarrow> mt_answer option" where
  "MemTable_Get ucmp key mt = do {
     iter \<leftarrow> Iter_Seek (KeyComparator ucmp) (memtable_key key) (mt_table mt);
     if Iter_Valid iter then do {
       entry \<leftarrow> Node_key (mt_table mt) iter;
       (key_length, key_ptr) \<leftarrow> varint32_at entry;
       let ikey = take (unat key_length) key_ptr in
       if ucmp (ExtractUserKey ikey) (lk_user_key key) = 0
       then Some (mt_switch (key_num ikey) (drop (unat key_length) key_ptr))
       else Some (False, None, None) }
     else Some (False, None, None) }"

definition MemTable_GetSeq :: "(bytes \<Rightarrow> bytes \<Rightarrow> int) \<Rightarrow> LookupKey \<Rightarrow> MemTable \<Rightarrow> (mt_answer \<times> u64 option) option" where
  "MemTable_GetSeq ucmp key mt = do {
     iter \<leftarrow> Iter_Seek (KeyComparator ucmp) (memtable_key key) (mt_table mt);
     if Iter_Valid iter then do {
       entry \<leftarrow> Node_key (mt_table mt) iter;
       (key_length, key_ptr) \<leftarrow> varint32_at entry;
       let ikey = take (unat key_length) key_ptr in
       if ucmp (ExtractUserKey ikey) (lk_user_key key) = 0
       then let tag = key_num ikey in Some (mt_switch tag (drop (unat key_length) key_ptr), Some (drop_bit 8 tag))
       else Some ((False, None, None), None) }
     else Some ((False, None, None), None) }"

definition MemTable_GetWithSeq :: "(bytes \<Rightarrow> bytes \<Rightarrow> int) \<Rightarrow> LookupKey \<Rightarrow> MemTable \<Rightarrow> mt_answer option" where
  "MemTable_GetWithSeq ucmp key mt = do {
     iter \<leftarrow> Iter_Seek (KeyComparator ucmp) (memtable_key key) (mt_table mt);
     if Iter_Valid iter then do {
       entry \<leftarrow> Node_key (mt_table mt) iter;
       (key_length, key_ptr) \<leftarrow> varint32_at entry;
       let ikey = take (unat key_length) key_ptr in
       if InternalKeyComparator_Compare ucmp ikey (lk_internal_key key) = 0
       then Some (mt_switch (key_num ikey) (drop (unat key_length) key_ptr))
       else Some (False, None, None) }
     else Some (False, None, None) }"

text \<open>The iterator: its position in the list. \<open>Valid\<close>, \<open>Next\<close>, \<open>Prev\<close> and the two ends are those of the list.\<close>

definition MemIter_Seek :: "(bytes \<Rightarrow> bytes \<Rightarrow> int) \<Rightarrow> bytes \<Rightarrow> MemTable \<Rightarrow> nat option" where
  "MemIter_Seek ucmp k mt = Iter_Seek (KeyComparator ucmp) (EncodeKey k) (mt_table mt)"

definition MemIter_key :: "MemTable \<Rightarrow> nat \<Rightarrow> bytes option" where
  "MemIter_key mt iter = do { entry \<leftarrow> Node_key (mt_table mt) iter; Some (mt_GetLengthPrefixedSlice entry) }"

definition MemIter_value :: "MemTable \<Rightarrow> nat \<Rightarrow> bytes option" where
  "MemIter_value mt iter = do {
     entry \<leftarrow> Node_key (mt_table mt) iter;
     (len, p) \<leftarrow> varint32_at entry;
     Some (mt_GetLengthPrefixedSlice (drop (unat len) p)) }"

section \<open>Entries\<close>

lemma varint32_at_Encode [simp]: "varint32_at (EncodeVarint32 n @ p) = Some (n, p)"
proof -
  have "take 5 (EncodeVarint32 n @ p) = EncodeVarint32 n @ take (5 - length (EncodeVarint32 n)) p"
    using VarintLength_length_core(1) [of n] by simp
  then show ?thesis by (simp add: varint32_at_def)
qed

lemma mt_slice_Encode: "length s < 2 ^ 32 \<Longrightarrow> mt_GetLengthPrefixedSlice (EncodeVarint32 (of_nat (length s)) @ s @ p) = s"
  by (simp add: mt_GetLengthPrefixedSlice_def unat_of_nat)

text \<open>The bytes the list holds: an internal key behind its length, and something after it.\<close>

definition entry_ok :: "bytes \<Rightarrow> bool" where
  "entry_ok b \<longleftrightarrow> (\<exists>ik p. b = EncodeVarint32 (of_nat (length ik)) @ ik @ p \<and> 8 \<le> length ik \<and> length ik < 2 ^ 32)"

lemma entry_ok_slice: "entry_ok b \<Longrightarrow> bytewise.ikey_ok (mt_GetLengthPrefixedSlice b)"
  by (auto simp: entry_ok_def mt_slice_Encode bytewise.ikey_ok_def)

interpretation memkey: key_order "KeyComparator Slice_compare" entry_ok
proof
  fix a b c assume ok: "entry_ok a" "entry_ok b"
  note ik = ok [THEN entry_ok_slice]
  show "KeyComparator Slice_compare a b < 0 \<longleftrightarrow> 0 < KeyComparator Slice_compare b a"
    unfolding KeyComparator_def by (rule ikey.cmp_swap [OF ik])
  assume "entry_ok c" and lt: "KeyComparator Slice_compare a b < 0" "KeyComparator Slice_compare b c \<le> 0"
  note ic = entry_ok_slice [OF this(1)]
  show "KeyComparator Slice_compare a c < 0"
    using lt ikey.cmp_trans [OF ik ic] ikey.cmp_eq [OF ik(2) ic]
    unfolding KeyComparator_def by (cases "KeyComparator Slice_compare b c = 0") (auto simp: KeyComparator_def)
qed

record mem_entry =
  me_seq :: u64
  me_type :: ValueType
  me_key :: bytes
  me_value :: bytes

definition me_bytes :: "mem_entry \<Rightarrow> bytes" where
  "me_bytes e = entry_bytes (me_seq e) (me_type e) (me_key e) (me_value e)"

definition me_ik :: "mem_entry \<Rightarrow> bytes" where
  "me_ik e = AppendInternalKey [] \<lparr>user_key = me_key e, sequence = me_seq e, ik_type = me_type e\<rparr>"

definition me_ok :: "mem_entry \<Rightarrow> bool" where
  "me_ok e \<longleftrightarrow> me_seq e \<le> kMaxSequenceNumber \<and> length (me_key e) + 8 < 2 ^ 32 \<and> length (me_value e) < 2 ^ 32"

definition me_answer :: "mem_entry \<Rightarrow> mt_answer" where
  "me_answer e = (case me_type e of kTypeValue \<Rightarrow> (True, Some (me_value e), None)
     | kTypeDeletion \<Rightarrow> (True, None, Some (NotFound [] [])))"

lemma length_me_ik: "length (me_ik e) = length (me_key e) + 8"
  by (simp add: me_ik_def AppendInternalKey_def PutFixed64_def)

lemma me_bytes_eq:
  "me_bytes e = EncodeVarint32 (of_nat (length (me_ik e))) @ me_ik e @ EncodeVarint32 (of_nat (length (me_value e))) @ me_value e"
  by (simp add: me_bytes_def entry_bytes_def length_me_ik)
     (simp add: me_ik_def AppendInternalKey_def PutFixed64_def PackSequenceAndType_def)

lemma me_bytes_ok: "me_ok e \<Longrightarrow> entry_ok (me_bytes e)"
  unfolding entry_ok_def me_bytes_eq by (rule exI [of _ "me_ik e"]) (simp add: length_me_ik me_ok_def)

lemma me_bytes_slice: "me_ok e \<Longrightarrow> mt_GetLengthPrefixedSlice (me_bytes e) = me_ik e"
  unfolding me_bytes_eq by (rule mt_slice_Encode) (simp add: length_me_ik me_ok_def)

lemma me_ik_parts [simp]: "ExtractUserKey (me_ik e) = me_key e" "key_num (me_ik e) = PackSequenceAndType (me_seq e) (me_type e)"
  by (simp_all add: me_ik_def)

lemma me_varint32_at:
  "me_ok e \<Longrightarrow> \<exists>n rest. varint32_at (me_bytes e) = Some (n, me_ik e @ rest) \<and> unat n = length (me_ik e)
     \<and> rest = EncodeVarint32 (of_nat (length (me_value e))) @ me_value e"
proof -
  assume "me_ok e"
  then have "length (me_ik e) < 2 ^ 32" by (simp add: length_me_ik me_ok_def)
  then show ?thesis unfolding me_bytes_eq by (simp add: unat_of_nat)
qed

lemma mt_switch_me: "me_ok e \<Longrightarrow> mt_switch (PackSequenceAndType (me_seq e) (me_type e))
    (EncodeVarint32 (of_nat (length (me_value e))) @ me_value e) = me_answer e"
  using mt_slice_Encode [of "me_value e" "[]"]
  by (cases "me_type e") (simp_all add: mt_switch_def Pack_type me_answer_def me_ok_def type_of_code_def)

text \<open>An entry fills exactly the bytes that were allocated for it.\<close>

lemma entry_fits:
  assumes "length key + 8 < 2 ^ 32" "length val < 2 ^ 32"
  shows "length (entry_bytes s t key val) = encoded_len key val"
proof -
  have e: "VarintLength (of_nat n) = length (EncodeVarint32 (of_nat n))" if "n < 2 ^ 32" for n
    using that by (simp add: VarintLength_length EncodeVarint32_varint EncodeVarint64_varint unat_of_nat)
  show ?thesis
    using e [of "length key + 8"] e [of "length val"] assms by (simp add: entry_bytes_def encoded_len_def Let_def)
qed

section \<open>The table as a sorted list of entries\<close>

definition mt_holds :: "MemTable \<Rightarrow> mem_entry list \<Rightarrow> bool" where
  "mt_holds mt es \<longleftrightarrow> list_all me_ok es \<and>
     (\<exists>ns. sl_repr (KeyComparator Slice_compare) entry_ok (mt_table mt) ns (map me_bytes es))"

definition me_less :: "mem_entry \<Rightarrow> mem_entry \<Rightarrow> bool" where
  "me_less e f \<longleftrightarrow> me_key e < me_key f \<or> me_key e = me_key f
     \<and> PackSequenceAndType (me_seq f) (me_type f) < PackSequenceAndType (me_seq e) (me_type e)"

lemma me_less_cmp: "me_ok e \<Longrightarrow> me_ok f \<Longrightarrow> KeyComparator Slice_compare (me_bytes e) (me_bytes f) < 0 \<longleftrightarrow> me_less e f"
  unfolding KeyComparator_def me_bytes_slice
  by (subst bytewise.icmp_less_iff) (auto simp: me_ik_def me_less_def Slice_compare_less)

lemma mt_new_holds: "alloc_ok alloc \<Longrightarrow> \<exists>mt. MemTable_new alloc = Some mt \<and> mt_holds mt []"
  using memkey.SkipList_new_repr [OF arena_inv_new, of alloc "[]"] by (auto simp: MemTable_new_def mt_holds_def)

lemma me_cmp_0: "me_ok e \<Longrightarrow> me_ok f \<Longrightarrow> KeyComparator Slice_compare (me_bytes e) (me_bytes f) = 0 \<longleftrightarrow> me_ik e = me_ik f"
  unfolding KeyComparator_def me_bytes_slice by (subst bytewise.icmp_eq) (auto simp: me_ik_def)

lemma mt_Add_holds:
  assumes h: "mt_holds mt es" and e: "me_ok e" and new: "\<And>f. f \<in> set es \<Longrightarrow> me_ik f \<noteq> me_ik e" and al: "alloc_ok alloc"
  shows "\<exists>mt'. MemTable_Add alloc Slice_compare (me_seq e) (me_type e) (me_key e) (me_value e) mt = Some mt'
    \<and> mt_holds mt' (takeWhile (\<lambda>f. me_less f e) es @ e # dropWhile (\<lambda>f. me_less f e) es)"
proof -
  obtain ns where r: "sl_repr (KeyComparator Slice_compare) entry_ok (mt_table mt) ns (map me_bytes es)"
    and ok: "\<And>f. f \<in> set es \<Longrightarrow> me_ok f" using h by (auto simp: mt_holds_def list_all_iff)
  obtain buf ar where a: "Allocate alloc (encoded_len (me_key e) (me_value e)) (sl_arena (mt_table mt)) = (buf, ar)" by fastforce
  have "0 < encoded_len (me_key e) (me_value e)" by (simp add: encoded_len_def Let_def)
  note r' = memkey.repr_Allocate [OF r al a this]
  let ?P = "\<lambda>k'. KeyComparator Slice_compare k' (me_bytes e) < 0"
  have "\<And>k'. k' \<in> set (map me_bytes es) \<Longrightarrow> KeyComparator Slice_compare k' (me_bytes e) \<noteq> 0"
    using new ok e by (auto simp: me_cmp_0)
  from memkey.Insert_repr [OF r' me_bytes_ok [OF e] this al] obtain t ns' where
    t: "Insert alloc (KeyComparator Slice_compare) (me_bytes e) ((mt_table mt)\<lparr>sl_arena := ar\<rparr>) = Some t"
      "sl_repr (KeyComparator Slice_compare) entry_ok t ns'
         (takeWhile ?P (map me_bytes es) @ me_bytes e # dropWhile ?P (map me_bytes es))" by blast
  have tw: "takeWhile (?P \<circ> me_bytes) es = takeWhile (\<lambda>f. me_less f e) es"
    "dropWhile (?P \<circ> me_bytes) es = dropWhile (\<lambda>f. me_less f e) es"
    using ok e by (auto intro!: takeWhile_cong dropWhile_cong simp: me_less_cmp)
  have "mt_holds (mt\<lparr>mt_table := t\<rparr>) (takeWhile (\<lambda>f. me_less f e) es @ e # dropWhile (\<lambda>f. me_less f e) es)"
    using t(2) ok e unfolding mt_holds_def takeWhile_map dropWhile_map tw
    by (auto simp: list_all_iff dest: set_takeWhileD set_dropWhileD)
  then show ?thesis
    using a t(1) by (simp add: MemTable_Add_def me_bytes_def)
qed

text \<open>Adding entries one after the other.\<close>

fun mt_adds :: "(region list \<Rightarrow> nat \<Rightarrow> nat) \<Rightarrow> mem_entry list \<Rightarrow> MemTable \<Rightarrow> MemTable option" where
  "mt_adds alloc [] mt = Some mt"
| "mt_adds alloc (e # es) mt = do {
     mt' \<leftarrow> MemTable_Add alloc Slice_compare (me_seq e) (me_type e) (me_key e) (me_value e) mt; mt_adds alloc es mt' }"

lemma mt_adds_holds:
  assumes "alloc_ok alloc"
  shows "mt_holds mt fs \<Longrightarrow> list_all me_ok es \<Longrightarrow> distinct (map me_ik (fs @ es)) \<Longrightarrow>
    \<exists>mt' fs'. mt_adds alloc es mt = Some mt' \<and> mt_holds mt' fs' \<and> set fs' = set fs \<union> set es"
proof (induction es arbitrary: mt fs)
  case (Cons e es)
  let ?fs = "takeWhile (\<lambda>f. me_less f e) fs @ e # dropWhile (\<lambda>f. me_less f e) fs"
  have s: "mset ?fs = mset (fs @ [e])"
    by (metis (no_types, lifting) mset_append union_mset_add_mset_right mset.simps takeWhile_dropWhile_id add.right_neutral)
  obtain mt1 where m: "MemTable_Add alloc Slice_compare (me_seq e) (me_type e) (me_key e) (me_value e) mt = Some mt1" "mt_holds mt1 ?fs"
  proof -
    have e: "me_ok e" using Cons.prems(2) by simp
    have "me_ik e \<notin> me_ik ` set fs" using Cons.prems(3) by simp
    then have "me_ik f \<noteq> me_ik e" if "f \<in> set fs" for f using that by (metis imageI)
    from mt_Add_holds [OF Cons.prems(1) e this assms] that show thesis by blast
  qed
  have "distinct (map me_ik (?fs @ es))"
    using Cons.prems(3) s by (metis (no_types, lifting) append.assoc append_Cons append_Nil mset_append mset_map mset_eq_imp_distinct_iff)
  from Cons.IH [OF m(2) _ this] Cons.prems(2) m(1) show ?case
    using mset_eq_setD [OF s] by auto
qed auto

section \<open>Lookups\<close>

definition look_entry :: "bytes \<Rightarrow> u64 \<Rightarrow> mem_entry" where
  "look_entry u s = \<lparr>me_seq = s, me_type = kValueTypeForSeek, me_key = u, me_value = []\<rparr>"

lemma LookupKey_parts:
  "lk_internal_key (LookupKey_new u s) = me_ik (look_entry u s)" "lk_user_key (LookupKey_new u s) = u"
  "memtable_key (LookupKey_new u s) = EncodeVarint32 (of_nat (length (me_ik (look_entry u s)))) @ me_ik (look_entry u s)"
  by (simp_all add: LookupKey_new_def lk_internal_key_def lk_user_key_def memtable_key_def me_ik_def look_entry_def
      AppendInternalKey_def PutFixed64_def Let_def add.commute)

lemma memtable_key_ok:
  assumes "length u + 8 < 2 ^ 32"
  shows "entry_ok (memtable_key (LookupKey_new u s))"
    and "mt_GetLengthPrefixedSlice (memtable_key (LookupKey_new u s)) = me_ik (look_entry u s)"
proof -
  have l: "length (me_ik (look_entry u s)) < 2 ^ 32" "8 \<le> length (me_ik (look_entry u s))"
    using assms by (simp_all add: length_me_ik look_entry_def)
  show "entry_ok (memtable_key (LookupKey_new u s))"
    unfolding entry_ok_def LookupKey_parts using l by (intro exI [of _ "me_ik (look_entry u s)"] exI [of _ "[]"]) simp
  show "mt_GetLengthPrefixedSlice (memtable_key (LookupKey_new u s)) = me_ik (look_entry u s)"
    unfolding LookupKey_parts using mt_slice_Encode [OF l(1), of "[]"] by simp
qed

text \<open>Where a lookup stops: at the first entry that is not before the lookup key.\<close>

lemma mt_seek:
  assumes h: "mt_holds mt es" and u: "length u + 8 < 2 ^ 32"
  obtains it where "Iter_Seek (KeyComparator Slice_compare) (memtable_key (LookupKey_new u s)) (mt_table mt) = Some it"
    "case dropWhile (\<lambda>f. me_less f (look_entry u s)) es of [] \<Rightarrow> \<not> Iter_Valid it
       | e # _ \<Rightarrow> Iter_Valid it \<and> Node_key (mt_table mt) it = Some (me_bytes e) \<and> me_ok e"
proof -
  let ?k = "memtable_key (LookupKey_new u s)" and ?P = "\<lambda>f. me_less f (look_entry u s)"
  obtain ns where r: "sl_repr (KeyComparator Slice_compare) entry_ok (mt_table mt) ns (map me_bytes es)"
    and ok: "\<And>f. f \<in> set es \<Longrightarrow> me_ok f" using h by (auto simp: mt_holds_def list_all_iff)
  have c: "KeyComparator Slice_compare (me_bytes f) ?k < 0 \<longleftrightarrow> ?P f" if "f \<in> set es" for f
    unfolding KeyComparator_def memtable_key_ok(2) [OF u] me_bytes_slice [OF ok [OF that]]
    by (subst bytewise.icmp_less_iff) (auto simp: me_ik_def me_less_def Slice_compare_less)
  define n where "n = length (takeWhile ?P es)"
  have "takeWhile ((\<lambda>k'. KeyComparator Slice_compare k' ?k < 0) \<circ> me_bytes) es = takeWhile ?P es"
    using c by (intro takeWhile_cong) auto
  then have seek: "Iter_Seek (KeyComparator Slice_compare) ?k (mt_table mt) = Some (pos ns n)"
    using memkey.Iter_Seek_pos [OF r memtable_key_ok(1) [OF u, of s]] by (simp add: takeWhile_map n_def)
  have d: "dropWhile ?P es = drop n es" by (simp add: n_def dropWhile_eq_drop)
  show thesis
  proof (rule that [OF seek])
    show "case dropWhile ?P es of [] \<Rightarrow> \<not> Iter_Valid (pos ns n)
       | e # _ \<Rightarrow> Iter_Valid (pos ns n) \<and> Node_key (mt_table mt) (pos ns n) = Some (me_bytes e) \<and> me_ok e"
    proof (cases "n < length es")
      case True
      then have "drop n es = es ! n # drop (Suc n) es" by (rule Cons_nth_drop_Suc [symmetric])
      then show ?thesis
        unfolding d using memkey.repr_pos_valid [OF r, of n] memkey.repr_pos_key [OF r, of n] ok [of "es ! n"] True by simp
    next
      case False
      then show ?thesis unfolding d using memkey.repr_pos_valid [OF r, of n] by simp
    qed
  qed
qed

definition me_visible :: "bytes \<Rightarrow> u64 \<Rightarrow> mem_entry \<Rightarrow> bool" where
  "me_visible u s e \<longleftrightarrow> me_key e = u \<and> me_seq e \<le> s"

lemma visible_not_less:
  assumes "me_ok e" "s \<le> kMaxSequenceNumber"
  shows "me_key e = u \<Longrightarrow> me_less e (look_entry u s) \<longleftrightarrow> \<not> me_visible u s e"
  using assms Pack_less_iff [of s "me_seq e" kTypeValue "me_type e"]
  by (cases "me_type e") (auto simp: me_less_def look_entry_def me_visible_def me_ok_def kValueTypeForSeek_def)

lemma mt_holds_sorted: "mt_holds mt es \<Longrightarrow> sorted_wrt me_less es"
proof -
  assume h: "mt_holds mt es"
  then obtain ns where r: "sl_repr (KeyComparator Slice_compare) entry_ok (mt_table mt) ns (map me_bytes es)"
    and ok: "\<And>f. f \<in> set es \<Longrightarrow> me_ok f" by (auto simp: mt_holds_def list_all_iff)
  have "sorted_wrt (\<lambda>x y. KeyComparator Slice_compare (me_bytes x) (me_bytes y) < 0) es"
    using memkey.repr_sorted [OF r] by (simp add: sorted_wrt_map)
  then show ?thesis by (rule sorted_wrt_mono_rel [rotated]) (simp add: ok me_less_cmp)
qed

text \<open>The entry a lookup stops at is the newest visible one, if there is one.\<close>

lemma first_not_less:
  assumes srt: "sorted_wrt me_less es" and ok: "\<And>f. f \<in> set es \<Longrightarrow> me_ok f" and s: "s \<le> kMaxSequenceNumber"
  shows "case dropWhile (\<lambda>f. me_less f (look_entry u s)) es of
      [] \<Rightarrow> \<not> (\<exists>f\<in>set es. me_visible u s f)
    | e # _ \<Rightarrow> if me_key e = u then e \<in> set es \<and> me_visible u s e \<and> (\<forall>f\<in>set es. me_visible u s f \<longrightarrow> f = e \<or> me_less e f)
              else \<not> (\<exists>f\<in>set es. me_visible u s f)"
proof -
  let ?P = "\<lambda>f. me_less f (look_entry u s)"
  have vis: "f \<in> set (dropWhile ?P es)" if "f \<in> set es" "me_visible u s f" for f
  proof -
    have "\<not> ?P f" using visible_not_less [OF ok [OF that(1)] s, of u] that(2) by (auto simp: me_visible_def)
    then have "f \<notin> set (takeWhile ?P es)" by (auto dest: set_takeWhileD)
    then show ?thesis using that(1) by (metis Un_iff set_append takeWhile_dropWhile_id)
  qed
  show ?thesis
  proof (cases "dropWhile ?P es")
    case (Cons e rest)
    have e: "e \<in> set es" "\<not> ?P e" using Cons by (metis list.set_intros(1) set_dropWhileD, metis dropWhile_eq_Cons_conv)
    have "sorted_wrt me_less (takeWhile ?P es @ e # rest)" using srt Cons by (metis takeWhile_dropWhile_id)
    then have later: "f = e \<or> me_less e f" if "f \<in> set es" "me_visible u s f" for f
      using vis [OF that] Cons by (auto simp: sorted_wrt_append)
    show ?thesis
    proof (cases "me_key e = u")
      case True
      then show ?thesis using Cons e later visible_not_less [OF ok [OF e(1)] s True] by auto
    next
      case False
      have "\<not> me_visible u s f" if "f \<in> set es" for f
        using later [OF that] e(2) False by (auto simp: me_visible_def me_less_def look_entry_def)
      then show ?thesis using Cons False by auto
    qed
  next
    case Nil
    then show ?thesis using vis unfolding Nil by auto
  qed
qed

text \<open>What a lookup of user key \<open>u\<close> at sequence number \<open>s\<close> should find among the entries \<open>es\<close>.\<close>

definition newest :: "mem_entry list \<Rightarrow> bytes \<Rightarrow> u64 \<Rightarrow> mem_entry \<Rightarrow> bool" where
  "newest es u s e \<longleftrightarrow> e \<in> set es \<and> me_visible u s e \<and>
     (\<forall>f\<in>set es. me_visible u s f \<longrightarrow>
        me_seq f < me_seq e \<or> me_seq f = me_seq e \<and> type_code (me_type f) \<le> type_code (me_type e))"

lemma newest_first:
  assumes srt: "sorted_wrt me_less es" and ok: "\<And>f. f \<in> set es \<Longrightarrow> me_ok f" and s: "s \<le> kMaxSequenceNumber"
  shows "case dropWhile (\<lambda>f. me_less f (look_entry u s)) es of
      [] \<Rightarrow> \<not> (\<exists>f\<in>set es. me_visible u s f)
    | e # _ \<Rightarrow> if me_key e = u then newest es u s e else \<not> (\<exists>f\<in>set es. me_visible u s f)"
proof (cases "dropWhile (\<lambda>f. me_less f (look_entry u s)) es")
  case (Cons e rest)
  have "newest es u s e" if k: "me_key e = u"
  proof -
    have e: "e \<in> set es" "me_visible u s e" "\<forall>f\<in>set es. me_visible u s f \<longrightarrow> f = e \<or> me_less e f"
      using first_not_less [OF assms, of u] Cons k by auto
    have "me_seq f < me_seq e \<or> me_seq f = me_seq e \<and> type_code (me_type f) \<le> type_code (me_type e)"
      if "f \<in> set es" "me_visible u s f" for f
      using e(3) that ok [OF that(1)] ok [OF e(1)] Pack_less_iff [of "me_seq f" "me_seq e" "me_type f" "me_type e"] k
      by (auto simp: me_less_def me_visible_def me_ok_def)
    with e show ?thesis by (simp add: newest_def)
  qed
  then show ?thesis using first_not_less [OF assms, of u] Cons by auto
next
  case Nil
  show ?thesis using first_not_less [OF assms, of u] unfolding Nil by simp
qed

lemma mt_Get_cases:
  assumes h: "mt_holds mt es" and u: "length u + 8 < 2 ^ 32" and s: "s \<le> kMaxSequenceNumber"
  shows "case dropWhile (\<lambda>f. me_less f (look_entry u s)) es of
      [] \<Rightarrow> MemTable_Get Slice_compare (LookupKey_new u s) mt = Some (False, None, None)
           \<and> MemTable_GetSeq Slice_compare (LookupKey_new u s) mt = Some ((False, None, None), None)
    | e # _ \<Rightarrow> if me_key e = u then MemTable_Get Slice_compare (LookupKey_new u s) mt = Some (me_answer e)
             \<and> MemTable_GetSeq Slice_compare (LookupKey_new u s) mt = Some (me_answer e, Some (me_seq e))
           else MemTable_Get Slice_compare (LookupKey_new u s) mt = Some (False, None, None)
             \<and> MemTable_GetSeq Slice_compare (LookupKey_new u s) mt = Some ((False, None, None), None)"
proof -
  obtain it where it: "Iter_Seek (KeyComparator Slice_compare) (memtable_key (LookupKey_new u s)) (mt_table mt) = Some it"
    "case dropWhile (\<lambda>f. me_less f (look_entry u s)) es of [] \<Rightarrow> \<not> Iter_Valid it
       | e # _ \<Rightarrow> Iter_Valid it \<and> Node_key (mt_table mt) it = Some (me_bytes e) \<and> me_ok e"
    using mt_seek [OF h u] by blast
  show ?thesis
  proof (cases "dropWhile (\<lambda>f. me_less f (look_entry u s)) es")
    case (Cons e rest)
    then have e: "Iter_Valid it" "Node_key (mt_table mt) it = Some (me_bytes e)" "me_ok e" using it(2) by auto
    obtain n where v: "varint32_at (me_bytes e) = Some (n, me_ik e @ EncodeVarint32 (of_nat (length (me_value e))) @ me_value e)"
      "unat n = length (me_ik e)" using me_varint32_at [OF e(3)] by blast
    have "Slice_compare (me_key e) u = 0 \<longleftrightarrow> me_key e = u" "Slice_compare u u = 0" by (simp_all add: Slice_compare_lex)
    moreover have "drop_bit 8 (PackSequenceAndType (me_seq e) (me_type e)) = me_seq e"
      using e(3) by (simp add: Pack_sequence me_ok_def)
    ultimately show ?thesis
      unfolding Cons using it(1) e v mt_switch_me [OF e(3)]
      by (simp add: MemTable_Get_def MemTable_GetSeq_def LookupKey_parts(2) Let_def)
  next
    case Nil
    show ?thesis using it unfolding Nil by (simp add: MemTable_Get_def MemTable_GetSeq_def)
  qed
qed

lemma mt_GetWithSeq_cases:
  assumes h: "mt_holds mt es" and u: "length u + 8 < 2 ^ 32" and s: "s \<le> kMaxSequenceNumber"
  shows "case dropWhile (\<lambda>f. me_less f (look_entry u s)) es of
      [] \<Rightarrow> MemTable_GetWithSeq Slice_compare (LookupKey_new u s) mt = Some (False, None, None)
    | e # _ \<Rightarrow> MemTable_GetWithSeq Slice_compare (LookupKey_new u s) mt =
        Some (if me_key e = u \<and> me_seq e = s \<and> me_type e = kTypeValue then (True, Some (me_value e), None) else (False, None, None))"
proof -
  obtain it where it: "Iter_Seek (KeyComparator Slice_compare) (memtable_key (LookupKey_new u s)) (mt_table mt) = Some it"
    "case dropWhile (\<lambda>f. me_less f (look_entry u s)) es of [] \<Rightarrow> \<not> Iter_Valid it
       | e # _ \<Rightarrow> Iter_Valid it \<and> Node_key (mt_table mt) it = Some (me_bytes e) \<and> me_ok e"
    using mt_seek [OF h u] by blast
  show ?thesis
  proof (cases "dropWhile (\<lambda>f. me_less f (look_entry u s)) es")
    case (Cons e rest)
    then have e: "Iter_Valid it" "Node_key (mt_table mt) it = Some (me_bytes e)" "me_ok e" using it(2) by auto
    obtain n where v: "varint32_at (me_bytes e) = Some (n, me_ik e @ EncodeVarint32 (of_nat (length (me_value e))) @ me_value e)"
      "unat n = length (me_ik e)" using me_varint32_at [OF e(3)] by blast
    have "InternalKeyComparator_Compare Slice_compare (me_ik e) (me_ik (look_entry u s)) = 0 \<longleftrightarrow> me_ik e = me_ik (look_entry u s)"
      by (rule bytewise.icmp_eq) (simp_all add: me_ik_def)
    moreover have "me_ik e = me_ik (look_entry u s) \<longleftrightarrow> me_key e = u \<and> me_seq e = s \<and> me_type e = kTypeValue"
      using ParseInternalKey_Append [of "\<lparr>user_key = me_key e, sequence = me_seq e, ik_type = me_type e\<rparr>"] e(3) s
        ParseInternalKey_Append [of "\<lparr>user_key = u, sequence = s, ik_type = kTypeValue\<rparr>"]
      by (auto simp: me_ik_def look_entry_def me_ok_def kValueTypeForSeek_def)
    ultimately have c: "InternalKeyComparator_Compare Slice_compare (me_ik e) (lk_internal_key (LookupKey_new u s)) = 0
        \<longleftrightarrow> me_key e = u \<and> me_seq e = s \<and> me_type e = kTypeValue" by (simp add: LookupKey_parts(1))
    have "MemTable_GetWithSeq Slice_compare (LookupKey_new u s) mt =
        Some (if me_key e = u \<and> me_seq e = s \<and> me_type e = kTypeValue then me_answer e else (False, None, None))"
      using it(1) e v mt_switch_me [OF e(3)] by (auto simp: MemTable_GetWithSeq_def Let_def c)
    then show ?thesis unfolding Cons by (simp add: me_answer_def)
  next
    case Nil
    show ?thesis using it unfolding Nil by (simp add: MemTable_GetWithSeq_def)
  qed
qed

section \<open>Properties\<close>

lemma me_ik_inject:
  assumes "me_ok e" "me_ok f" "me_ik e = me_ik f"
  shows "(me_key e, me_seq e, me_type e) = (me_key f, me_seq f, me_type f)"
proof -
  have "ParseInternalKey (me_ik g) = Some \<lparr>user_key = me_key g, sequence = me_seq g, ik_type = me_type g\<rparr>" if "me_ok g" for g
    unfolding me_ik_def using that by (intro ParseInternalKey_Append) (simp add: me_ok_def)
  from this [OF assms(1)] this [OF assms(2)] assms(3) show ?thesis by simp
qed

lemma me_ik_distinct:
  assumes "list_all me_ok es" "distinct (map (\<lambda>e. (me_key e, me_seq e, me_type e)) es)"
  shows "distinct (map me_ik es)"
  unfolding distinct_map
proof
  show "distinct es" using assms(2) unfolding distinct_map by blast
  show "inj_on me_ik (set es)"
  proof (rule inj_onI)
    fix e f assume "e \<in> set es" "f \<in> set es" "me_ik e = me_ik f"
    moreover from this have "(me_key e, me_seq e, me_type e) = (me_key f, me_seq f, me_type f)"
      using assms(1) by (intro me_ik_inject) (auto simp: list_all_iff)
    moreover have "inj_on (\<lambda>e. (me_key e, me_seq e, me_type e)) (set es)" using assms(2) by (simp only: distinct_map)
    ultimately show "e = f" by (meson inj_onD)
  qed
qed

lemma mt_get_newest_core:
  assumes "alloc_ok alloc" "list_all me_ok es" "distinct (map (\<lambda>e. (me_key e, me_seq e, me_type e)) es)"
    "length u + 8 < 2 ^ 32" "s \<le> kMaxSequenceNumber"
  shows "\<exists>mt0 mt. MemTable_new alloc = Some mt0 \<and> mt_adds alloc es mt0 = Some mt \<and>
     (if \<exists>e\<in>set es. me_visible u s e
      then \<exists>e. newest es u s e \<and> MemTable_Get Slice_compare (LookupKey_new u s) mt = Some (me_answer e)
             \<and> MemTable_GetSeq Slice_compare (LookupKey_new u s) mt = Some (me_answer e, Some (me_seq e))
      else MemTable_Get Slice_compare (LookupKey_new u s) mt = Some (False, None, None)
         \<and> MemTable_GetSeq Slice_compare (LookupKey_new u s) mt = Some ((False, None, None), None))"
proof -
  obtain mt0 where m0: "MemTable_new alloc = Some mt0" "mt_holds mt0 []" using mt_new_holds [OF assms(1)] by blast
  obtain mt fs where m: "mt_adds alloc es mt0 = Some mt" "mt_holds mt fs" "set fs = set es"
    using mt_adds_holds [OF assms(1) m0(2) assms(2)] me_ik_distinct [OF assms(2,3)] by auto
  have ok: "\<And>f. f \<in> set fs \<Longrightarrow> me_ok f" using m(3) assms(2) by (simp add: list_all_iff)
  note first = newest_first [OF mt_holds_sorted [OF m(2)] ok assms(5), of u] mt_Get_cases [OF m(2) assms(4,5)]
  have nw: "newest fs u s = newest es u s" using m(3) by (simp add: newest_def fun_eq_iff)
  have "if \<exists>e\<in>set fs. me_visible u s e
      then \<exists>e. newest fs u s e \<and> MemTable_Get Slice_compare (LookupKey_new u s) mt = Some (me_answer e)
             \<and> MemTable_GetSeq Slice_compare (LookupKey_new u s) mt = Some (me_answer e, Some (me_seq e))
      else MemTable_Get Slice_compare (LookupKey_new u s) mt = Some (False, None, None)
         \<and> MemTable_GetSeq Slice_compare (LookupKey_new u s) mt = Some ((False, None, None), None)"
  proof (cases "dropWhile (\<lambda>f. me_less f (look_entry u s)) fs")
    case Nil
    show ?thesis using first unfolding Nil by simp
  next
    case (Cons e rest)
    show ?thesis
    proof (cases "me_key e = u")
      case True
      then have "newest fs u s e" "me_visible u s e" "e \<in> set fs" using first unfolding Cons by (auto simp: newest_def)
      then show ?thesis using first True unfolding Cons by auto
    next
      case False
      then show ?thesis using first unfolding Cons by simp
    qed
  qed
  then show ?thesis using m0(1) m(1) unfolding m(3) nw by blast
qed

text \<open>
  C17. A memory table is a multi-version map. After any sequence of \<open>Add\<close> calls with distinct internal keys, which all
  return, \<open>Get\<close> of a user key at a sequence number returns the value of the newest entry of that user key that is
  not newer than the sequence number, or the status \<open>NotFound\<close> if that entry is a deletion, or false if there is no
  such entry; and \<open>GetSeq\<close> returns its sequence number as well.
\<close>

theorem memtable_get_newest:
  assumes "alloc_ok alloc" "list_all me_ok es" "distinct (map (\<lambda>e. (me_key e, me_seq e, me_type e)) es)"
    "length u + 8 < 2 ^ 32" "s \<le> kMaxSequenceNumber"
  shows "\<exists>mt0 mt. MemTable_new alloc = Some mt0 \<and> mt_adds alloc es mt0 = Some mt \<and>
     (if \<exists>e\<in>set es. me_visible u s e
      then \<exists>e. newest es u s e \<and> MemTable_Get Slice_compare (LookupKey_new u s) mt = Some (me_answer e)
             \<and> MemTable_GetSeq Slice_compare (LookupKey_new u s) mt = Some (me_answer e, Some (me_seq e))
      else MemTable_Get Slice_compare (LookupKey_new u s) mt = Some (False, None, None)
         \<and> MemTable_GetSeq Slice_compare (LookupKey_new u s) mt = Some ((False, None, None), None))"
  using assms by (rule mt_get_newest_core)

definition ex_entries :: "mem_entry list" where
  "ex_entries = [\<lparr>me_seq = 1, me_type = kTypeValue, me_key = [7], me_value = [1]\<rparr>,
                 \<lparr>me_seq = 3, me_type = kTypeDeletion, me_key = [7], me_value = []\<rparr>]"

theorem memtable_get_newest_witness:
  "\<exists>mt0 mt e. MemTable_new ex_alloc = Some mt0 \<and> mt_adds ex_alloc ex_entries mt0 = Some mt
     \<and> newest ex_entries [7] 2 e \<and> MemTable_Get Slice_compare (LookupKey_new [7] 2) mt = Some (me_answer e)"
proof -
  have "list_all me_ok ex_entries" "distinct (map (\<lambda>e. (me_key e, me_seq e, me_type e)) ex_entries)"
    by (simp_all add: ex_entries_def me_ok_def kMaxSequenceNumber_def)
  moreover have "\<exists>e\<in>set ex_entries. me_visible [7] 2 e" by (simp add: ex_entries_def me_visible_def)
  ultimately show ?thesis
    using memtable_get_newest [OF ex_alloc_ok, of ex_entries "[7]" 2] by (simp add: kMaxSequenceNumber_def) blast
qed



end
