(* ===== verification/Mem_Write.thy ===== *)
theory Mem_Write
  imports Mem_Table
begin

text \<open>
  Write batches into the memory table: \<open>WriteBatchInternal::InsertInto\<close> (theory \<open>Write_Batch\<close>) with
  \<open>MemTable::Add\<close> (theory \<open>Mem_Table\<close>) in place of its parameter.
\<close>

section \<open>The entries of a batch\<close>

definition add_opt ::
    "(region list \<Rightarrow> nat \<Rightarrow> nat) \<Rightarrow> u64 \<Rightarrow> ValueType \<Rightarrow> bytes \<Rightarrow> bytes \<Rightarrow> MemTable option \<Rightarrow> MemTable option" where
  "add_opt alloc s t k v m = do { mt \<leftarrow> m; MemTable_Add alloc Slice_compare s t k v mt }"

fun op_entry :: "u64 \<Rightarrow> batch_op \<Rightarrow> mem_entry" where
  "op_entry s (BPut k v) = \<lparr>me_seq = s, me_type = kTypeValue, me_key = k, me_value = v\<rparr>"
| "op_entry s (BDelete k) = \<lparr>me_seq = s, me_type = kTypeDeletion, me_key = k, me_value = []\<rparr>"

fun batch_entries :: "u64 \<Rightarrow> batch_op list \<Rightarrow> mem_entry list" where
  "batch_entries s [] = []"
| "batch_entries s (x # xs) = op_entry s x # batch_entries (s + 1) xs"

fun op_key :: "batch_op \<Rightarrow> bytes" where
  "op_key (BPut k v) = k"
| "op_key (BDelete k) = k"

text \<open>What a reader should be told after the last operation on its key.\<close>

fun op_answer :: "batch_op option \<Rightarrow> mt_answer" where
  "op_answer (Some (BPut k v)) = (True, Some v, None)"
| "op_answer (Some (BDelete k)) = (True, None, Some (NotFound [] []))"
| "op_answer None = (False, None, None)"

definition last_op :: "bytes \<Rightarrow> batch_op list \<Rightarrow> batch_op option" where
  "last_op u ops = find (\<lambda>x. op_key x = u) (rev ops)"

lemma mt_adds_None: "fold (batch_op_handle (Inserter_Put (add_opt alloc)) (Inserter_Delete (add_opt alloc))) ops (s, None)
    = (s + of_nat (length ops), None)"
proof (induction ops arbitrary: s)
  case (Cons x ops)
  then show ?case by (cases x) (simp_all add: Inserter_Put_def Inserter_Delete_def add_opt_def algebra_simps)
qed simp

lemma Inserter_adds:
  "fold (batch_op_handle (Inserter_Put (add_opt alloc)) (Inserter_Delete (add_opt alloc))) ops (s, Some mt)
    = (s + of_nat (length ops), mt_adds alloc (batch_entries s ops) mt)"
proof (induction ops arbitrary: s mt)
  case (Cons x ops)
  let ?e = "op_entry s x"
  have "batch_op_handle (Inserter_Put (add_opt alloc)) (Inserter_Delete (add_opt alloc)) x (s, Some mt)
      = (s + 1, MemTable_Add alloc Slice_compare (me_seq ?e) (me_type ?e) (me_key ?e) (me_value ?e) mt)"
    by (cases x) (simp_all add: Inserter_Put_def Inserter_Delete_def add_opt_def)
  then show ?case
    using Cons.IH mt_adds_None [of alloc ops "s + 1"]
    by (cases "MemTable_Add alloc Slice_compare (me_seq ?e) (me_type ?e) (me_key ?e) (me_value ?e) mt") (simp_all add: algebra_simps)
qed simp

lemma length_batch_entries [simp]: "length (batch_entries s ops) = length ops"
  by (induction ops arbitrary: s) simp_all

lemma batch_entries_nth: "i < length ops \<Longrightarrow> batch_entries s ops ! i = op_entry (s + of_nat i) (ops ! i)"
proof (induction ops arbitrary: s i)
  case (Cons x ops)
  then show ?case by (cases i) (simp_all add: algebra_simps)
qed simp

lemma op_entry_simps [simp]: "me_seq (op_entry s x) = s" "me_key (op_entry s x) = op_key x" "me_answer (op_entry s x) = op_answer (Some x)"
  by (cases x; simp add: me_answer_def)+

lemma unat_plus_small: "unat s + i < 2 ^ 56 \<Longrightarrow> unat (s + of_nat i) = unat s + i" for s :: u64
  by (simp add: unat_word_ariths unat_of_nat)

lemma op_key_len: "batch_op_ok x \<Longrightarrow> length (op_key x) + 8 < 2 ^ 32 \<Longrightarrow> s \<le> kMaxSequenceNumber \<Longrightarrow> me_ok (op_entry s x)"
  by (cases x) (simp_all add: me_ok_def)

lemma last_op_cases:
  "case last_op u ops of None \<Rightarrow> \<forall>x\<in>set ops. op_key x \<noteq> u
     | Some x \<Rightarrow> \<exists>i<length ops. ops ! i = x \<and> op_key x = u \<and> (\<forall>j<length ops. i < j \<longrightarrow> op_key (ops ! j) \<noteq> u)"
proof (induction ops rule: rev_induct)
  case (snoc x ops)
  show ?case
  proof (cases "op_key x = u")
    case True
    then show ?thesis by (auto simp: last_op_def intro!: exI [of _ "length ops"])
  next
    case False
    then have l: "last_op u (ops @ [x]) = last_op u ops" by (simp add: last_op_def)
    show ?thesis
    proof (cases "last_op u ops")
      case None
      then show ?thesis using snoc False unfolding l by auto
    next
      case (Some y)
      then obtain i where i: "i < length ops" "ops ! i = y" "op_key y = u" "\<forall>j<length ops. i < j \<longrightarrow> op_key (ops ! j) \<noteq> u"
        using snoc by auto
      then show ?thesis unfolding l Some using False by (auto simp: nth_append intro!: exI [of _ i])
    qed
  qed
qed (simp add: last_op_def)

section \<open>The last operation wins\<close>

lemma newest_batch:
  assumes small: "unat s + length ops \<le> 2 ^ 56" and e: "newest (batch_entries s ops) u smax e"
    and top: "\<And>i. i < length ops \<Longrightarrow> s + of_nat i \<le> smax"
  shows "\<exists>x. last_op u ops = Some x \<and> me_answer e = op_answer (Some x)"
proof -
  obtain i where i: "i < length ops" "e = op_entry (s + of_nat i) (ops ! i)"
    using e by (auto simp: newest_def in_set_conv_nth batch_entries_nth)
  have k: "op_key (ops ! i) = u" using e i by (simp add: newest_def me_visible_def)
  then obtain x j where x: "last_op u ops = Some x" "j < length ops" "ops ! j = x" "op_key x = u"
      "\<forall>m<length ops. j < m \<longrightarrow> op_key (ops ! m) \<noteq> u"
    using last_op_cases [where u = u and ops = ops] i(1) by (cases "last_op u ops") auto
  have "op_entry (s + of_nat j) x \<in> set (batch_entries s ops)"
    using x(2,3) by (auto simp: in_set_conv_nth batch_entries_nth intro!: exI [of _ j])
  moreover have "me_visible u smax (op_entry (s + of_nat j) x)" using x(2,4) top by (simp add: me_visible_def)
  ultimately have "s + of_nat j \<le> s + of_nat i" using e i(2) by (fastforce simp: newest_def)
  then have "j \<le> i" using small i(1) x(2) unat_plus_small [of s i] unat_plus_small [of s j] by (simp add: word_le_nat_alt)
  then have "i = j" using x(5) i(1) k by (metis le_neq_implies_less)
  then show ?thesis using i(2) x by simp
qed

lemma no_op_no_entry:
  "last_op u ops = None \<longleftrightarrow> \<not> (\<exists>e\<in>set (batch_entries s ops). me_key e = u)"
proof -
  have "(\<exists>e\<in>set (batch_entries s ops). me_key e = u) \<longleftrightarrow> (\<exists>x\<in>set ops. op_key x = u)"
    by (induction ops arbitrary: s) simp_all
  then show ?thesis by (auto simp: last_op_def find_None_iff)
qed



end
