(* ===== verification/Spec2Isabelle.thy ===== *)
theory Spec2Isabelle
  imports Rcu Obj_Pool Mem_Store Tx_Sets Tx_Write Versions Epochs Ring_Queues Db_Tables Dbtx Tx_System Tx_Effects Tx_Serial Coding Comparators Dbformat Statuses Write_Batch Version_Edit Randoms Arenas Skip_List Mem_Table Mem_Write
begin

text \<open>
  A verification development for the transactional store of Eunomia (\<^verbatim>\<open>src/AE/Code/euno_ycsb\<close>).
\<close>

end
